(* ===== verification/Prelude.thy ===== *)
theory Prelude
  imports "HOL-Library.Word" "HOL-Library.List_Lexorder" "HOL-Library.Multiset"
begin

text \<open>
  Types and generic facts shared by every component of the evidence development.

  A Rust \<open>u8\<close>, \<open>u64\<close> or \<open>u128\<close> is a word of that width. A Rust \<open>char\<close> is a Unicode scalar
  value, so a \<open>String\<close> is a list of code points (\<open>ustr\<close>); its bytes are the UTF-8 encoding of
  those (\<open>str_bytes\<close>), which is what \<open>as_bytes\<close>, \<open>len\<close> and the ordering of strings look at.
  \<open>Result<T, E>\<close> is the sum \<open>'e + 'a\<close> with \<open>Inl\<close> for the error; \<open>rbind\<close> is the \<open>?\<close> operator.

  The theory also has the locale of prefix codes, in which the unambiguity of every
  byte-level encoding of the program is proved once.
\<close>

section \<open>Types\<close>

type_synonym byte = "8 word"
type_synonym bytes = "byte list"
type_synonym u32 = "32 word"
type_synonym u64 = "64 word"
type_synonym u128 = "128 word"
type_synonym uchar = nat
type_synonym ustr = "uchar list"

named_theorems enc_simps \<open>equations that evaluate encoders\<close>
named_theorems stage_simps \<open>how the stages of the verifier change findings and state\<close>

definition is_char :: "uchar \<Rightarrow> bool" where
  "is_char c \<longleftrightarrow> c < 0xD800 \<or> (0xE000 \<le> c \<and> c < 0x110000)"

abbreviation is_ustr :: "ustr \<Rightarrow> bool" where
  "is_ustr s \<equiv> list_all is_char s"

definition lit :: "string \<Rightarrow> ustr" where
  "lit s = map of_char s"

definition blit :: "string \<Rightarrow> bytes" where
  "blit s = map of_char s"

section \<open>Results\<close>

definition rbind :: "'e + 'a \<Rightarrow> ('a \<Rightarrow> 'e + 'b) \<Rightarrow> 'e + 'b" where
  "rbind r f = (case r of Inl e \<Rightarrow> Inl e | Inr x \<Rightarrow> f x)"

definition ok_or :: "'a option \<Rightarrow> 'e \<Rightarrow> 'e + 'a" where
  "ok_or m e = (case m of None \<Rightarrow> Inl e | Some x \<Rightarrow> Inr x)"

definition is_ok :: "'e + 'a \<Rightarrow> bool" where
  "is_ok r = (case r of Inl e \<Rightarrow> False | Inr x \<Rightarrow> True)"

fun collect_res :: "('e + 'a) list \<Rightarrow> 'e + 'a list" where
  "collect_res [] = Inr []"
| "collect_res (r # rs) = rbind r (\<lambda>x. rbind (collect_res rs) (\<lambda>xs. Inr (x # xs)))"

lemma rbind_simps [simp]:
  "rbind (Inl e) f = Inl e"
  "rbind (Inr x) f = f x"
  by (simp_all add: rbind_def)

lemma rbind_eq_Inr: "rbind r f = Inr y \<longleftrightarrow> (\<exists>x. r = Inr x \<and> f x = Inr y)"
  by (cases r) simp_all

lemma rbind_eq_Inl: "rbind r f = Inl e \<longleftrightarrow> r = Inl e \<or> (\<exists>x. r = Inr x \<and> f x = Inl e)"
  by (cases r) simp_all

lemma rbind_cong [fundef_cong]:
  "r = r' \<Longrightarrow> (\<And>x. r' = Inr x \<Longrightarrow> f x = f' x) \<Longrightarrow> rbind r f = rbind r' f'"
  by (cases r') simp_all

lemma ok_or_simps [simp]:
  "ok_or None e = Inl e"
  "ok_or (Some x) e = Inr x"
  by (simp_all add: ok_or_def)

lemma ok_or_eq_Inr [simp]: "ok_or m e = Inr x \<longleftrightarrow> m = Some x"
  by (cases m) simp_all

lemma is_ok_simps [simp]: "is_ok (Inl e) = False" "is_ok (Inr x) = True"
  by (simp_all add: is_ok_def)

lemma is_ok_iff: "is_ok r \<longleftrightarrow> (\<exists>x. r = Inr x)"
  by (cases r) simp_all

lemma collect_res_Inr: "collect_res (map f xs) = Inr ys \<longleftrightarrow> map f xs = map Inr ys"
  by (induction xs arbitrary: ys)
    (auto simp: rbind_eq_Inr Cons_eq_map_conv map_eq_Cons_conv)

lemma collect_res_map_Inr [simp]: "collect_res (map (\<lambda>x. Inr (f x)) xs) = Inr (map f xs)"
  by (induction xs) simp_all

section \<open>UTF-8 and UTF-16\<close>

definition utf8_char :: "uchar \<Rightarrow> bytes" where
  "utf8_char c =
     (if c < 0x80 then [of_nat c]
      else if c < 0x800 then [of_nat (0xC0 + c div 64), of_nat (0x80 + c mod 64)]
      else if c < 0x10000 then
        [of_nat (0xE0 + c div 4096), of_nat (0x80 + c div 64 mod 64), of_nat (0x80 + c mod 64)]
      else [of_nat (0xF0 + c div 262144), of_nat (0x80 + c div 4096 mod 64),
            of_nat (0x80 + c div 64 mod 64), of_nat (0x80 + c mod 64)])"

definition utf16_char :: "uchar \<Rightarrow> 16 word list" where
  "utf16_char c =
     (if c < 0x10000 then [of_nat c]
      else [of_nat (0xD800 + (c - 0x10000) div 1024), of_nat (0xDC00 + (c - 0x10000) mod 1024)])"

definition str_bytes :: "ustr \<Rightarrow> bytes" where
  "str_bytes s = concat (map utf8_char s)"

definition str_len :: "ustr \<Rightarrow> nat" where
  "str_len s = length (str_bytes s)"

definition str_less :: "ustr \<Rightarrow> ustr \<Rightarrow> bool" where
  "str_less a b \<longleftrightarrow> str_bytes a < str_bytes b"

definition encode_utf16 :: "ustr \<Rightarrow> 16 word list" where
  "encode_utf16 s = concat (map utf16_char s)"

section \<open>Decimal numerals\<close>

fun dec_digits :: "nat \<Rightarrow> ustr" where
  "dec_digits n = (if n < 10 then [48 + n] else dec_digits (n div 10) @ [48 + n mod 10])"

declare dec_digits.simps [simp del]

definition show_int :: "int \<Rightarrow> ustr" where
  "show_int i = (if i < 0 then 45 # dec_digits (nat (- i)) else dec_digits (nat i))"

declare lit_def [enc_simps] blit_def [enc_simps] utf8_char_def [enc_simps]
  utf16_char_def [enc_simps] str_bytes_def [enc_simps] encode_utf16_def [enc_simps]
  dec_digits.simps [enc_simps] show_int_def [enc_simps]

section \<open>Prefix codes\<close>

text \<open>
  An encoder whose words never extend one another. Every encoder of the program that maps a
  sequence item by item (UTF-8, the escapes of canonical JSON, hexadecimal bytes) is one, and
  that is all that is needed to recover the sequence from the concatenation.
\<close>

locale prefix_code =
  fixes enc :: "'a \<Rightarrow> 'b list"
    and valid :: "'a \<Rightarrow> bool"
  assumes prefix_free: "valid x \<Longrightarrow> valid y \<Longrightarrow> enc x @ r = enc y @ s \<Longrightarrow> x = y \<and> r = s"
    and nonempty: "valid x \<Longrightarrow> enc x \<noteq> []"
begin

lemma enc_inj: "valid x \<Longrightarrow> valid y \<Longrightarrow> enc x = enc y \<Longrightarrow> x = y"
  using prefix_free [of x y "[]" "[]"] by simp

lemma enc_start: "valid x \<Longrightarrow> hd (enc x) \<noteq> t \<Longrightarrow> enc x @ zs \<noteq> t # ws"
  using nonempty [of x] by (cases "enc x") auto

lemma concat_terminated:
  assumes "list_all valid xs" and "list_all valid ys"
    and start: "\<And>x. valid x \<Longrightarrow> hd (enc x) \<noteq> t"
    and eq: "concat (map enc xs) @ t # r = concat (map enc ys) @ t # s"
  shows "xs = ys \<and> r = s"
  using assms(1,2) eq
proof (induction xs arbitrary: ys)
  case Nil
  then show ?case
    by (cases ys) (auto dest: enc_start [OF _ start, THEN not_sym])
next
  case (Cons x xs)
  show ?case
  proof (cases ys)
    case Nil
    with Cons.prems show ?thesis
      by (auto dest: enc_start [OF _ start])
  next
    case (Cons y ys')
    with Cons.prems have eq: "enc x @ concat (map enc xs) @ t # r
      = enc y @ concat (map enc ys') @ t # s" and v: "valid x" "valid y"
      by simp_all
    from prefix_free [OF v eq]
    have "x = y" and "concat (map enc xs) @ t # r = concat (map enc ys') @ t # s"
      by simp_all
    with Cons Cons.prems Cons.IH [of ys'] show ?thesis by simp
  qed
qed

lemma concat_inj:
  assumes "list_all valid xs" and "list_all valid ys"
    and "concat (map enc xs) = concat (map enc ys)"
  shows "xs = ys"
  using assms
proof (induction xs arbitrary: ys)
  case Nil
  then show ?case by (cases ys) (auto simp: nonempty)
next
  case (Cons x xs)
  from Cons.prems obtain y ys' where ys: "ys = y # ys'"
    by (cases ys) (auto simp: nonempty)
  with Cons.prems have "enc x @ concat (map enc xs) = enc y @ concat (map enc ys')"
    and v: "valid x" "valid y" by simp_all
  from prefix_free [OF v this(1)] ys Cons.prems Cons.IH [of ys'] show ?case by simp
qed

end

section \<open>UTF-8 is a prefix code\<close>

lemma of_nat_byte_eq:
  "m < 256 \<Longrightarrow> n < 256 \<Longrightarrow> (of_nat m :: byte) = of_nat n \<longleftrightarrow> m = n"
  by (simp add: word_of_nat_eq_iff take_bit_nat_eq_self)

lemma utf8_char_nonempty [simp]: "utf8_char c \<noteq> []"
  by (simp add: utf8_char_def)

lemma is_char_bound: "is_char c \<Longrightarrow> c < 0x110000"
  by (auto simp: is_char_def)

lemma div_mod_join: "(a::nat) div k = b div k \<Longrightarrow> a mod k = b mod k \<Longrightarrow> a = b"
  by (metis div_mult_mod_eq)

lemma div64: "(c::nat) div 4096 = c div 64 div 64" "c div 262144 = c div 64 div 64 div 64"
  by (simp_all add: div_mult2_eq [symmetric])

definition utf8_nats :: "nat \<Rightarrow> nat list" where
  "utf8_nats c =
     (if c < 0x80 then [c]
      else if c < 0x800 then [0xC0 + c div 64, 0x80 + c mod 64]
      else if c < 0x10000 then
        [0xE0 + c div 64 div 64, 0x80 + c div 64 mod 64, 0x80 + c mod 64]
      else [0xF0 + c div 64 div 64 div 64, 0x80 + c div 64 div 64 mod 64,
            0x80 + c div 64 mod 64, 0x80 + c mod 64])"

lemma utf8_nats: "utf8_char c = map of_nat (utf8_nats c)"
  by (simp add: utf8_char_def utf8_nats_def div64)

lemma utf8_nats_bound: "c < 0x110000 \<Longrightarrow> list_all (\<lambda>n. n < 256) (utf8_nats c)"
  by (auto simp: utf8_nats_def div_mult2_eq [symmetric])

lemma map_of_nat_byte: 
  "list_all (\<lambda>n. n < 256) xs \<Longrightarrow> list_all (\<lambda>n. n < 256) ys \<Longrightarrow>
   map (of_nat :: nat \<Rightarrow> byte) xs @ r = map of_nat ys @ s \<Longrightarrow> \<exists>zs. xs = ys @ zs \<or> ys = xs @ zs"
proof (induction xs arbitrary: ys)
  case (Cons x xs) then show ?case by (cases ys) (auto simp: of_nat_byte_eq)
qed auto

lemma utf8_nats_prefix: 
  assumes "c < 0x110000" "d < 0x110000" "utf8_nats c = utf8_nats d @ zs"
  shows "c = d"
  using assms
  by (auto simp: utf8_nats_def split: if_splits dest!: div_mod_join)

lemma utf8_prefix_free: 
  assumes "c < 0x110000" "d < 0x110000" and eq: "utf8_char c @ r = utf8_char d @ s"
  shows "c = d \<and> r = s"
proof -
  from map_of_nat_byte [OF utf8_nats_bound utf8_nats_bound] assms
  obtain zs where "utf8_nats c = utf8_nats d @ zs \<or> utf8_nats d = utf8_nats c @ zs"
    unfolding utf8_nats by blast
  with assms utf8_nats_prefix have "c = d" by metis
  with eq show ?thesis by simp
qed


interpretation utf8: prefix_code utf8_char is_char
proof
  show "c = d \<and> r = s" if "is_char c" "is_char d" "utf8_char c @ r = utf8_char d @ s" for c d r s
    using that utf8_prefix_free is_char_bound by blast
qed simp

lemma str_bytes_inj: "is_ustr s \<Longrightarrow> is_ustr t \<Longrightarrow> str_bytes s = str_bytes t \<Longrightarrow> s = t"
  unfolding str_bytes_def by (rule utf8.concat_inj)

lemma str_bytes_append [simp]: "str_bytes (s @ t) = str_bytes s @ str_bytes t"
  by (simp add: str_bytes_def)

lemma str_bytes_Cons: "str_bytes (c # s) = utf8_char c @ str_bytes s"
  by (simp add: str_bytes_def)

lemma str_bytes_ascii: "list_all (\<lambda>c. c < 128) s \<Longrightarrow> str_bytes s = map of_nat s"
  by (induction s) (simp_all add: str_bytes_def utf8_char_def)

definition digits_val :: "ustr \<Rightarrow> nat" where
  "digits_val s = foldl (\<lambda>a c. 10 * a + (c - 48)) 0 s"

abbreviation is_digit :: "uchar \<Rightarrow> bool" where
  "is_digit c \<equiv> 48 \<le> c \<and> c \<le> 57"

lemma digits_val_dec_digits [simp]: "digits_val (dec_digits n) = n"
  by (induction n rule: dec_digits.induct)
    (subst dec_digits.simps, simp add: digits_val_def)

lemma dec_digits_inj: "dec_digits m = dec_digits n \<longleftrightarrow> m = n"
  by (metis digits_val_dec_digits)

lemma dec_digits_digits: "list_all is_digit (dec_digits n)"
  by (induction n rule: dec_digits.induct) (subst dec_digits.simps, auto)

lemma dec_digits_nonempty [simp]: "dec_digits n \<noteq> []"
  by (subst dec_digits.simps) simp

lemma show_int_inj: "show_int i = show_int j \<longleftrightarrow> i = j"
proof -
  have "dec_digits n \<noteq> 45 # xs" "45 # xs \<noteq> dec_digits n" for n xs
    using dec_digits_digits [of n] by (auto dest: sym)
  then show ?thesis by (auto simp: show_int_def dec_digits_inj)
qed

lemma show_int_chars: "list_all (\<lambda>c. is_digit c \<or> c = 45) (show_int i)"
  using dec_digits_digits by (auto simp: show_int_def list_all_iff)

end
