(* ===== verification/Externals.thy ===== *)
theory Externals
  imports Prelude
begin

text \<open>
  The third-party code the evidence crate calls, as the fields of one record that every
  definition using it takes as its argument, and the documented behaviour the proofs may
  assume of it, each as a named predicate on that record.

  Nothing here says how the functions work: BLAKE3 and SHA-2 are functions on byte strings,
  Ed25519 keys are their byte encodings, the \<open>ulid\<close> crate is a parser and a printer, and
  \<open>chrono\<close>'s RFC 3339 parser gives the instant in nanoseconds since the Unix epoch.
\<close>

record ext =
  x_blake3 :: "bytes \<Rightarrow> bytes"
  x_sha256 :: "bytes \<Rightarrow> bytes"
  x_ulid_parse :: "ustr \<Rightarrow> ustr + u128"
  x_ulid_str :: "u128 \<Rightarrow> ustr"
  x_rfc3339 :: "ustr \<Rightarrow> ustr + int"
  x_ed_public :: "bytes \<Rightarrow> bytes"
  x_ed_sign :: "bytes \<Rightarrow> bytes \<Rightarrow> bytes"
  x_ed_verify :: "bytes \<Rightarrow> bytes \<Rightarrow> bytes \<Rightarrow> bool"
  x_ed_key :: "bytes \<Rightarrow> ustr + bytes"
  x_spki_decode :: "ustr \<Rightarrow> ustr + bytes"
  x_spki_encode :: "bytes \<Rightarrow> ustr + ustr"
  x_pkcs8_decode :: "ustr \<Rightarrow> ustr + bytes"
  x_pkcs8_encode :: "bytes \<Rightarrow> ustr + ustr"

text \<open>BLAKE3-256 and SHA-256 digests have 32 bytes.\<close>

definition digest32 :: "'x ext_scheme \<Rightarrow> bool" where
  "digest32 X \<longleftrightarrow> (\<forall>b. length (x_blake3 X b) = 32) \<and> (\<forall>b. length (x_sha256 X b) = 32)"

text \<open>
  No two different inputs out of a given set collide. A digest of fixed length cannot be
  injective on all inputs, so the tamper-evidence theorems name exactly the inputs that the
  run hashed.
\<close>

definition blake3_distinguishes :: "'x ext_scheme \<Rightarrow> bytes set \<Rightarrow> bool" where
  "blake3_distinguishes X S \<longleftrightarrow> inj_on (x_blake3 X) S"

text \<open>Printing a ULID and parsing it back gives the ULID; a printed ULID is valid text.\<close>

definition ulid_law :: "'x ext_scheme \<Rightarrow> bool" where
  "ulid_law X \<longleftrightarrow> (\<forall>u. x_ulid_parse X (x_ulid_str X u) = Inr u \<and> is_ustr (x_ulid_str X u))"

text \<open>Ed25519: 64-byte signatures, and a signature verifies under the signer's public key.\<close>

definition ed25519_law :: "'x ext_scheme \<Rightarrow> bool" where
  "ed25519_law X \<longleftrightarrow>
     (\<forall>sk m. length (x_ed_sign X sk m) = 64 \<and> x_ed_verify X (x_ed_public X sk) m (x_ed_sign X sk m))"

text \<open>The public key of a 32-byte seed has 32 bytes and is a key that the library accepts.\<close>

definition ed25519_key_law :: "'x ext_scheme \<Rightarrow> bool" where
  "ed25519_key_law X \<longleftrightarrow>
     (\<forall>sk. length sk = 32 \<longrightarrow> length (x_ed_public X sk) = 32 \<and>
        x_ed_key X (x_ed_public X sk) = Inr (x_ed_public X sk))"

lemma digest32_blake3: "digest32 X \<Longrightarrow> length (x_blake3 X b) = 32"
  by (simp add: digest32_def)

lemma blake3_distinguishesD:
  "blake3_distinguishes X S \<Longrightarrow> a \<in> S \<Longrightarrow> b \<in> S \<Longrightarrow> x_blake3 X a = x_blake3 X b \<Longrightarrow> a = b"
  by (auto simp: blake3_distinguishes_def dest: inj_onD)

lemma blake3_distinguishes_mono:
  "blake3_distinguishes X S \<Longrightarrow> T \<subseteq> S \<Longrightarrow> blake3_distinguishes X T"
  by (auto simp: blake3_distinguishes_def intro: inj_on_subset)

end
