(* ===== verification/Errors.thy ===== *)
theory Errors
  imports Externals Complex_Main
begin

text \<open>
  Text messages and the error type of the evidence crate (\<open>evidence/src/error.rs\<close>).

  A formatted message is kept as its template: literal text and the values of the holes, in
  order. \<open>T\<close> is literal text, \<open>S\<close> a displayed string, \<open>D\<close> a string in the \<open>{:?}\<close> form,
  \<open>DC\<close> a character in that form, \<open>N\<close> and \<open>Z\<close> displayed integers and \<open>J\<close> a displayed JSON
  number. Equality of messages is then equality of what they say.
\<close>

section \<open>JSON numbers\<close>

text \<open>
  \<open>serde_json::Number\<close>: an unsigned 64-bit integer, a negative 64-bit integer, or a finite
  double, given here by the rational number it stands for.
\<close>

datatype number = PosInt u64 | NegInt int | Float rat

definition wf_number :: "number \<Rightarrow> bool" where
  "wf_number n = (case n of NegInt i \<Rightarrow> - (2 ^ 63) \<le> i \<and> i < 0 | _ \<Rightarrow> True)"

section \<open>Messages\<close>

datatype part = T string | S ustr | D ustr | DC uchar | N nat | Z int | J number

type_synonym msg = "part list"

section \<open>Errors of the evidence crate\<close>

datatype evidence_error =
    UnsafeNumber number
  | Json ustr
  | InvalidHex string msg
  | RecordHashMismatchError u64 ustr ustr
  | ChainLinkageBroken u64 ustr ustr
  | SequenceViolation ustr u64 u64
  | MonotonicRegression u64 u64 u64
  | WallClockRegression u64 ustr
  | GenesisViolationError ustr ustr
  | SignatureInvalid msg
  | Key msg
  | Certificate msg
  | Checkpoint msg
  | MerkleProof msg
  | Schema msg

type_synonym 'a result = "evidence_error + 'a"

text \<open>The \<open>Display\<close> form of an error, as the \<open>#[error]\<close> attributes give it.\<close>

fun display_error :: "evidence_error \<Rightarrow> msg" where
  "display_error (UnsafeNumber n) =
     [T ''non-integer or unsafe number in signed structure: '', J n]"
| "display_error (Json e) = [T ''JSON error: '', S e]"
| "display_error (InvalidHex field detail) =
     [T ''invalid hex in field '', T field, T '': ''] @ detail"
| "display_error (RecordHashMismatchError seq expected computed) =
     [T ''record hash mismatch at seq '', N (unat seq), T '': expected '', S expected,
      T '', computed '', S computed]"
| "display_error (ChainLinkageBroken seq expected found) =
     [T ''chain linkage broken at seq '', N (unat seq), T '': prev_hash '', S found,
      T '' does not match previous record hash '', S expected]"
| "display_error (SequenceViolation record_id expected found) =
     [T ''sequence violation at record '', S record_id, T '': expected seq '', N (unat expected),
      T '', found '', N (unat found)]"
| "display_error (MonotonicRegression seq prev_ns found_ns) =
     [T ''monotonic clock regression at seq '', N (unat seq), T '': '', N (unat prev_ns),
      T '' -> '', N (unat found_ns)]"
| "display_error (WallClockRegression seq detail) =
     [T ''wall clock regression beyond tolerance at seq '', N (unat seq), T '': '', S detail]"
| "display_error (GenesisViolationError stream_id detail) =
     [T ''genesis rule violated for stream '', S stream_id, T '': '', S detail]"
| "display_error (SignatureInvalid context) = T ''signature invalid: '' # context"
| "display_error (Key m) = T ''key error: '' # m"
| "display_error (Certificate m) = T ''certificate error: '' # m"
| "display_error (Checkpoint m) = T ''checkpoint invalid: '' # m"
| "display_error (MerkleProof m) = T ''merkle proof invalid: '' # m"
| "display_error (Schema m) = T ''schema violation: '' # m"

end
