(* ===== verification/Hashing.thy ===== *)
theory Hashing
  imports Errors
begin

text \<open>
  Digests and hexadecimal text (\<open>evidence/src/hash.rs\<close>): the encoder, the decoder that also
  takes upper-case digits, the 32-byte decoder, and their round trips.
\<close>

unbundle bit_operations_syntax

definition DIGEST_LEN :: nat where
  "DIGEST_LEN = 32"

definition hex_digit :: "nat \<Rightarrow> uchar" where
  "hex_digit n = (if n < 10 then 48 + n else 87 + n)"

definition hex_byte :: "byte \<Rightarrow> ustr" where
  "hex_byte b = [hex_digit (unat b div 16), hex_digit (unat b mod 16)]"

definition hex_encode :: "bytes \<Rightarrow> ustr" where
  "hex_encode bs = concat (map hex_byte bs)"

definition hex_val :: "string \<Rightarrow> byte \<Rightarrow> byte result" where
  "hex_val field c =
     (if 48 \<le> c \<and> c \<le> 57 then Inr (c - 48)
      else if 97 \<le> c \<and> c \<le> 102 then Inr (c - 97 + 10)
      else if 65 \<le> c \<and> c \<le> 70 then Inr (c - 65 + 10)
      else Inl (InvalidHex field [T ''invalid hex character '', DC (unat c)]))"

fun hex_pairs :: "string \<Rightarrow> bytes \<Rightarrow> bytes result" where
  "hex_pairs field (a # b # rest) =
     rbind (hex_val field a) (\<lambda>hi.
     rbind (hex_val field b) (\<lambda>lo.
     rbind (hex_pairs field rest) (\<lambda>out. Inr ((push_bit 4 hi OR lo) # out))))"
| "hex_pairs field _ = Inr []"

definition hex_decode :: "string \<Rightarrow> ustr \<Rightarrow> bytes result" where
  "hex_decode field s =
     (if str_len s mod 2 \<noteq> 0
      then Inl (InvalidHex field [T ''odd length '', N (str_len s)])
      else hex_pairs field (str_bytes s))"

definition hex_decode_digest :: "string \<Rightarrow> ustr \<Rightarrow> bytes result" where
  "hex_decode_digest field s =
     rbind (hex_decode field s) (\<lambda>v.
       if length v = DIGEST_LEN then Inr v
       else Inl (InvalidHex field
              [T ''expected '', N DIGEST_LEN, T '' bytes, got '', N (length v)]))"

definition blake3_raw :: "'x ext_scheme \<Rightarrow> bytes \<Rightarrow> bytes" where
  "blake3_raw X bs = x_blake3 X bs"

definition blake3_hex :: "'x ext_scheme \<Rightarrow> bytes \<Rightarrow> ustr" where
  "blake3_hex X bs = hex_encode (x_blake3 X bs)"

definition sha256_raw :: "'x ext_scheme \<Rightarrow> bytes \<Rightarrow> bytes" where
  "sha256_raw X bs = x_sha256 X bs"

definition sha256_hex :: "'x ext_scheme \<Rightarrow> bytes \<Rightarrow> ustr" where
  "sha256_hex X bs = hex_encode (x_sha256 X bs)"

declare hex_digit_def [enc_simps] hex_byte_def [enc_simps] hex_val_def [enc_simps]
  str_len_def [enc_simps] DIGEST_LEN_def [enc_simps]

section \<open>Hexadecimal bytes\<close>

lemma nibble_cases:
  assumes "n < 16" and "list_all P [0..<16]"
  shows "P n"
  using assms by (simp add: list_all_iff)

lemma hex_val_digit: "n < 16 \<Longrightarrow> hex_val f (of_nat (hex_digit n)) = Inr (of_nat n)"
  by (rule nibble_cases [of n], assumption) (simp add: upt_rec hex_val_def hex_digit_def)

lemma hex_digit_bound: "n < 16 \<Longrightarrow> hex_digit n < 128"
  by (simp add: hex_digit_def)

lemma hex_digit_inj: "m < 16 \<Longrightarrow> n < 16 \<Longrightarrow> hex_digit m = hex_digit n \<longleftrightarrow> m = n"
  by (simp add: hex_digit_def)

lemma unat_nibbles: "unat (b :: byte) div 16 < 16" "unat (b :: byte) mod 16 < 16"
  using unsigned_less [where ?'a = nat and w = b] by simp_all

lemma nibbles_join: "push_bit 4 (of_nat (unat b div 16)) OR of_nat (unat b mod 16) = (b :: byte)"
proof -
  have "of_nat (unat b div 16) = (of_nat (unat (b div 16)) :: byte)"
    "of_nat (unat b mod 16) = (of_nat (unat (b mod 16)) :: byte)"
    by (simp_all add: unat_div_distrib unat_mod_distrib del: of_nat_unat)
  then have "of_nat (unat b div 16) = drop_bit 4 b" "of_nat (unat b mod 16) = take_bit 4 b"
    by (simp_all add: drop_bit_eq_div take_bit_eq_mod)
  then show ?thesis by (auto intro!: bit_eqI simp: bit_simps)
qed

lemma hex_encode_simps [simp]:
  "hex_encode [] = []"
  "hex_encode (b # bs) = hex_byte b @ hex_encode bs"
  by (simp_all add: hex_encode_def)

lemma hex_encode_ascii: "list_all (\<lambda>c. c < 128) (hex_encode bs)"
  by (induction bs) (simp_all add: hex_byte_def hex_digit_bound unat_nibbles)

lemma str_bytes_hex_encode: "str_bytes (hex_encode bs) = map of_nat (hex_encode bs)"
  by (rule str_bytes_ascii [OF hex_encode_ascii])

lemma length_hex_encode [simp]: "length (hex_encode bs) = 2 * length bs"
  by (induction bs) (simp_all add: hex_byte_def)

lemma str_len_hex_encode [simp]: "str_len (hex_encode bs) = 2 * length bs"
  by (simp add: str_len_def str_bytes_hex_encode)

lemma is_ustr_hex_encode [simp]: "is_ustr (hex_encode bs)"
  using hex_encode_ascii [of bs] by (auto simp: list_all_iff is_char_def)

lemma hex_pairs_encode: "hex_pairs f (map of_nat (hex_encode bs)) = Inr bs"
  by (induction bs) (simp_all add: hex_byte_def hex_val_digit unat_nibbles nibbles_join)

lemma hex_decode_encode [simp]: "hex_decode f (hex_encode bs) = Inr bs"
  by (simp add: hex_decode_def str_bytes_hex_encode hex_pairs_encode)

lemma hex_decode_digest_encode:
  "hex_decode_digest f (hex_encode bs) =
     (if length bs = 32 then Inr bs
      else Inl (InvalidHex f [T ''expected '', N 32, T '' bytes, got '', N (length bs)]))"
  by (simp add: hex_decode_digest_def DIGEST_LEN_def)

lemma hex_byte_prefix_free: "hex_byte a @ r = hex_byte b @ s \<Longrightarrow> a = b \<and> r = s"
  by (auto simp: hex_byte_def hex_digit_inj unat_nibbles word_eq_iff_unsigned [where ?'a = nat]
      dest: div_mod_join)

interpretation hex: prefix_code hex_byte "\<lambda>_. True"
  by unfold_locales (simp_all add: hex_byte_prefix_free, simp add: hex_byte_def)

lemma hex_encode_inj [simp]: "hex_encode a = hex_encode b \<longleftrightarrow> a = b"
  using hex.concat_inj [of a b] by (auto simp: hex_encode_def list_all_iff)

lemma blake3_hex_eq [simp]: "blake3_hex X a = blake3_hex X b \<longleftrightarrow> x_blake3 X a = x_blake3 X b"
  by (simp add: blake3_hex_def)

section \<open>What the decoder accepts\<close>

definition lower_hex :: "uchar \<Rightarrow> uchar" where
  "lower_hex c = (if 65 \<le> c \<and> c \<le> 70 then c + 32 else c)"

lemma hex_val_Inr_imp:
  assumes "hex_val f b = Inr v"
  shows "lower_hex (unat b) = hex_digit (unat v) \<and> unat v < 16 \<and> unat b < 128"
proof -
  have shift: "c - 97 + 10 = c - 87" "c - 65 + 10 = c - 55" for c :: byte by simp_all
  from assms consider "48 \<le> b" "b \<le> 57" "v = b - 48" | "97 \<le> b" "b \<le> 102" "v = b - 87"
    | "65 \<le> b" "b \<le> 70" "v = b - 55"
    by (auto simp: hex_val_def shift split: if_splits)
  then show ?thesis
    by cases (auto simp: word_le_nat_alt unat_sub lower_hex_def hex_digit_def)
qed

lemma hex_val_lower: "n < 16 \<Longrightarrow> lower_hex c = hex_digit n \<Longrightarrow> hex_val f (of_nat c) = Inr (of_nat n)"
proof -
  assume n: "n < 16" and eq: "lower_hex c = hex_digit n"
  then have "c < 128" by (auto simp: lower_hex_def hex_digit_def split: if_splits)
  then have "c = hex_digit n \<or> 10 \<le> n \<and> c = 55 + n"
    using eq by (auto simp: lower_hex_def hex_digit_def split: if_splits)
  moreover have "hex_val f (of_nat (55 + n)) = Inr (of_nat n)" if "10 \<le> n"
  proof -
    have "n \<in> {10, 11, 12, 13, 14, 15}" using that n by auto
    then show ?thesis by (auto simp: hex_val_def)
  qed
  ultimately show "hex_val f (of_nat c) = Inr (of_nat n)" using hex_val_digit [OF n] by auto
qed

lemma join_nibbles:
  assumes "unat h < 16" "unat l < 16"
  shows "hex_byte (push_bit 4 h OR l) = [hex_digit (unat h), hex_digit (unat l)]"
proof -
  define n where "n = 16 * unat h + unat l"
  define b where "b = (of_nat n :: byte)"
  have "n < 256" using assms by (simp add: n_def)
  then have "unat b = n" by (simp add: b_def unsigned_of_nat take_bit_nat_eq_self)
  then have "unat b div 16 = unat h" "unat b mod 16 = unat l" using assms by (simp_all add: n_def)
  with nibbles_join [of b] show ?thesis by (auto simp: hex_byte_def)
qed

lemma hex_pairs_sound:
  "hex_pairs f cs = Inr bs \<Longrightarrow> even (length cs) \<Longrightarrow>
   map (lower_hex \<circ> unat) cs = hex_encode bs \<and> list_all (\<lambda>c. unat c < 128) cs"
proof (induction f cs arbitrary: bs rule: hex_pairs.induct)
  case (1 f a b rest)
  from "1.prems" obtain h l out where hl: "hex_val f a = Inr h" "hex_val f b = Inr l"
    and out: "hex_pairs f rest = Inr out" and bs: "bs = (push_bit 4 h OR l) # out"
    by (auto simp: rbind_eq_Inr)
  from "1.IH" [OF hl out] "1.prems" hl [THEN hex_val_Inr_imp] show ?case
    by (simp add: bs join_nibbles)
qed auto

lemma ascii_bytes_ascii:
  assumes "is_ustr s" and "list_all (\<lambda>c. unat c < 128) (str_bytes s)"
  shows "list_all (\<lambda>c. c < 128) s"
  using assms
proof (induction s)
  case (Cons c s)
  show ?case
  proof (cases "c < 128")
    case False
    with Cons.prems have c: "is_char c" "128 \<le> c" by simp_all
    then have "128 \<le> hd (utf8_nats c)" "hd (utf8_nats c) < 256" "utf8_nats c \<noteq> []"
      using utf8_nats_bound [OF is_char_bound [OF c(1)]] by (auto simp: utf8_nats_def)
    then have "128 \<le> unat (hd (utf8_char c))"
      by (simp add: utf8_nats hd_map unsigned_of_nat take_bit_nat_eq_self)
    with Cons.prems show ?thesis by (cases "utf8_char c") (auto simp: str_bytes_Cons)
  qed (use Cons in \<open>simp add: str_bytes_Cons\<close>)
qed simp

lemma hex_decode_sound:
  assumes "is_ustr s" and "hex_decode f s = Inr bs"
  shows "map lower_hex s = hex_encode bs"
proof -
  from assms(2) have p: "hex_pairs f (str_bytes s) = Inr bs" "even (length (str_bytes s))"
    by (auto simp: hex_decode_def str_len_def even_iff_mod_2_eq_zero split: if_splits)
  note sound = hex_pairs_sound [OF p]
  then have asc: "list_all (\<lambda>c. c < 128) s" using ascii_bytes_ascii [OF assms(1)] by simp
  then have "map (lower_hex \<circ> unat) (str_bytes s) = map lower_hex s"
    by (auto simp: str_bytes_ascii list_all_iff unsigned_of_nat take_bit_nat_eq_self)
  with sound show ?thesis by simp
qed

lemma hex_pairs_complete: "map lower_hex s = hex_encode bs \<Longrightarrow> hex_pairs f (map of_nat s) = Inr bs"
proof (induction bs arbitrary: s)
  case (Cons b bs)
  from Cons.prems obtain c d t where "s = c # d # t"
    and "lower_hex c = hex_digit (unat b div 16)" "lower_hex d = hex_digit (unat b mod 16)"
    and "map lower_hex t = hex_encode bs"
    by (auto simp: hex_byte_def map_eq_Cons_conv)
  moreover from this(2,3) have "hex_val f (of_nat c) = Inr (of_nat (unat b div 16))"
    "hex_val f (of_nat d) = Inr (of_nat (unat b mod 16))"
    by (simp_all only: hex_val_lower unat_nibbles)
  ultimately show ?case using Cons.IH by (simp add: nibbles_join)
qed simp

lemma hex_decode_complete:
  assumes "map lower_hex s = hex_encode bs"
  shows "hex_decode f s = Inr bs"
proof -
  have "list_all (\<lambda>c. c < 128) (map lower_hex s)" using hex_encode_ascii assms by simp
  then have "list_all (\<lambda>c. c < 128) s" by (auto simp: list_all_iff lower_hex_def split: if_splits)
  moreover have "even (length s)" using arg_cong [OF assms, of length] by simp
  ultimately show ?thesis using hex_pairs_complete [OF assms]
    by (simp add: hex_decode_def str_len_def str_bytes_ascii even_iff_mod_2_eq_zero)
qed

section \<open>Properties\<close>

text \<open>
  Hexadecimal decoding accepts exactly the encodings, in either case. A string decodes to
  some bytes if and only if lowering its hexadecimal digits gives the encoding of those bytes;
  everything else, a multi-byte character or an odd digit included, is refused.
\<close>

theorem hex_decode_iff:
  assumes "is_ustr s"
  shows "hex_decode f s = Inr bs \<longleftrightarrow> map lower_hex s = hex_encode bs"
  using hex_decode_sound [OF assms] hex_decode_complete by blast

theorem hex_decode_iff_witness:
  "hex_decode ''h'' (lit ''aF'') = Inr [0xAF]"
proof -
  have "hex_decode ''h'' (lit ''aF'') = Inr [0xAF] \<longleftrightarrow> map lower_hex (lit ''aF'') = hex_encode [0xAF]"
    by (rule hex_decode_iff) (simp add: lit_def is_char_def)
  then show ?thesis by (simp add: lit_def lower_hex_def hex_byte_def hex_digit_def)
qed

text \<open>
  A digest parsed from text has 32 bytes, and printing it gives the text back up to the case
  of its letters, so two lower-case digests are equal as text exactly when they are equal as
  bytes.
\<close>

theorem hex_decode_digest_roundtrip:
  assumes "is_ustr s"
  shows "hex_decode_digest f s = Inr bs \<longleftrightarrow> length bs = 32 \<and> hex_encode bs = map lower_hex s"
  unfolding hex_decode_digest_def rbind_eq_Inr DIGEST_LEN_def
  using hex_decode_sound [OF assms, of f bs] hex_decode_complete [of s bs f]
  by (metis Inl_Inr_False Inr_inject)

theorem hex_decode_digest_roundtrip_witness:
  "hex_decode_digest ''h'' (concat (replicate 32 (lit ''0B''))) = Inr (replicate 32 0x0B)"
proof -
  have "hex_decode_digest ''h'' (concat (replicate 32 (lit ''0B''))) = Inr (replicate 32 0x0B) \<longleftrightarrow>
    length (replicate 32 (0x0B :: byte)) = 32 \<and>
    hex_encode (replicate 32 0x0B) = map lower_hex (concat (replicate 32 (lit ''0B'')))"
    by (rule hex_decode_digest_roundtrip) (simp add: lit_def is_char_def list_all_iff)
  then show ?thesis
    by (simp add: hex_encode_def map_concat lit_def lower_hex_def hex_byte_def hex_digit_def)
qed

end
