(* ===== verification/Jcs.thy ===== *)
theory Jcs
  imports Hashing
begin

text \<open>
  Canonical JSON (\<open>evidence/src/jcs.rs\<close>): the writer of RFC 8785 restricted to safe integers,
  its abstract specification (a canonical value and its printed form), and the proof that the
  printed form determines the canonical value, so that hashing the bytes hashes the content.

  \<open>json\<close> is \<open>serde_json::Value\<close>. An object is the list of its members; the crate keeps their
  insertion order, which the writer does not depend on (\<open>write_value_perm\<close>).
\<close>

section \<open>JSON values\<close>

datatype json =
    Null
  | Bool bool
  | Number number
  | String ustr
  | Array "json list"
  | Object "(ustr \<times> json) list"

fun as_object :: "json \<Rightarrow> (ustr \<times> json) list option" where
  "as_object (Object kvs) = Some kvs"
| "as_object _ = None"

fun as_str :: "json \<Rightarrow> ustr option" where
  "as_str (String s) = Some s"
| "as_str _ = None"

fun number_as_u64 :: "number \<Rightarrow> u64 option" where
  "number_as_u64 (PosInt u) = Some u"
| "number_as_u64 _ = None"

fun number_as_i64 :: "number \<Rightarrow> int option" where
  "number_as_i64 (PosInt u) = (if unat u < 2 ^ 63 then Some (int (unat u)) else None)"
| "number_as_i64 (NegInt i) = Some i"
| "number_as_i64 (Float q) = None"

fun as_u64 :: "json \<Rightarrow> u64 option" where
  "as_u64 (Number n) = number_as_u64 n"
| "as_u64 _ = None"

definition get :: "json \<Rightarrow> ustr \<Rightarrow> json option" where
  "get v k = Option.bind (as_object v) (\<lambda>kvs. map_of kvs k)"

definition remove_member :: "ustr \<Rightarrow> (ustr \<times> json) list \<Rightarrow> (ustr \<times> json) list" where
  "remove_member k kvs = filter (\<lambda>p. fst p \<noteq> k) kvs"

text \<open>Valid values: Rust strings, numbers in range, no member twice.\<close>

fun wf_json :: "json \<Rightarrow> bool" where
  "wf_json (Number n) = wf_number n"
| "wf_json (String s) = is_ustr s"
| "wf_json (Array vs) = list_all wf_json vs"
| "wf_json (Object kvs) =
     (distinct (map fst kvs) \<and> list_all (\<lambda>p. is_ustr (fst p) \<and> wf_json (snd p)) kvs)"
| "wf_json _ = True"

section \<open>The writer\<close>

definition MAX_SAFE_INTEGER :: u64 where
  "MAX_SAFE_INTEGER = 9007199254740991"

definition write_number :: "number \<Rightarrow> bytes result" where
  "write_number n =
     (case number_as_u64 n of
        Some u \<Rightarrow> if MAX_SAFE_INTEGER < u then Inl (UnsafeNumber n)
                 else Inr (str_bytes (dec_digits (unat u)))
      | None \<Rightarrow>
          (case number_as_i64 n of
             Some i \<Rightarrow> if uint MAX_SAFE_INTEGER < \<bar>i\<bar> then Inl (UnsafeNumber n)
                      else Inr (str_bytes (show_int i))
           | None \<Rightarrow>
               (case n of
                  Float q \<Rightarrow> if of_int \<lfloor>q\<rfloor> = q \<and> \<bar>q\<bar> \<le> of_int (uint MAX_SAFE_INTEGER)
                            then Inr (str_bytes (show_int \<lfloor>q\<rfloor>))
                            else Inl (UnsafeNumber n)
                | _ \<Rightarrow> Inl (UnsafeNumber n))))"

definition write_char :: "uchar \<Rightarrow> bytes" where
  "write_char c =
     (if c = 0x22 then [0x5C, 0x22]
      else if c = 0x5C then [0x5C, 0x5C]
      else if c = 0x08 then [0x5C, 0x62]
      else if c = 0x09 then [0x5C, 0x74]
      else if c = 0x0A then [0x5C, 0x6E]
      else if c = 0x0C then [0x5C, 0x66]
      else if c = 0x0D then [0x5C, 0x72]
      else if c < 0x20 then
        [0x5C, 0x75, 0x30, 0x30, of_nat (hex_digit (c div 16)), of_nat (hex_digit (c mod 16))]
      else utf8_char c)"

definition write_string :: "ustr \<Rightarrow> bytes" where
  "write_string s = 0x22 # concat (map write_char s) @ [0x22]"

definition member_order :: "ustr \<times> 'a \<Rightarrow> 16 word list" where
  "member_order p = encode_utf16 (fst p)"

fun sep_concat :: "bytes list \<Rightarrow> bytes" where
  "sep_concat [] = []"
| "sep_concat [b] = b"
| "sep_concat (b # bs) = b @ 0x2C # sep_concat bs"

lemma size_list_sort_key [termination_simp]: "size_list f (sort_key g xs) = size_list f xs"
proof -
  have "size_list f xs = length xs + sum_mset (image_mset f (mset xs))" for xs
    by (induction xs) auto
  from this [of "sort_key g xs"] this [of xs] show ?thesis by simp
qed

function (sequential) write_value :: "json \<Rightarrow> bytes result"
  and write_items :: "json list \<Rightarrow> bytes list result"
  and write_members :: "(ustr \<times> json) list \<Rightarrow> bytes list result" where
  "write_value Null = Inr (blit ''null'')"
| "write_value (Bool True) = Inr (blit ''true'')"
| "write_value (Bool False) = Inr (blit ''false'')"
| "write_value (Number n) = write_number n"
| "write_value (String s) = Inr (write_string s)"
| "write_value (Array items) =
     rbind (write_items items) (\<lambda>bs. Inr (0x5B # sep_concat bs @ [0x5D]))"
| "write_value (Object kvs) =
     rbind (write_members (sort_key member_order kvs))
       (\<lambda>bs. Inr (0x7B # sep_concat bs @ [0x7D]))"
| "write_items [] = Inr []"
| "write_items (v # vs) =
     rbind (write_value v) (\<lambda>b. rbind (write_items vs) (\<lambda>bs. Inr (b # bs)))"
| "write_members [] = Inr []"
| "write_members ((k, v) # kvs) =
     rbind (write_value v) (\<lambda>b. rbind (write_members kvs)
       (\<lambda>bs. Inr ((write_string k @ 0x3A # b) # bs)))"
  by pat_completeness auto
termination
  by (relation "measure (\<lambda>x. case x of Inl v \<Rightarrow> size v | Inr (Inl vs) \<Rightarrow> size_list size vs
        | Inr (Inr kvs) \<Rightarrow> size_list (size_prod (\<lambda>_. 0) size) kvs)")
    (auto simp: size_list_sort_key)

definition to_jcs_bytes :: "json \<Rightarrow> bytes result" where
  "to_jcs_bytes v = write_value v"

declare MAX_SAFE_INTEGER_def [enc_simps] write_number_def [enc_simps] write_char_def [enc_simps]
  write_string_def [enc_simps] member_order_def [enc_simps]

section \<open>Specification: canonical values\<close>

text \<open>
  A canonical value has integers for numbers and the members of objects in the order of their
  UTF-16 names. \<open>canon\<close> says which value a JSON value stands for, or which number rules it out;
  \<open>print_cval\<close> is the text of a canonical value.
\<close>

datatype cval = CNull | CBool bool | CInt int | CStr ustr | CArr "cval list"
  | CObj "(ustr \<times> cval) list"

fun safe_int :: "number \<Rightarrow> int option" where
  "safe_int (PosInt u) = (if uint u \<le> 2 ^ 53 - 1 then Some (uint u) else None)"
| "safe_int (NegInt i) = (if \<bar>i\<bar> \<le> 2 ^ 53 - 1 then Some i else None)"
| "safe_int (Float q) = (if of_int \<lfloor>q\<rfloor> = q \<and> \<bar>\<lfloor>q\<rfloor>\<bar> \<le> 2 ^ 53 - 1 then Some \<lfloor>q\<rfloor> else None)"

function (sequential) canon :: "json \<Rightarrow> cval result"
  and canon_items :: "json list \<Rightarrow> cval list result"
  and canon_members :: "(ustr \<times> json) list \<Rightarrow> (ustr \<times> cval) list result" where
  "canon Null = Inr CNull"
| "canon (Bool b) = Inr (CBool b)"
| "canon (Number n) =
     (case safe_int n of None \<Rightarrow> Inl (UnsafeNumber n) | Some i \<Rightarrow> Inr (CInt i))"
| "canon (String s) = Inr (CStr s)"
| "canon (Array items) = rbind (canon_items items) (\<lambda>cs. Inr (CArr cs))"
| "canon (Object kvs) =
     rbind (canon_members (sort_key member_order kvs)) (\<lambda>cs. Inr (CObj cs))"
| "canon_items [] = Inr []"
| "canon_items (v # vs) =
     rbind (canon v) (\<lambda>c. rbind (canon_items vs) (\<lambda>cs. Inr (c # cs)))"
| "canon_members [] = Inr []"
| "canon_members ((k, v) # kvs) =
     rbind (canon v) (\<lambda>c. rbind (canon_members kvs) (\<lambda>cs. Inr ((k, c) # cs)))"
  by pat_completeness auto
termination
  by (relation "measure (\<lambda>x. case x of Inl v \<Rightarrow> size v | Inr (Inl vs) \<Rightarrow> size_list size vs
        | Inr (Inr kvs) \<Rightarrow> size_list (size_prod (\<lambda>_. 0) size) kvs)")
    (auto simp: size_list_sort_key)

fun print_cval :: "cval \<Rightarrow> bytes" where
  "print_cval CNull = blit ''null''"
| "print_cval (CBool b) = (if b then blit ''true'' else blit ''false'')"
| "print_cval (CInt i) = str_bytes (show_int i)"
| "print_cval (CStr s) = write_string s"
| "print_cval (CArr cs) = 0x5B # sep_concat (map print_cval cs) @ [0x5D]"
| "print_cval (CObj ms) =
     0x7B # sep_concat (map (\<lambda>(k, c). write_string k @ 0x3A # print_cval c) ms) @ [0x7D]"

fun wf_cval :: "cval \<Rightarrow> bool" where
  "wf_cval (CStr s) = is_ustr s"
| "wf_cval (CArr cs) = list_all wf_cval cs"
| "wf_cval (CObj ms) = list_all (\<lambda>p. is_ustr (fst p) \<and> wf_cval (snd p)) ms"
| "wf_cval _ = True"

definition print_member :: "ustr \<times> cval \<Rightarrow> bytes" where
  "print_member p = write_string (fst p) @ 0x3A # print_cval (snd p)"

lemma write_number_safe_int:
  "write_number n =
     (case safe_int n of None \<Rightarrow> Inl (UnsafeNumber n) | Some i \<Rightarrow> Inr (str_bytes (show_int i)))"
proof (cases n)
  case (PosInt u)
  then show ?thesis
    by (simp add: write_number_def MAX_SAFE_INTEGER_def show_int_def word_less_def
        not_le nat_uint_eq)
next
  case (NegInt i)
  then show ?thesis by (simp add: write_number_def MAX_SAFE_INTEGER_def)
next
  case (Float q)
  have "of_int \<lfloor>q\<rfloor> = q \<Longrightarrow> \<bar>q\<bar> \<le> 9007199254740991 \<longleftrightarrow> \<bar>\<lfloor>q\<rfloor>\<bar> \<le> 9007199254740991"
    by (metis of_int_abs of_int_le_iff of_int_numeral)
  with Float show ?thesis by (auto simp: write_number_def MAX_SAFE_INTEGER_def)
qed

text \<open>The writer refines the specification.\<close>

lemma write_refines_canon:
  "write_value v = rbind (canon v) (\<lambda>c. Inr (print_cval c))"
  "write_items vs = rbind (canon_items vs) (\<lambda>cs. Inr (map print_cval cs))"
  "write_members kvs = rbind (canon_members kvs) (\<lambda>cs. Inr (map print_member cs))"
proof (induction v and vs and kvs rule: write_value_write_items_write_members.induct)
  case (4 n)
  then show ?case by (simp add: write_number_safe_int split: option.splits)
next
  case (6 items)
  then show ?case by (cases "canon_items items") simp_all
next
  case (7 kvs)
  then show ?case
    by (cases "canon_members (sort_key member_order kvs)")
      (simp_all add: print_member_def case_prod_unfold)
next
  case (9 v vs)
  then show ?case by (cases "canon v"; cases "canon_items vs") simp_all
next
  case (11 k v kvs)
  then show ?case
    by (cases "canon v"; cases "canon_members kvs") (simp_all add: print_member_def)
qed simp_all

section \<open>Unambiguity of the printed form\<close>

lemma hd_utf8_char:
  assumes "is_char c" and "k < 0x80"
  shows "hd (utf8_char c) = of_nat k \<longleftrightarrow> c = k"
proof -
  have "c < 0x110000" using assms(1) by (rule is_char_bound)
  then have "hd (utf8_nats c) < 256" "hd (utf8_nats c) = k \<longleftrightarrow> c = k"
    using utf8_nats_bound [of c] assms(2) by (auto simp: utf8_nats_def split: if_splits)
  moreover have "hd (utf8_char c) = of_nat (hd (utf8_nats c))"
    by (simp add: utf8_nats utf8_nats_def)
  ultimately show ?thesis using assms(2) by (simp add: of_nat_byte_eq)
qed

definition escaped :: "uchar \<Rightarrow> bool" where
  "escaped c \<longleftrightarrow> c < 0x20 \<or> c = 0x22 \<or> c = 0x5C"

lemma write_char_plain: "\<not> escaped c \<Longrightarrow> write_char c = utf8_char c"
  by (simp add: escaped_def write_char_def)

lemma write_char_escaped: "escaped c \<Longrightarrow> \<exists>e es. write_char c = 0x5C # e # es"
  by (auto simp: escaped_def write_char_def)

lemma hd_write_char_plain: "is_char c \<Longrightarrow> \<not> escaped c \<Longrightarrow> hd (write_char c) \<notin> {0x22, 0x5C}"
  using hd_utf8_char [of c 34] hd_utf8_char [of c 92]
  by (auto simp: write_char_plain escaped_def)

lemma write_char_nonempty [simp]: "write_char c \<noteq> []"
  by (simp add: write_char_def)

lemma hd_write_char: "is_char c \<Longrightarrow> hd (write_char c) \<noteq> 0x22"
  using hd_write_char_plain [of c] write_char_escaped [of c] by force

definition unicode_escape :: "uchar \<Rightarrow> bytes" where
  "unicode_escape c =
     [0x5C, 0x75, 0x30, 0x30, of_nat (hex_digit (c div 16)), of_nat (hex_digit (c mod 16))]"

lemma unicode_escape_inj:
  assumes "c < 0x20" and "d < 0x20"
  shows "unicode_escape c = unicode_escape d \<longleftrightarrow> c = d"
proof -
  have "x < 256 \<Longrightarrow> y < 256 \<Longrightarrow> (of_nat x :: byte) = of_nat y \<longleftrightarrow> x = y" for x y
    by (rule of_nat_byte_eq)
  moreover have "hex_digit (x div 16) < 256" "hex_digit (x mod 16) < 256" if "x < 0x20" for x
    using that hex_digit_bound [of "x div 16"] hex_digit_bound [of "x mod 16"]
    by (simp_all add: less_mult_imp_div_less)
  ultimately show ?thesis
    using assms by (auto simp: unicode_escape_def hex_digit_inj dest: div_mod_join)
qed

definition short_escapes :: "(uchar \<times> byte) list" where
  "short_escapes = [(0x22, 0x22), (0x5C, 0x5C), (8, 0x62), (9, 0x74), (10, 0x6E), (12, 0x66), (13, 0x72)]"

lemma write_char_short: "(c, e) \<in> set short_escapes \<Longrightarrow> write_char c = [0x5C, e]"
  by (auto simp: short_escapes_def write_char_def)

lemma write_char_unicode:
  "escaped c \<Longrightarrow> c \<notin> fst ` set short_escapes \<Longrightarrow> c < 0x20 \<and> write_char c = unicode_escape c"
  by (simp add: short_escapes_def write_char_def escaped_def unicode_escape_def)

lemma write_char_escaped_cases:
  assumes "escaped c"
  obtains (short) e where "(c, e) \<in> set short_escapes" "write_char c = [0x5C, e]"
    | (unicode) "c < 0x20" "write_char c = unicode_escape c"
  using write_char_unicode [OF assms] write_char_short by force

lemma short_escapes_inj:
  "(c, e) \<in> set short_escapes \<Longrightarrow> (d, e) \<in> set short_escapes \<Longrightarrow> c = d"
  "(c, e) \<in> set short_escapes \<Longrightarrow> e \<noteq> 0x75"
  by (auto simp: short_escapes_def)

lemma write_char_escapes_prefix_free:
  assumes "escaped c" and d: "escaped d" and eq: "write_char c @ r = write_char d @ s"
  shows "c = d"
  using assms(1)
proof (cases rule: write_char_escaped_cases)
  case (short e)
  note c = this
  from d show ?thesis
    by (cases rule: write_char_escaped_cases)
      (use eq c in \<open>auto simp: unicode_escape_def dest: short_escapes_inj\<close>)
next
  case unicode
  note c = this
  from d show ?thesis
  proof (cases rule: write_char_escaped_cases)
    case (short e)
    with eq c show ?thesis by (auto simp: unicode_escape_def dest: short_escapes_inj(2))
  next
    case unicode
    with eq c have "unicode_escape c = unicode_escape d" by (simp add: unicode_escape_def)
    with c unicode show ?thesis by (simp add: unicode_escape_inj)
  qed
qed

lemma write_char_prefix_free:
  assumes v: "is_char c" "is_char d" and eq: "write_char c @ r = write_char d @ s"
  shows "c = d \<and> r = s"
proof -
  have "hd (write_char c) = hd (write_char d)"
    using eq by (metis hd_append2 write_char_nonempty)
  then have esc: "escaped c \<longleftrightarrow> escaped d"
    using hd_write_char_plain v write_char_escaped by (metis insertCI list.sel(1))
  have "c = d"
  proof (cases "escaped c")
    case True
    with esc eq show ?thesis by (auto intro: write_char_escapes_prefix_free)
  next
    case False
    with esc eq have "utf8_char c @ r = utf8_char d @ s" by (simp add: write_char_plain)
    from utf8.prefix_free [OF v this] show ?thesis by simp
  qed
  with eq show ?thesis by simp
qed

interpretation jstring: prefix_code write_char is_char
  by unfold_locales (rule write_char_prefix_free, assumption+, simp)

lemma write_string_prefix_free:
  assumes "is_ustr s" "is_ustr t" "write_string s @ r = write_string t @ q"
  shows "s = t \<and> r = q"
  using jstring.concat_terminated [OF assms(1,2) hd_write_char, of r q] assms(3)
  by (simp add: write_string_def)

definition delim :: "bytes \<Rightarrow> bool" where
  "delim r \<longleftrightarrow> r = [] \<or> hd r \<in> {0x2C, 0x5D, 0x7D}"

lemma delim_simps [simp]: "delim []" "delim (0x2C # r)" "delim (0x5D # r)" "delim (0x7D # r)"
  by (simp_all add: delim_def)

definition int_byte :: "byte \<Rightarrow> bool" where
  "int_byte b \<longleftrightarrow> b = 45 \<or> (48 \<le> b \<and> b \<le> 57)"

lemma show_int_bytes: "list_all int_byte (str_bytes (show_int i))"
proof -
  have a: "list_all (\<lambda>c. c < 128) (show_int i)"
    using show_int_chars [of i] by (auto simp: list_all_iff)
  have "int_byte (of_nat c)" if "is_digit c \<or> c = 45" for c
    using that by (auto simp: int_byte_def word_le_nat_alt unsigned_of_nat take_bit_nat_eq_self)
  with show_int_chars [of i] a show ?thesis by (auto simp: str_bytes_ascii list_all_iff)
qed

lemma show_int_nonempty [simp]: "str_bytes (show_int i) \<noteq> []"
  using dec_digits_nonempty by (auto simp: show_int_def str_bytes_def)

lemma is_ustr_show_int: "is_ustr (show_int i)"
  using show_int_chars [of i] by (auto simp: list_all_iff is_char_def)

lemma delim_int_byte: "delim r \<Longrightarrow> r \<noteq> [] \<Longrightarrow> \<not> int_byte (hd r)"
  by (auto simp: delim_def int_byte_def)

lemma takeWhile_delim:
  assumes "list_all int_byte b" "delim r"
  shows "takeWhile int_byte (b @ r) = b"
  using assms delim_int_byte [of r] by (cases r) (auto simp: takeWhile_append list_all_iff)

lemma show_int_prefix_free:
  assumes "str_bytes (show_int i) @ r = str_bytes (show_int j) @ s" "delim r" "delim s"
  shows "i = j \<and> r = s"
proof -
  have "str_bytes (show_int i) = str_bytes (show_int j)"
    using takeWhile_delim [OF show_int_bytes assms(2), of i] takeWhile_delim [OF show_int_bytes assms(3), of j]
      assms(1) by simp
  with assms(1) show ?thesis
    using str_bytes_inj [OF is_ustr_show_int is_ustr_show_int] by (auto simp: show_int_inj)
qed


lemma sep_concat_Cons: "bs \<noteq> [] \<Longrightarrow> sep_concat (b # bs) = b @ 0x2C # sep_concat bs"
  by (cases bs) simp_all

lemma sep_concat_hd: "hd bs \<noteq> [] \<Longrightarrow> bs \<noteq> [] \<Longrightarrow> sep_concat bs \<noteq> [] \<and> hd (sep_concat bs) = hd (hd bs)"
  by (cases bs rule: sep_concat.cases) auto

lemma sep_concat_start:
  assumes "ys \<noteq> []" and "\<And>x. x \<in> set ys \<Longrightarrow> p x \<noteq> [] \<and> hd (p x) \<noteq> c"
  shows "sep_concat (map p ys) @ q \<noteq> c # r"
  using assms sep_concat_hd [of "map p ys"]
  by (cases ys; cases "sep_concat (map p ys)") auto

lemma print_cval_CObj: "print_cval (CObj ms) = 0x7B # sep_concat (map print_member ms) @ [0x7D]"
  by (simp add: print_member_def [abs_def] case_prod_unfold)

text \<open>
  A bracketed, comma-separated list determines its items, when each item is determined by
  its text in front of a delimiter.
\<close>

lemma sep_concat_inj:
  assumes items: "\<And>x y r s. x \<in> set xs \<Longrightarrow> y \<in> set ys \<Longrightarrow> p x @ r = p y @ s \<Longrightarrow>
      delim r \<Longrightarrow> delim s \<Longrightarrow> x = y \<and> r = s"
    and start: "\<And>x. x \<in> set xs \<union> set ys \<Longrightarrow> p x \<noteq> [] \<and> hd (p x) \<noteq> c"
    and c: "c = 0x5D \<or> c = 0x7D"
    and eq: "sep_concat (map p xs) @ c # r = sep_concat (map p ys) @ c # s"
  shows "xs = ys \<and> r = s"
  using items start eq
proof (induction xs arbitrary: ys)
  case Nil
  have "ys = []"
  proof (rule ccontr)
    assume "ys \<noteq> []"
    from sep_concat_start [OF this, of p c "c # s" r] Nil.prems(2,3) show False by simp
  qed
  with Nil.prems(3) show ?case by simp
next
  case (Cons x xs)
  from sep_concat_start [of "x # xs" p c "c # r" s] Cons.prems(2,3)
  obtain y ys' where ys: "ys = y # ys'" by (cases ys) auto
  define tail where "tail zs q = (if zs = [] then c # q else 0x2C # sep_concat (map p zs) @ c # q)"
    for zs :: "'a list" and q
  have tail: "sep_concat (map p (z # zs)) @ c # q = p z @ tail zs q" "delim (tail zs q)" for z zs q
    using c by (auto simp: tail_def sep_concat_Cons)
  from Cons.prems(3) have "p x @ tail xs r = p y @ tail ys' s"
    by (simp only: tail(1) ys)
  with Cons.prems(1) [of x y] ys have xy: "x = y" and t: "tail xs r = tail ys' s"
    by (auto simp: tail(2))
  have "xs = ys' \<and> r = s"
  proof (cases "xs = [] \<or> ys' = []")
    case True
    with t c show ?thesis by (auto simp: tail_def split: if_splits)
  next
    case False
    with t have "sep_concat (map p xs) @ c # r = sep_concat (map p ys') @ c # s"
      by (simp add: tail_def)
    then show ?thesis using Cons.IH [of ys'] Cons.prems(1,2) ys by auto
  qed
  with xy ys show ?case by simp
qed

text \<open>The first byte tells the six kinds of values apart.\<close>

fun kind_byte :: "cval \<Rightarrow> byte \<Rightarrow> bool" where
  "kind_byte CNull b = (b = 0x6E)"
| "kind_byte (CBool v) b = (b = (if v then 0x74 else 0x66))"
| "kind_byte (CInt i) b = int_byte b"
| "kind_byte (CStr s) b = (b = 0x22)"
| "kind_byte (CArr cs) b = (b = 0x5B)"
| "kind_byte (CObj ms) b = (b = 0x7B)"

lemma hd_show_int: "int_byte (hd (str_bytes (show_int i)))"
  using show_int_bytes [of i] by (cases "str_bytes (show_int i)") auto

lemma print_cval_nonempty [simp]: "print_cval c \<noteq> []"
  by (cases c) (simp_all add: blit_def write_string_def)

lemma kind_byte_print: "kind_byte c (hd (print_cval c))"
  by (cases c) (simp_all add: blit_def write_string_def hd_show_int)

lemma print_cval_hd: "hd (print_cval c) \<noteq> 0x5D" "hd (print_cval c) \<noteq> 0x7D"
  using kind_byte_print [of c] by (cases c; auto simp: int_byte_def)+

lemma print_cval_hd_eq:
  assumes "print_cval c @ r = print_cval d @ s"
  shows "kind_byte d (hd (print_cval c))"
  using assms kind_byte_print [of d] by (metis hd_append2 print_cval_nonempty)

theorem print_cval_prefix_free:
  assumes "wf_cval c" "wf_cval d" "print_cval c @ r = print_cval d @ s" "delim r" "delim s"
  shows "c = d \<and> r = s"
  using assms
proof (induction c arbitrary: d r s)
  case (CArr cs)
  then obtain ds where d: "d = CArr ds"
    using print_cval_hd_eq [OF CArr.prems(3)] by (cases d) (auto simp: int_byte_def split: if_splits)
  with CArr.prems have eq: "sep_concat (map print_cval cs) @ 0x5D # r = sep_concat (map print_cval ds) @ 0x5D # s"
    by simp
  have "cs = ds \<and> r = s"
  proof (rule sep_concat_inj [OF _ _ _ eq])
    show "x = y \<and> r = s" if "x \<in> set cs" "y \<in> set ds" "print_cval x @ r = print_cval y @ s"
      "delim r" "delim s" for x y r s
      using CArr.IH [of x y r s] CArr.prems(1,2) that d by (auto simp: list_all_iff)
  qed (simp_all add: print_cval_hd)
  with d show ?case by simp
next
  case (CObj ms)
  then obtain ns where d: "d = CObj ns"
    using print_cval_hd_eq [OF CObj.prems(3)] by (cases d) (auto simp: int_byte_def split: if_splits)
  with CObj.prems have eq: "sep_concat (map print_member ms) @ 0x7D # r = sep_concat (map print_member ns) @ 0x7D # s"
    by (simp add: print_cval_CObj del: print_cval.simps)
  have "ms = ns \<and> r = s"
  proof (rule sep_concat_inj [OF _ _ _ eq])
    show "x = y \<and> r = s" if m: "x \<in> set ms" "y \<in> set ns" "print_member x @ r = print_member y @ s"
      "delim r" "delim s" for x y r s
    proof -
      from m CObj.prems(1,2) d have w: "is_ustr (fst x)" "is_ustr (fst y)" "wf_cval (snd x)" "wf_cval (snd y)"
        by (auto simp: list_all_iff)
      from m(3) have "write_string (fst x) @ 0x3A # print_cval (snd x) @ r
          = write_string (fst y) @ 0x3A # print_cval (snd y) @ s"
        by (simp add: print_member_def)
      from write_string_prefix_free [OF w(1,2) this]
      have "fst x = fst y" "print_cval (snd x) @ r = print_cval (snd y) @ s" by simp_all
      then show ?thesis
        using CObj.IH [OF m(1), of "snd x" "snd y" r s] w m(4,5) by (cases x; cases y) auto
    qed
  qed (simp_all add: print_member_def write_string_def)
  with d show ?case by simp
next
  case (CInt i)
  then show ?case
    using print_cval_hd_eq [OF CInt.prems(3)] hd_show_int [of i]
    by (cases d) (auto simp: int_byte_def dest: show_int_prefix_free split: if_splits)
next
  case (CStr t)
  then show ?case
    using print_cval_hd_eq [OF CStr.prems(3)]
    by (cases d) (auto simp: write_string_def int_byte_def split: if_splits
        dest: write_string_prefix_free [unfolded write_string_def, simplified])
next
  case CNull
  then show ?case
    using print_cval_hd_eq [OF CNull.prems(3)]
    by (cases d) (auto simp: blit_def int_byte_def split: if_splits)
next
  case (CBool b)
  then show ?case
    using print_cval_hd_eq [OF CBool.prems(3)]
    by (cases d; cases b) (auto simp: blit_def int_byte_def split: if_splits)
qed

lemma print_cval_inj: "wf_cval c \<Longrightarrow> wf_cval d \<Longrightarrow> print_cval c = print_cval d \<longleftrightarrow> c = d"
  using print_cval_prefix_free [of c d "[]" "[]"] by auto

lemma canon_wf:
  "wf_json v \<Longrightarrow> canon v = Inr c \<Longrightarrow> wf_cval c"
  "list_all wf_json vs \<Longrightarrow> canon_items vs = Inr cs \<Longrightarrow> list_all wf_cval cs"
  "list_all (\<lambda>p. is_ustr (fst p) \<and> wf_json (snd p)) kvs \<Longrightarrow> canon_members kvs = Inr ms \<Longrightarrow>
     list_all (\<lambda>p. is_ustr (fst p) \<and> wf_cval (snd p)) ms"
  by (induction v and vs and kvs arbitrary: c and cs and ms rule: canon_canon_items_canon_members.induct)
    (auto simp: rbind_eq_Inr list_all_iff split: option.splits, force)


section \<open>Member order\<close>

lemma of_nat_u16_eq:
  "m < 65536 \<Longrightarrow> n < 65536 \<Longrightarrow> (of_nat m :: 16 word) = of_nat n \<longleftrightarrow> m = n"
  by (simp add: word_of_nat_eq_iff take_bit_nat_eq_self)

lemma utf16_pair_bounds:
  assumes "c < 0x110000"
  shows "0xD800 + (c - 0x10000) div 1024 < (0xDC00 :: nat)"
    and "0xDC00 + (c - 0x10000) mod 1024 < (0xE000 :: nat)"
proof -
  have "(c - 0x10000) div 1024 < 1024" using assms by (simp add: less_mult_imp_div_less)
  then show "0xD800 + (c - 0x10000) div 1024 < (0xDC00 :: nat)" by simp
  have "(c - 0x10000) mod 1024 < 1024" by simp
  then show "0xDC00 + (c - 0x10000) mod 1024 < (0xE000 :: nat)" by linarith
qed

lemma utf16_units:
  assumes "is_char c"
  obtains (bmp) "c < 0x10000" "utf16_char c = [of_nat c]"
    | (pair) h l where "0x10000 \<le> c" "utf16_char c = [of_nat h, of_nat l]" "c = 0x10000 + (h - 0xD800) * 1024 + (l - 0xDC00)"
        "0xD800 \<le> h" "h < 0xDC00" "0xDC00 \<le> l" "l < 0xE000"
proof (cases "c < 0x10000")
  case True
  then show ?thesis using bmp by (simp add: utf16_char_def)
next
  case False
  then show ?thesis
    using pair [of "0xD800 + (c - 0x10000) div 1024" "0xDC00 + (c - 0x10000) mod 1024"]
      utf16_pair_bounds [OF is_char_bound [OF assms]]
    by (simp add: utf16_char_def del: of_nat_add)
qed

lemma utf16_prefix_free:
  assumes c: "is_char c" and d: "is_char d" and eq: "utf16_char c @ r = utf16_char d @ s"
  shows "c = d \<and> r = s"
  using c
proof (cases rule: utf16_units)
  case bmp
  note c' = this
  from d show ?thesis
    by (cases rule: utf16_units)
      (use eq c c' in \<open>auto simp: of_nat_u16_eq is_char_def\<close>)
next
  case (pair h l)
  note c' = this
  from d show ?thesis
    by (cases rule: utf16_units)
      (use eq d c' in \<open>auto simp: of_nat_u16_eq is_char_def\<close>)
qed

interpretation utf16: prefix_code utf16_char is_char
  by unfold_locales (rule utf16_prefix_free, assumption+, simp add: utf16_char_def)

lemma encode_utf16_inj:
  "is_ustr s \<Longrightarrow> is_ustr t \<Longrightarrow> encode_utf16 s = encode_utf16 t \<longleftrightarrow> s = t"
  using utf16.concat_inj [of s t] by (auto simp: encode_utf16_def)

lemma sort_members_perm:
  assumes "mset kvs = mset kvs'" and "distinct (map fst kvs)" and "list_all (\<lambda>p. is_ustr (fst p)) kvs"
  shows "sort_key member_order kvs = sort_key member_order kvs'"
proof (rule sort_key_inj_key_eq)
  show "inj_on member_order (set kvs)"
  proof (rule inj_onI)
    fix x y
    assume m: "x \<in> set kvs" "y \<in> set kvs" and "member_order x = member_order y"
    then have "fst x = fst y" using assms(3) by (simp add: member_order_def encode_utf16_inj list_all_iff)
    with m assms(2) show "x = y" by (simp add: distinct_map inj_on_def)
  qed
qed (use assms(1) in simp_all)

lemma write_value_perm:
  assumes "mset kvs = mset kvs'" and "wf_json (Object kvs)"
  shows "write_value (Object kvs) = write_value (Object kvs')"
  using sort_members_perm [OF assms(1)] assms(2) by (simp add: list_all_iff)

section \<open>What the bytes determine\<close>

lemma to_jcs_bytes_Inr: "to_jcs_bytes v = Inr b \<longleftrightarrow> (\<exists>c. canon v = Inr c \<and> b = print_cval c)"
  by (auto simp: to_jcs_bytes_def write_refines_canon rbind_eq_Inr)

lemma to_jcs_bytes_canon:
  assumes "wf_json v" "wf_json w" "to_jcs_bytes v = Inr b" "to_jcs_bytes w = Inr b"
  shows "canon v = canon w"
  using assms canon_wf(1) print_cval_inj by (auto simp: to_jcs_bytes_Inr)

text \<open>No control character, and so no line feed, occurs in canonical text.\<close>

abbreviation printable :: "byte \<Rightarrow> bool" where
  "printable b \<equiv> 0x20 \<le> b"

lemma byte_ge_0x20: "0x20 \<le> n \<Longrightarrow> n < 256 \<Longrightarrow> printable (of_nat n)"
  by (simp add: word_le_nat_alt unsigned_of_nat take_bit_nat_eq_self)

lemma utf8_char_printable:
  assumes "is_char c" and "0x20 \<le> c"
  shows "list_all printable (utf8_char c)"
proof -
  have "list_all (\<lambda>n. 0x20 \<le> n) (utf8_nats c)" using assms(2) by (simp add: utf8_nats_def)
  with utf8_nats_bound [OF is_char_bound [OF assms(1)]] show ?thesis
    by (auto simp: utf8_nats list_all_iff byte_ge_0x20)
qed

lemma write_char_printable: "is_char c \<Longrightarrow> list_all printable (write_char c)"
proof (cases "escaped c")
  case True
  then show "list_all printable (write_char c)"
  proof (cases rule: write_char_escaped_cases)
    case (short e)
    then show ?thesis by (auto simp: short_escapes_def)
  next
    case unicode
    have "printable (of_nat (hex_digit n))" if "n < 16" for n
      using that by (intro byte_ge_0x20) (simp_all add: hex_digit_def)
    with unicode show ?thesis by (simp add: unicode_escape_def less_mult_imp_div_less)
  qed
qed (auto simp: write_char_plain escaped_def utf8_char_printable)

lemma write_string_printable: "is_ustr s \<Longrightarrow> list_all printable (write_string s)"
  using write_char_printable by (fastforce simp: write_string_def list_all_iff)

lemma sep_concat_printable:
  "list_all (list_all printable) bs \<Longrightarrow> list_all printable (sep_concat bs)"
  by (induction bs rule: sep_concat.induct) simp_all

lemma print_cval_printable: "wf_cval c \<Longrightarrow> list_all printable (print_cval c)"
proof (induction c)
  case (CInt i)
  have "int_byte b \<Longrightarrow> printable b" for b
    by (auto simp: int_byte_def intro: order_trans [of _ "48 :: byte"])
  with show_int_bytes [of i] show ?case by (auto simp: list_all_iff)
next
  case (CArr cs)
  then have "list_all (list_all printable) (map print_cval cs)" by (auto simp: list_all_iff)
  then show ?case by (simp add: sep_concat_printable)
next
  case (CObj ms)
  then have "list_all (list_all printable) (map print_member ms)"
    using write_string_printable by (fastforce simp: list_all_iff print_member_def)
  then show ?case by (simp add: print_cval_CObj sep_concat_printable del: print_cval.simps)
qed (simp_all add: blit_def write_string_printable)

lemma to_jcs_bytes_printable: "wf_json v \<Longrightarrow> to_jcs_bytes v = Inr b \<Longrightarrow> list_all printable b"
  using canon_wf(1) print_cval_printable by (auto simp: to_jcs_bytes_Inr)

section \<open>Which values have canonical bytes\<close>

fun numbers :: "json \<Rightarrow> number list" where
  "numbers (Number n) = [n]"
| "numbers (Array vs) = concat (map numbers vs)"
| "numbers (Object kvs) = concat (map (\<lambda>p. numbers (snd p)) kvs)"
| "numbers _ = []"

abbreviation unsafe :: "number \<Rightarrow> bool" where
  "unsafe n \<equiv> safe_int n = None"

definition refused :: "number list \<Rightarrow> 'a result \<Rightarrow> bool" where
  "refused ns r = (case r of Inr x \<Rightarrow> \<not> list_ex unsafe ns
     | Inl e \<Rightarrow> list_ex (\<lambda>n. unsafe n \<and> e = UnsafeNumber n) ns)"

lemma refused_rbind:
  "refused ms r \<Longrightarrow> (\<And>x. r = Inr x \<Longrightarrow> refused ns (f x)) \<Longrightarrow> refused (ms @ ns) (rbind r f)"
  by (cases r) (force simp: refused_def split: sum.splits)+

lemma refused_rbind_Inr: "refused ns r \<Longrightarrow> refused ns (rbind r (\<lambda>x. Inr (f x)))"
  using refused_rbind [of ns r "[]" "\<lambda>x. Inr (f x)"] by (simp add: refused_def)

lemma refused_set: "refused ms r \<Longrightarrow> set ms = set ns \<Longrightarrow> refused ns r"
  by (simp add: refused_def list_ex_iff split: sum.splits)

lemma canon_refused:
  "refused (numbers v) (canon v)"
  "refused (concat (map numbers vs)) (canon_items vs)"
  "refused (concat (map (\<lambda>p. numbers (snd p)) kvs)) (canon_members kvs)"
proof (induction v and vs and kvs rule: canon_canon_items_canon_members.induct)
  case (3 n)
  then show ?case by (simp add: refused_def  split: option.splits)
next
  case (6 kvs)
  then have "refused (numbers (Object kvs)) (canon_members (sort_key member_order kvs))"
    by (rule refused_set) simp
  then show ?case by (simp add: refused_rbind_Inr)
next
  case (8 v vs)
  then show ?case by (auto intro!: refused_rbind refused_rbind_Inr)
next
  case (10 k v kvs)
  then show ?case by (auto intro!: refused_rbind refused_rbind_Inr)
qed (auto simp: refused_rbind_Inr, auto simp: refused_def)

lemma to_jcs_bytes_refused: "refused (numbers v) (to_jcs_bytes v)"
  by (simp add: to_jcs_bytes_def write_refines_canon refused_rbind_Inr canon_refused)

lemma to_jcs_bytes_ok: "is_ok (to_jcs_bytes v) \<longleftrightarrow> \<not> list_ex unsafe (numbers v)"
  using to_jcs_bytes_refused [of v] by (fastforce simp: refused_def list_ex_iff split: sum.splits)

section \<open>Properties\<close>

text \<open>
  C35: Canonical encoding fails exactly on values that hold a number which is not an integer of
  magnitude at most \<open>2 ^ 53 - 1\<close>, at any depth, and the error names such a number. Every
  other value has canonical bytes.
\<close>

theorem to_jcs_bytes_total:
  "case to_jcs_bytes v of
     Inr bytes \<Rightarrow> \<not> list_ex unsafe (numbers v)
   | Inl e \<Rightarrow> list_ex (\<lambda>n. safe_int n = None \<and> e = UnsafeNumber n) (numbers v)"
  using to_jcs_bytes_refused [of v] by (simp add: refused_def)

text \<open>
  C34: The canonical bytes stand for the canonical value and nothing else: another valid value
  has the same bytes exactly when it has the same canonical value, so different spellings of
  one value agree and no two different values are ever confused.
\<close>

theorem jcs_bytes_determine_value:
  assumes "wf_json v" "wf_json w" "to_jcs_bytes v = Inr b"
  shows "to_jcs_bytes w = Inr b \<longleftrightarrow> canon w = canon v"
  using assms to_jcs_bytes_canon [of v w b] by (auto simp: to_jcs_bytes_Inr)

theorem jcs_bytes_determine_value_witness:
  "to_jcs_bytes (Array [Number (Float 3)]) = Inr (blit ''[3]'') \<longleftrightarrow>
     canon (Array [Number (Float 3)]) = canon (Array [Number (PosInt 3)])"
proof (rule jcs_bytes_determine_value)
  show "to_jcs_bytes (Array [Number (PosInt 3)]) = Inr (blit ''[3]'')"
    by (simp add: to_jcs_bytes_Inr enc_simps)
qed (simp_all add: wf_number_def)

text \<open>
  The order in which the members of an object are stored does not matter to its canonical
  bytes, nor to whether it has any.
\<close>

theorem jcs_member_order_irrelevant:
  assumes "mset kvs = mset kvs'" and "wf_json (Object kvs)"
  shows "to_jcs_bytes (Object kvs) = to_jcs_bytes (Object kvs')"
  using write_value_perm [OF assms] by (simp only: to_jcs_bytes_def)

theorem jcs_member_order_irrelevant_witness:
  "to_jcs_bytes (Object [(lit ''b'', Null), (lit ''a'', Bool True)]) =
     to_jcs_bytes (Object [(lit ''a'', Bool True), (lit ''b'', Null)])"
  by (rule jcs_member_order_irrelevant) (simp_all add: lit_def is_char_def)

end
