(* ===== verification/Demo.thy ===== *)
theory Demo
  imports Hashing
begin

text \<open>
  A concrete instance of the external functions, on which the hypotheses of the theorems are
  shown to hold together. The digest is a polynomial checksum, cut to 32 bytes;
  identifiers and instants are decimal text; a signature is a digest of the key and the
  message. It makes no claim about the real primitives beyond the laws of \<open>Externals\<close>.
\<close>

fun le_bytes :: "nat \<Rightarrow> nat \<Rightarrow> bytes" where
  "le_bytes 0 v = []"
| "le_bytes (Suc n) v = of_nat (v mod 256) # le_bytes n (v div 256)"

definition demo_value :: "nat \<Rightarrow> bytes \<Rightarrow> nat" where
  "demo_value k bs = foldl (\<lambda>a b. a * k + unat b + 1) 0 bs"

definition demo_digest :: "nat \<Rightarrow> bytes \<Rightarrow> bytes" where
  "demo_digest k bs = le_bytes 32 (demo_value k bs)"

definition demo_number :: "ustr \<Rightarrow> ustr + nat" where
  "demo_number s =
     (if s \<noteq> [] \<and> list_all is_digit s then Inr (digits_val s) else Inl (lit ''not a number''))"

definition demo_sign :: "bytes \<Rightarrow> bytes \<Rightarrow> bytes" where
  "demo_sign sk m = demo_digest 257 (sk @ m) @ demo_digest 263 (sk @ m)"

definition demo_hex :: "ustr \<Rightarrow> ustr + bytes" where
  "demo_hex s = (case hex_decode ''pem'' s of Inl _ \<Rightarrow> Inl (lit ''bad pem'') | Inr b \<Rightarrow> Inr b)"

definition demo_ext :: ext where
  "demo_ext = \<lparr>
     x_blake3 = demo_digest 257,
     x_sha256 = demo_digest 263,
     x_ulid_parse = (\<lambda>s. map_sum id of_nat (demo_number s)),
     x_ulid_str = (\<lambda>u. dec_digits (unat u)),
     x_rfc3339 = (\<lambda>s. map_sum id int (demo_number s)),
     x_ed_public = id,
     x_ed_sign = demo_sign,
     x_ed_verify = (\<lambda>pk m s. s = demo_sign pk m),
     x_ed_key = Inr,
     x_spki_decode = demo_hex,
     x_spki_encode = (\<lambda>b. Inr (hex_encode b)),
     x_pkcs8_decode = demo_hex,
     x_pkcs8_encode = (\<lambda>b. Inr (hex_encode b))\<rparr>"

lemma length_le_bytes [simp]: "length (le_bytes n v) = n"
  by (induction n arbitrary: v) simp_all

lemma length_demo_digest [simp]: "length (demo_digest k bs) = 32"
  by (simp add: demo_digest_def)

lemma le_bytes_numeral:
  "le_bytes (numeral m) v = of_nat (v mod 256) # le_bytes (pred_numeral m) (v div 256)"
  unfolding numeral_eq_Suc [of m] by (rule le_bytes.simps)

lemma demo_ext_simps [simp]:
  "x_blake3 demo_ext = demo_digest 257"
  "x_sha256 demo_ext = demo_digest 263"
  "x_ulid_parse demo_ext s = map_sum id of_nat (demo_number s)"
  "x_ulid_str demo_ext u = dec_digits (unat u)"
  "x_rfc3339 demo_ext s = map_sum id int (demo_number s)"
  "x_ed_public demo_ext k = k"
  "x_ed_sign demo_ext = demo_sign"
  "x_ed_verify demo_ext k m sig \<longleftrightarrow> sig = demo_sign k m"
  "x_ed_key demo_ext k = Inr k"
  by (simp_all add: demo_ext_def)

text \<open>
  The same functions with a digest that keeps its whole input, so that no two inputs collide.
\<close>

definition wide_ext :: ext where
  "wide_ext = demo_ext\<lparr>x_blake3 := (\<lambda>b. b)\<rparr>"

lemma wide_ext_simps [simp]:
  "x_blake3 wide_ext b = b"
  "x_ulid_parse wide_ext s = map_sum id of_nat (demo_number s)"
  "x_ulid_str wide_ext u = dec_digits (unat u)"
  "x_rfc3339 wide_ext s = map_sum id int (demo_number s)"
  by (simp_all add: wide_ext_def demo_ext_def)

lemma wide_distinguishes [simp]: "blake3_distinguishes wide_ext A"
  by (simp add: blake3_distinguishes_def inj_on_def)

lemma digits_valid: "list_all is_digit s \<Longrightarrow> is_ustr s"
  by (auto simp: list_all_iff is_char_def)

lemma demo_number_dec_digits [simp]: "demo_number (dec_digits n) = Inr n"
  using dec_digits_digits [of n] by (simp add: demo_number_def)

lemma demo_digest32: "digest32 demo_ext"
  by (simp add: digest32_def)

lemma demo_ulid_law: "ulid_law demo_ext"
  by (simp add: ulid_law_def digits_valid dec_digits_digits)

lemma wide_ulid_law: "ulid_law wide_ext"
  by (simp add: ulid_law_def digits_valid dec_digits_digits)

lemma demo_ed25519_law: "ed25519_law demo_ext"
  by (simp add: ed25519_law_def demo_sign_def)

lemma demo_ed25519_key_law: "ed25519_key_law demo_ext"
  by (simp add: ed25519_key_law_def)

lemma replicate_numeral: "replicate (numeral m) x = x # replicate (pred_numeral m) x"
  unfolding numeral_eq_Suc [of m] by (rule replicate.simps)

lemmas demo_eval = replicate_numeral enc_simps demo_digest_def demo_value_def le_bytes_numeral demo_number_def
  digits_val_def

end
