(* ===== verification/Records.thy ===== *)
theory Records
  imports Jcs Demo
begin

text \<open>
  Evidence records (\<open>evidence/src/record.rs\<close>): the schema of version 1, the JSON value that
  the derived \<open>Serialize\<close> gives for a record, the sentinels that open a stream or a broken
  segment, and the record hash. The theorems show that the hash covers everything but itself
  and that a record's line in the spool holds no other line feed.
\<close>

section \<open>Constants and sentinels\<close>

definition SCHEMA_VERSION :: ustr where
  "SCHEMA_VERSION = lit ''1''"

definition GENESIS_PREFIX :: ustr where
  "GENESIS_PREFIX = lit ''SEALR-GENESIS''"

definition SEGMENT_BREAK_PREFIX :: ustr where
  "SEGMENT_BREAK_PREFIX = lit ''SEALR-SEGMENT-BREAK''"

definition genesis_prev_hash :: "'x ext_scheme \<Rightarrow> u128 \<Rightarrow> ustr" where
  "genesis_prev_hash X stream_id =
     blake3_hex X (str_bytes GENESIS_PREFIX @ str_bytes (x_ulid_str X stream_id))"

definition segment_break_prev_hash :: "'x ext_scheme \<Rightarrow> u128 \<Rightarrow> u128 \<Rightarrow> ustr" where
  "segment_break_prev_hash X stream_id segment_id =
     blake3_hex X (str_bytes SEGMENT_BREAK_PREFIX @ str_bytes (x_ulid_str X stream_id)
       @ str_bytes (x_ulid_str X segment_id))"

section \<open>Schema\<close>

datatype RecordType =
    Operation | Outcome | Approval | PolicyEvent | Lifecycle | CoverageGap | GuardError
  | SpoolShed | ClockAnomaly | GenericExec

datatype Attribution = Attributed | Inferred | Unattributed

datatype Decision = Allow | Warn | RequireApproval | Block

datatype RiskClass = Low | Medium | High | Critical

datatype Mode = Observe | Enforce

text \<open>Decisions and risk classes derive \<open>Ord\<close>: declaration order.\<close>

fun decision_rank :: "Decision \<Rightarrow> nat" where
  "decision_rank Allow = 0"
| "decision_rank Warn = 1"
| "decision_rank RequireApproval = 2"
| "decision_rank Block = 3"

instantiation Decision :: linorder
begin

definition less_eq_Decision :: "Decision \<Rightarrow> Decision \<Rightarrow> bool" where
  "less_eq_Decision a b \<longleftrightarrow> decision_rank a \<le> decision_rank b"

definition less_Decision :: "Decision \<Rightarrow> Decision \<Rightarrow> bool" where
  "less_Decision a b \<longleftrightarrow> decision_rank a < decision_rank b"

instance
proof
  show "a = b" if "a \<le> b" "b \<le> a" for a b :: Decision
    using that by (cases a; cases b) (simp_all add: less_eq_Decision_def)
qed (auto simp: less_eq_Decision_def less_Decision_def)

end

fun risk_rank :: "RiskClass \<Rightarrow> nat" where
  "risk_rank Low = 0"
| "risk_rank Medium = 1"
| "risk_rank High = 2"
| "risk_rank Critical = 3"

instantiation RiskClass :: linorder
begin

definition less_eq_RiskClass :: "RiskClass \<Rightarrow> RiskClass \<Rightarrow> bool" where
  "less_eq_RiskClass a b \<longleftrightarrow> risk_rank a \<le> risk_rank b"

definition less_RiskClass :: "RiskClass \<Rightarrow> RiskClass \<Rightarrow> bool" where
  "less_RiskClass a b \<longleftrightarrow> risk_rank a < risk_rank b"

instance
proof
  show "a = b" if "a \<le> b" "b \<le> a" for a b :: RiskClass
    using that by (cases a; cases b) (simp_all add: less_eq_RiskClass_def)
qed (auto simp: less_eq_RiskClass_def less_RiskClass_def)

end

record RecorderInfo =
  ri_recorder_id :: ustr
  ri_version :: ustr
  ri_host_fingerprint :: ustr
  ri_platform :: ustr

record Subject =
  su_agent_kind :: ustr
  su_agent_session :: ustr
  su_human_principal :: "ustr option"
  su_attribution :: Attribution
  su_source :: ustr

record Action =
  ac_integration :: ustr
  ac_operation :: ustr
  ac_verb_class :: ustr
  ac_target_resource :: ustr
  ac_resource_labels :: "ustr list"

record PayloadCommitment =
  pc_alg :: ustr
  pc_commitment :: ustr

record PayloadRef =
  pr_vault_url :: ustr
  pr_enc :: ustr
  pr_key_ref :: ustr

record GuardRef =
  gr_name :: ustr
  gr_version :: ustr

record Verdict =
  ve_decision :: Decision
  ve_mode :: Mode
  ve_risk_class :: RiskClass
  ve_policy_version :: u64
  ve_rule_ids :: "ustr list"
  ve_reason_codes :: "ustr list"
  ve_guard :: GuardRef
  ve_eval_ms :: u64

record ApprovalRef =
  ar_approval_record_id :: ustr

record Links =
  ln_request_record_id :: "ustr option"

record Record =
  r_schema_version :: ustr
  r_record_id :: ustr
  r_stream_id :: ustr
  r_segment_id :: ustr
  r_seq :: u64
  r_ts_wall :: ustr
  r_ts_mono_ns :: u64
  r_record_type :: RecordType
  r_recorder :: RecorderInfo
  r_subject :: Subject
  r_action :: Action
  r_action_detail :: "json option"
  r_payload_commitment :: "PayloadCommitment option"
  r_payload_ref :: "PayloadRef option"
  r_verdict :: "Verdict option"
  r_approval_ref :: "ApprovalRef option"
  r_links :: "Links option"
  r_prev_hash :: ustr
  r_record_hash :: ustr

section \<open>Serialization\<close>

text \<open>
  The values of the derived \<open>Serialize\<close> instances: fields in declaration order, renamed enum
  variants, \<open>skip_serializing_if\<close> on absent options and on empty lists.
\<close>

definition fld :: "string \<Rightarrow> json \<Rightarrow> (ustr \<times> json) list" where
  "fld k v = [(lit k, v)]"

definition opt_fld :: "string \<Rightarrow> json option \<Rightarrow> (ustr \<times> json) list" where
  "opt_fld k m = (case m of None \<Rightarrow> [] | Some v \<Rightarrow> [(lit k, v)])"

definition str_list :: "ustr list \<Rightarrow> json" where
  "str_list ss = Array (map String ss)"

definition list_fld :: "string \<Rightarrow> ustr list \<Rightarrow> (ustr \<times> json) list" where
  "list_fld k ss = (if ss = [] then [] else [(lit k, str_list ss)])"

abbreviation U64 :: "u64 \<Rightarrow> json" where
  "U64 n \<equiv> Number (PosInt n)"

fun record_type_str :: "RecordType \<Rightarrow> ustr" where
  "record_type_str Operation = lit ''operation''"
| "record_type_str Outcome = lit ''outcome''"
| "record_type_str Approval = lit ''approval''"
| "record_type_str PolicyEvent = lit ''policy_event''"
| "record_type_str Lifecycle = lit ''lifecycle''"
| "record_type_str CoverageGap = lit ''coverage_gap''"
| "record_type_str GuardError = lit ''guard_error''"
| "record_type_str SpoolShed = lit ''spool_shed''"
| "record_type_str ClockAnomaly = lit ''clock_anomaly''"
| "record_type_str GenericExec = lit ''generic_exec''"

fun attribution_str :: "Attribution \<Rightarrow> ustr" where
  "attribution_str Attributed = lit ''attributed''"
| "attribution_str Inferred = lit ''inferred''"
| "attribution_str Unattributed = lit ''unattributed''"

fun decision_str :: "Decision \<Rightarrow> ustr" where
  "decision_str Allow = lit ''ALLOW''"
| "decision_str Warn = lit ''WARN''"
| "decision_str RequireApproval = lit ''REQUIRE_APPROVAL''"
| "decision_str Block = lit ''BLOCK''"

fun risk_class_str :: "RiskClass \<Rightarrow> ustr" where
  "risk_class_str Low = lit ''LOW''"
| "risk_class_str Medium = lit ''MEDIUM''"
| "risk_class_str High = lit ''HIGH''"
| "risk_class_str Critical = lit ''CRITICAL''"

fun mode_str :: "Mode \<Rightarrow> ustr" where
  "mode_str Observe = lit ''observe''"
| "mode_str Enforce = lit ''enforce''"

definition recorder_info_json :: "RecorderInfo \<Rightarrow> json" where
  "recorder_info_json r = Object
     (fld ''recorder_id'' (String (ri_recorder_id r)) @
      fld ''version'' (String (ri_version r)) @
      fld ''host_fingerprint'' (String (ri_host_fingerprint r)) @
      fld ''platform'' (String (ri_platform r)))"

definition subject_json :: "Subject \<Rightarrow> json" where
  "subject_json s = Object
     (fld ''agent_kind'' (String (su_agent_kind s)) @
      fld ''agent_session'' (String (su_agent_session s)) @
      opt_fld ''human_principal'' (map_option String (su_human_principal s)) @
      fld ''attribution'' (String (attribution_str (su_attribution s))) @
      fld ''source'' (String (su_source s)))"

definition action_json :: "Action \<Rightarrow> json" where
  "action_json a = Object
     (fld ''integration'' (String (ac_integration a)) @
      fld ''operation'' (String (ac_operation a)) @
      fld ''verb_class'' (String (ac_verb_class a)) @
      fld ''target_resource'' (String (ac_target_resource a)) @
      list_fld ''resource_labels'' (ac_resource_labels a))"

definition payload_commitment_json :: "PayloadCommitment \<Rightarrow> json" where
  "payload_commitment_json p = Object
     (fld ''alg'' (String (pc_alg p)) @ fld ''commitment'' (String (pc_commitment p)))"

definition payload_ref_json :: "PayloadRef \<Rightarrow> json" where
  "payload_ref_json p = Object
     (fld ''vault_url'' (String (pr_vault_url p)) @
      fld ''enc'' (String (pr_enc p)) @
      fld ''key_ref'' (String (pr_key_ref p)))"

definition guard_ref_json :: "GuardRef \<Rightarrow> json" where
  "guard_ref_json g = Object
     (fld ''name'' (String (gr_name g)) @ fld ''version'' (String (gr_version g)))"

definition verdict_json :: "Verdict \<Rightarrow> json" where
  "verdict_json v = Object
     (fld ''decision'' (String (decision_str (ve_decision v))) @
      fld ''mode'' (String (mode_str (ve_mode v))) @
      fld ''risk_class'' (String (risk_class_str (ve_risk_class v))) @
      fld ''policy_version'' (U64 (ve_policy_version v)) @
      list_fld ''rule_ids'' (ve_rule_ids v) @
      list_fld ''reason_codes'' (ve_reason_codes v) @
      fld ''guard'' (guard_ref_json (ve_guard v)) @
      fld ''eval_ms'' (U64 (ve_eval_ms v)))"

definition approval_ref_json :: "ApprovalRef \<Rightarrow> json" where
  "approval_ref_json a =
     Object (fld ''approval_record_id'' (String (ar_approval_record_id a)))"

definition links_json :: "Links \<Rightarrow> json" where
  "links_json l =
     Object (opt_fld ''request_record_id'' (map_option String (ln_request_record_id l)))"

definition record_members :: "Record \<Rightarrow> (ustr \<times> json) list" where
  "record_members r =
     fld ''schema_version'' (String (r_schema_version r)) @
     fld ''record_id'' (String (r_record_id r)) @
     fld ''stream_id'' (String (r_stream_id r)) @
     fld ''segment_id'' (String (r_segment_id r)) @
     fld ''seq'' (U64 (r_seq r)) @
     fld ''ts_wall'' (String (r_ts_wall r)) @
     fld ''ts_mono_ns'' (U64 (r_ts_mono_ns r)) @
     fld ''record_type'' (String (record_type_str (r_record_type r))) @
     fld ''recorder'' (recorder_info_json (r_recorder r)) @
     fld ''subject'' (subject_json (r_subject r)) @
     fld ''action'' (action_json (r_action r)) @
     opt_fld ''action_detail'' (r_action_detail r) @
     opt_fld ''payload_commitment'' (map_option payload_commitment_json (r_payload_commitment r)) @
     opt_fld ''payload_ref'' (map_option payload_ref_json (r_payload_ref r)) @
     opt_fld ''verdict'' (map_option verdict_json (r_verdict r)) @
     opt_fld ''approval_ref'' (map_option approval_ref_json (r_approval_ref r)) @
     opt_fld ''links'' (map_option links_json (r_links r)) @
     fld ''prev_hash'' (String (r_prev_hash r)) @
     fld ''record_hash'' (String (r_record_hash r))"

definition record_to_json :: "Record \<Rightarrow> json" where
  "record_to_json r = Object (record_members r)"

section \<open>Hashing\<close>

definition compute_hash_of_value :: "'x ext_scheme \<Rightarrow> json \<Rightarrow> ustr result" where
  "compute_hash_of_value X v =
     rbind (ok_or (as_object v) (Schema [T ''record must be a JSON object''])) (\<lambda>obj.
     rbind (to_jcs_bytes (Object (remove_member (lit ''record_hash'') obj))) (\<lambda>bytes.
     Inr (blake3_hex X bytes)))"

definition compute_hash :: "'x ext_scheme \<Rightarrow> Record \<Rightarrow> ustr result" where
  "compute_hash X r = compute_hash_of_value X (record_to_json r)"

definition finalize :: "'x ext_scheme \<Rightarrow> Record \<Rightarrow> (Record \<times> ustr) result" where
  "finalize X r = rbind (compute_hash X r) (\<lambda>h. Inr (r\<lparr>r_record_hash := h\<rparr>, h))"

definition to_ndjson_line :: "Record \<Rightarrow> bytes result" where
  "to_ndjson_line r = rbind (to_jcs_bytes (record_to_json r)) (\<lambda>bytes. Inr (bytes @ [10]))"

section \<open>Wall-clock times\<close>

text \<open>A parsed time is an instant in nanoseconds since the Unix epoch.\<close>

definition parse_wall :: "'x ext_scheme \<Rightarrow> ustr \<Rightarrow> int result" where
  "parse_wall X s =
     (case x_rfc3339 X s of
        Inl e \<Rightarrow> Inl (Schema [T ''invalid ts_wall '', D s, T '': '', S e])
      | Inr t \<Rightarrow> Inr t)"

definition timestamp_millis :: "int \<Rightarrow> int" where
  "timestamp_millis t = t div 1000000"

section \<open>Literals and members\<close>

lemma lit_inj [simp]: "lit a = lit b \<longleftrightarrow> a = b"
  by (auto simp: lit_def inj_map_eq_map inj_of_char)

lemma is_ustr_lit [simp]: "is_ustr (lit a)"
proof -
  have "is_char (of_char c)" for c
  proof -
    have "(of_char c :: nat) \<le> 255" using nat_of_char_less_256 [of c] by linarith
    then show ?thesis unfolding is_char_def by linarith
  qed
  then show ?thesis by (simp add: lit_def list_all_iff)
qed

lemma map_of_flds [simp]:
  "map_of (fld k v) j = (if j = lit k then Some v else None)"
  "map_of (opt_fld k m) j = (if j = lit k then m else None)"
  "map_of (list_fld k ss) j = (if j = lit k \<and> ss \<noteq> [] then Some (str_list ss) else None)"
  by (auto simp: fld_def opt_fld_def list_fld_def split: option.splits)

definition or_else :: "'a option \<Rightarrow> 'a option \<Rightarrow> 'a option" where
  "or_else m n = (case m of None \<Rightarrow> n | Some x \<Rightarrow> Some x)"

lemma or_else_simps [simp]:
  "or_else None n = n" "or_else m None = m" "or_else (Some x) n = Some x"
  by (auto simp: or_else_def split: option.splits)

lemma lookup_append: "map_of (xs @ ys) k = or_else (map_of xs k) (map_of ys k)"
  by (auto simp: or_else_def map_add_def split: option.splits)

definition has_key :: "ustr \<Rightarrow> (ustr \<times> json) list \<Rightarrow> bool" where
  "has_key k kvs \<longleftrightarrow> k \<in> fst ` set kvs"

lemma has_key_flds [simp]:
  "\<not> has_key q []"
  "has_key (lit j) (fld k v) \<longleftrightarrow> j = k"
  "has_key (lit j) (opt_fld k m) \<longleftrightarrow> j = k \<and> m \<noteq> None"
  "has_key (lit j) (list_fld k ss) \<longleftrightarrow> j = k \<and> ss \<noteq> []"
  "has_key q (xs @ ys) \<longleftrightarrow> has_key q xs \<or> has_key q ys"
  by (auto simp: has_key_def fld_def opt_fld_def list_fld_def split: option.splits)

lemma distinct_flds [simp]:
  "distinct (map fst (fld k v))"
  "distinct (map fst (opt_fld k m))"
  "distinct (map fst (list_fld k ss))"
  by (auto simp: fld_def opt_fld_def list_fld_def split: option.splits)

lemma distinct_flds_append:
  "distinct (map fst (fld k v @ rest)) \<longleftrightarrow> \<not> has_key (lit k) rest \<and> distinct (map fst rest)"
  "distinct (map fst (opt_fld k m @ rest)) \<longleftrightarrow>
     (m \<noteq> None \<longrightarrow> \<not> has_key (lit k) rest) \<and> distinct (map fst rest)"
  "distinct (map fst (list_fld k ss @ rest)) \<longleftrightarrow>
     (ss \<noteq> [] \<longrightarrow> \<not> has_key (lit k) rest) \<and> distinct (map fst rest)"
  by (auto simp: has_key_def fld_def opt_fld_def list_fld_def split: option.splits)

lemma remove_member_flds [simp]:
  "remove_member (lit j) (fld k v) = (if j = k then [] else fld k v)"
  "remove_member (lit j) (opt_fld k m) = (if j = k then [] else opt_fld k m)"
  "remove_member q (xs @ ys) = remove_member q xs @ remove_member q ys"
  by (auto simp: remove_member_def fld_def opt_fld_def split: option.splits)

abbreviation wf_members :: "(ustr \<times> json) list \<Rightarrow> bool" where
  "wf_members kvs \<equiv> list_all (\<lambda>p. is_ustr (fst p) \<and> wf_json (snd p)) kvs"

lemma wf_members_flds [simp]:
  "wf_members (fld k v) \<longleftrightarrow> wf_json v"
  "wf_members (opt_fld k m) \<longleftrightarrow> (case m of None \<Rightarrow> True | Some v \<Rightarrow> wf_json v)"
  "wf_members (list_fld k ss) \<longleftrightarrow> list_all is_ustr ss"
  using is_ustr_lit [of k]
  by (auto simp: fld_def opt_fld_def list_fld_def str_list_def list_all_iff split: option.splits)

lemma wf_number_PosInt [simp]: "wf_number (PosInt n)"
  by (simp add: wf_number_def)

section \<open>Well-formed records\<close>

definition wf_record :: "Record \<Rightarrow> bool" where
  "wf_record r \<longleftrightarrow> wf_json (record_to_json r)"

lemma distinct_record_members: "distinct (map fst (record_members r))"
  unfolding record_members_def by (simp add: distinct_flds_append del: map_append)

lemma strs_valid [simp]:
  "is_ustr (record_type_str t)" "is_ustr (attribution_str a)" "is_ustr (decision_str d)"
  "is_ustr (risk_class_str c)" "is_ustr (mode_str m)"
  by (cases t; simp; fail) (cases a; simp; fail | cases d; simp; fail | cases c; simp; fail | cases m; simp; fail)+

definition record_content :: "Record \<Rightarrow> (ustr \<times> json) list" where
  "record_content r = remove_member (lit ''record_hash'') (record_members r)"

lemma record_content_hash [simp]:
  "record_content (r\<lparr>r_record_hash := h\<rparr>) = record_content r"
  by (simp add: record_content_def record_members_def)


lemma remove_record_hash: "remove_member (lit ''record_hash'') (record_members r) = record_content r"
  by (simp add: record_content_def)

lemma compute_hash_content:
  "compute_hash X r =
     rbind (to_jcs_bytes (Object (record_content r))) (\<lambda>bytes. Inr (blake3_hex X bytes))"
  by (simp add: compute_hash_def compute_hash_of_value_def record_to_json_def record_content_def)

lemma wf_remove_member: "wf_json (Object kvs) \<Longrightarrow> wf_json (Object (remove_member k kvs))"
  by (auto simp: remove_member_def distinct_map_filter list_all_iff)

section \<open>Canonical content determines the members\<close>

lemma canon_members_map_of:
  "canon_members kvs = Inr ms \<Longrightarrow> map_of ms k = map_option (\<lambda>v. projr (canon v)) (map_of kvs k)
     \<and> (\<forall>v. map_of kvs k = Some v \<longrightarrow> is_ok (canon v))"
  by (induction kvs arbitrary: ms) (auto simp: rbind_eq_Inr)

lemma map_of_sort_key:
  assumes "distinct (map fst kvs)"
  shows "map_of (sort_key f kvs) = map_of kvs"
proof -
  have "mset (map fst (sort_key f kvs)) = mset (map fst kvs)" by simp
  then have "distinct (map fst (sort_key f kvs))" using assms mset_eq_imp_distinct_iff by blast
  with assms show ?thesis by (simp add: map_of_inject_set)
qed

lemma canon_object_eq:
  assumes "wf_json (Object a)" "wf_json (Object b)" "canon (Object a) = canon (Object b)"
    and ok: "is_ok (canon (Object a))"
    and "map_of a k = Some v"
  shows "\<exists>w. map_of b k = Some w \<and> canon v = canon w"
proof -
  from ok obtain ms where a: "canon_members (sort_key member_order a) = Inr ms"
    by (auto simp: is_ok_iff rbind_eq_Inr)
  with assms(3) have b: "canon_members (sort_key member_order b) = Inr ms"
    by (auto simp: rbind_eq_Inr dest: sym)
  note ma = canon_members_map_of [OF a, of k] and mb = canon_members_map_of [OF b, of k]
  have "map_of (sort_key member_order a) = map_of a" "map_of (sort_key member_order b) = map_of b"
    using assms(1,2) by (simp_all add: map_of_sort_key)
  with ma mb assms(5) obtain w where "map_of b k = Some w" "projr (canon v) = projr (canon w)"
    "is_ok (canon v)" "is_ok (canon w)" by fastforce
  then show ?thesis by (auto simp: is_ok_iff)
qed

lemma canon_String [simp]: "canon v = Inr (CStr s) \<longleftrightarrow> v = String s"
  by (cases v) (auto simp: rbind_eq_Inr split: option.splits)

lemma as_str_canon: "as_str v = Some s \<Longrightarrow> canon v = canon w \<Longrightarrow> as_str w = Some s"
  by (cases v) (auto dest: sym)

lemma as_u64_Some: "as_u64 v = Some m \<longleftrightarrow> v = U64 m"
  by (cases v rule: as_u64.cases) (auto elim: number_as_u64.elims)

lemma as_u64_canon:
  "as_u64 v = Some m \<Longrightarrow> as_u64 w = Some n \<Longrightarrow> canon v = canon w \<Longrightarrow> is_ok (canon v) \<Longrightarrow> m = n"
  by (auto simp: as_u64_Some word_uint_eq_iff split: if_splits)

section \<open>A record's content determines the record\<close>

text \<open>
  \<open>same_canon\<close> is what equality of canonical bytes says about two values. On the objects that
  the serializer builds it goes member by member, so each struct can be read back.
\<close>

definition same_canon :: "json \<Rightarrow> json \<Rightarrow> bool" where
  "same_canon v w \<longleftrightarrow> wf_json v \<and> wf_json w \<and> is_ok (canon v) \<and> canon v = canon w"

lemma same_canon_sym: "same_canon v w \<Longrightarrow> same_canon w v"
  by (auto simp: same_canon_def)

lemma same_canon_String [simp]: "same_canon (String s) (String t) \<longleftrightarrow> is_ustr s \<and> s = t"
  by (auto simp: same_canon_def)

lemma same_canon_U64: "same_canon (U64 m) (U64 n) \<Longrightarrow> m = n"
  by (auto simp: same_canon_def split: if_splits simp: word_uint_eq_iff)

lemma canon_items_Strings: "canon_items (map String ss) = Inr (map CStr ss)"
  by (induction ss) simp_all

lemma same_canon_str_list: "same_canon (str_list ss) (str_list ts) \<Longrightarrow> ss = ts"
  by (auto simp: same_canon_def str_list_def canon_items_Strings)
    (metis cval.inject(3) injI list.inj_map_strong)

lemma canon_ok_member:
  assumes "is_ok (canon (Object a))" "wf_json (Object a)" "map_of a k = Some v"
  shows "is_ok (canon v) \<and> wf_json v"
proof -
  from assms(1) obtain ms where "canon_members (sort_key member_order a) = Inr ms"
    by (auto simp: is_ok_iff rbind_eq_Inr)
  moreover have "map_of (sort_key member_order a) = map_of a"
    using assms(2) by (simp add: map_of_sort_key)
  moreover have "(k, v) \<in> set a" using assms(3) by (rule map_of_SomeD)
  ultimately show ?thesis
    using canon_members_map_of [of "sort_key member_order a" ms k] assms(2,3)
    by (auto simp: list_all_iff)
qed

lemma same_canon_get:
  assumes "same_canon (Object a) (Object b)" and "map_of a k = Some v"
  shows "\<exists>w. map_of b k = Some w \<and> same_canon v w"
  using assms canon_object_eq [of a b k v] canon_ok_member [of a k v] canon_ok_member [of b k]
  unfolding same_canon_def by metis

lemma same_canon_members:
  assumes "same_canon (Object a) (Object b)"
  shows "rel_option same_canon (map_of a k) (map_of b k)"
proof (cases "map_of a k")
  case None
  then have "map_of b k = None"
    using same_canon_get [OF same_canon_sym [OF assms], of k] by (cases "map_of b k") auto
  with None show ?thesis by simp
next
  case (Some v)
  with same_canon_get [OF assms Some] show ?thesis by auto
qed

lemma same_canon_opt:
  "rel_option same_canon (map_option f x) (map_option f y) \<Longrightarrow>
   (\<And>v w. same_canon (f v) (f w) \<Longrightarrow> v = w) \<Longrightarrow> x = y"
  by (cases x; cases y) auto

lemma same_canon_list:
  "rel_option same_canon (if ss \<noteq> [] then Some (str_list ss) else None)
     (if ts \<noteq> [] then Some (str_list ts) else None) \<Longrightarrow> ss = ts"
  by (auto split: if_splits dest: same_canon_str_list)

lemma strs_inj [simp]:
  "record_type_str s = record_type_str t \<longleftrightarrow> s = t"
  "attribution_str a = attribution_str b \<longleftrightarrow> a = b"
  "decision_str d = decision_str e \<longleftrightarrow> d = e"
  "risk_class_str q = risk_class_str r \<longleftrightarrow> q = r"
  "mode_str m = mode_str n \<longleftrightarrow> m = n"
  by (cases s; cases t; simp) (cases a; cases b; simp | cases d; cases e; simp
    | cases q; cases r; simp | cases m; cases n; simp)+

lemma recorder_info_json_inj: "same_canon (recorder_info_json a) (recorder_info_json b) \<Longrightarrow> a = b"
proof -
  assume "same_canon (recorder_info_json a) (recorder_info_json b)"
  note m = same_canon_members [OF this [unfolded recorder_info_json_def], unfolded lookup_append]
  show "a = b"
    using m [of "lit ''recorder_id''"]
      m [of "lit ''version''"]
      m [of "lit ''host_fingerprint''"]
      m [of "lit ''platform''"]
    by (intro RecorderInfo.equality) simp_all
qed

lemma subject_json_inj: "same_canon (subject_json a) (subject_json b) \<Longrightarrow> a = b"
proof -
  assume "same_canon (subject_json a) (subject_json b)"
  note m = same_canon_members [OF this [unfolded subject_json_def], unfolded lookup_append]
  have "su_human_principal a = su_human_principal b"
    using m [of "lit ''human_principal''"] by (intro same_canon_opt [where f = String]) simp_all
  then show "a = b"
    using m [of "lit ''agent_kind''"]
      m [of "lit ''agent_session''"]
      m [of "lit ''attribution''"]
      m [of "lit ''source''"]
    by (intro Subject.equality) simp_all
qed

lemma action_json_inj: "same_canon (action_json a) (action_json b) \<Longrightarrow> a = b"
proof -
  assume "same_canon (action_json a) (action_json b)"
  note m = same_canon_members [OF this [unfolded action_json_def], unfolded lookup_append]
  have "ac_resource_labels a = ac_resource_labels b"
    using m [of "lit ''resource_labels''"] by (intro same_canon_list) simp_all
  then show "a = b"
    using m [of "lit ''integration''"]
      m [of "lit ''operation''"]
      m [of "lit ''verb_class''"]
      m [of "lit ''target_resource''"]
    by (intro Action.equality) simp_all
qed

lemma payload_commitment_json_inj: "same_canon (payload_commitment_json a) (payload_commitment_json b) \<Longrightarrow> a = b"
proof -
  assume "same_canon (payload_commitment_json a) (payload_commitment_json b)"
  note m = same_canon_members [OF this [unfolded payload_commitment_json_def], unfolded lookup_append]
  show "a = b"
    using m [of "lit ''alg''"]
      m [of "lit ''commitment''"]
    by (intro PayloadCommitment.equality) simp_all
qed

lemma payload_ref_json_inj: "same_canon (payload_ref_json a) (payload_ref_json b) \<Longrightarrow> a = b"
proof -
  assume "same_canon (payload_ref_json a) (payload_ref_json b)"
  note m = same_canon_members [OF this [unfolded payload_ref_json_def], unfolded lookup_append]
  show "a = b"
    using m [of "lit ''vault_url''"]
      m [of "lit ''enc''"]
      m [of "lit ''key_ref''"]
    by (intro PayloadRef.equality) simp_all
qed

lemma guard_ref_json_inj: "same_canon (guard_ref_json a) (guard_ref_json b) \<Longrightarrow> a = b"
proof -
  assume "same_canon (guard_ref_json a) (guard_ref_json b)"
  note m = same_canon_members [OF this [unfolded guard_ref_json_def], unfolded lookup_append]
  show "a = b"
    using m [of "lit ''name''"]
      m [of "lit ''version''"]
    by (intro GuardRef.equality) simp_all
qed

lemma verdict_json_inj: "same_canon (verdict_json a) (verdict_json b) \<Longrightarrow> a = b"
proof -
  assume "same_canon (verdict_json a) (verdict_json b)"
  note m = same_canon_members [OF this [unfolded verdict_json_def], unfolded lookup_append]
  have "ve_rule_ids a = ve_rule_ids b"
    using m [of "lit ''rule_ids''"] by (intro same_canon_list) simp_all
  moreover have "ve_reason_codes a = ve_reason_codes b"
    using m [of "lit ''reason_codes''"] by (intro same_canon_list) simp_all
  ultimately show "a = b"
    using m [of "lit ''decision''"]
      m [of "lit ''mode''"]
      m [of "lit ''risk_class''"]
      m [of "lit ''policy_version''"]
      m [of "lit ''guard''"]
      m [of "lit ''eval_ms''"]
    by (intro Verdict.equality) (auto dest: same_canon_U64 guard_ref_json_inj)
qed

lemma approval_ref_json_inj: "same_canon (approval_ref_json a) (approval_ref_json b) \<Longrightarrow> a = b"
proof -
  assume "same_canon (approval_ref_json a) (approval_ref_json b)"
  note m = same_canon_members [OF this [unfolded approval_ref_json_def], unfolded lookup_append]
  show "a = b"
    using m [of "lit ''approval_record_id''"]
    by (intro ApprovalRef.equality) simp_all
qed

lemma links_json_inj: "same_canon (links_json a) (links_json b) \<Longrightarrow> a = b"
proof -
  assume "same_canon (links_json a) (links_json b)"
  note m = same_canon_members [OF this [unfolded links_json_def], unfolded lookup_append]
  have "ln_request_record_id a = ln_request_record_id b"
    using m [of "lit ''request_record_id''"] by (intro same_canon_opt [where f = String]) simp_all
  then show "a = b"
    by (intro Links.equality) simp_all
qed


lemmas part_json_inj = recorder_info_json_inj subject_json_inj action_json_inj
  payload_commitment_json_inj payload_ref_json_inj verdict_json_inj approval_ref_json_inj
  links_json_inj

definition same_detail :: "Record \<Rightarrow> Record \<Rightarrow> bool" where
  "same_detail a b = (case (r_action_detail a, r_action_detail b) of
     (None, None) \<Rightarrow> True | (Some v, Some w) \<Rightarrow> canon v = canon w | _ \<Rightarrow> False)"

lemma record_content_inj:
  assumes "same_canon (Object (record_content a)) (Object (record_content b))"
  shows "b = a\<lparr>r_action_detail := r_action_detail b, r_record_hash := r_record_hash b\<rparr>
    \<and> same_detail a b"
proof -
  note m = same_canon_members [OF assms [unfolded record_content_def record_members_def
    remove_member_flds], simplified lookup_append if_False char.inject list.inject, simplified]
  have opts: "r_payload_commitment a = r_payload_commitment b" "r_payload_ref a = r_payload_ref b"
    "r_verdict a = r_verdict b" "r_approval_ref a = r_approval_ref b" "r_links a = r_links b"
    using m [of "lit ''payload_commitment''"] m [of "lit ''payload_ref''"] m [of "lit ''verdict''"]
      m [of "lit ''approval_ref''"] m [of "lit ''links''"]
    by (simp_all add: same_canon_opt part_json_inj)
  have "same_detail a b"
    using m [of "lit ''action_detail''"]
    by (cases "r_action_detail a"; cases "r_action_detail b")
      (auto simp: same_detail_def same_canon_def)
  moreover have "b = a\<lparr>r_action_detail := r_action_detail b, r_record_hash := r_record_hash b\<rparr>"
    using opts m [of "lit ''schema_version''"] m [of "lit ''record_id''"] m [of "lit ''stream_id''"]
      m [of "lit ''segment_id''"] m [of "lit ''seq''"] m [of "lit ''ts_wall''"]
      m [of "lit ''ts_mono_ns''"] m [of "lit ''record_type''"] m [of "lit ''recorder''"]
      m [of "lit ''subject''"] m [of "lit ''action''"] m [of "lit ''prev_hash''"]
    by (intro Record.equality) (auto dest!: same_canon_U64 part_json_inj)
  ultimately show ?thesis by simp
qed

section \<open>What a record hash says\<close>

definition hash_input :: "json \<Rightarrow> bytes" where
  "hash_input v = (case as_object v of None \<Rightarrow> []
     | Some obj \<Rightarrow> (case to_jcs_bytes (Object (remove_member (lit ''record_hash'') obj)) of
          Inl e \<Rightarrow> [] | Inr bytes \<Rightarrow> bytes))"

lemma as_object_Some: "as_object v = Some kvs \<longleftrightarrow> v = Object kvs"
  by (cases v) auto

lemma compute_hash_of_value_Inr:
  "compute_hash_of_value X v = Inr h \<longleftrightarrow>
     (\<exists>kvs. v = Object kvs \<and>
        to_jcs_bytes (Object (remove_member (lit ''record_hash'') kvs)) = Inr (hash_input v) \<and>
        h = blake3_hex X (hash_input v))"
  by (auto simp: compute_hash_of_value_def hash_input_def rbind_eq_Inr as_object_Some)

lemma same_hash_same_canon:
  assumes "wf_json (Object a)" "wf_json (Object b)"
    and "compute_hash_of_value X (Object a) = Inr h" "compute_hash_of_value X (Object b) = Inr h"
    and "blake3_distinguishes X {hash_input (Object a), hash_input (Object b)}"
  shows "same_canon (Object (remove_member (lit ''record_hash'') a))
           (Object (remove_member (lit ''record_hash'') b))"
proof -
  from assms(3,4) have eq: "x_blake3 X (hash_input (Object a)) = x_blake3 X (hash_input (Object b))"
    by (auto simp: compute_hash_of_value_Inr)
  have "hash_input (Object a) = hash_input (Object b)"
    by (rule blake3_distinguishesD [OF assms(5) _ _ eq]) simp_all
  with assms(3,4) obtain bs
    where "to_jcs_bytes (Object (remove_member (lit ''record_hash'') a)) = Inr bs"
      and "to_jcs_bytes (Object (remove_member (lit ''record_hash'') b)) = Inr bs"
    by (auto simp: compute_hash_of_value_Inr)
  with to_jcs_bytes_canon [OF assms(1,2) [THEN wf_remove_member]] assms(1,2) show ?thesis
    by (auto simp: same_canon_def wf_remove_member to_jcs_bytes_Inr simp del: wf_json.simps)
qed

lemma finalize_Inr:
  "finalize X r = Inr (r', h) \<longleftrightarrow> compute_hash X r = Inr h \<and> r' = r\<lparr>r_record_hash := h\<rparr>"
  by (auto simp: finalize_def rbind_eq_Inr)

lemma compute_hash_update [simp]: "compute_hash X (r\<lparr>r_record_hash := h\<rparr>) = compute_hash X r"
  by (simp add: compute_hash_content)

section \<open>A concrete record\<close>

definition demo_record :: "json option \<Rightarrow> Record" where
  "demo_record detail = \<lparr>
     r_schema_version = SCHEMA_VERSION, r_record_id = lit ''7'', r_stream_id = lit ''5'',
     r_segment_id = lit ''6'', r_seq = 0, r_ts_wall = lit ''1000000000'', r_ts_mono_ns = 3,
     r_record_type = Operation,
     r_recorder = \<lparr>ri_recorder_id = lit ''r'', ri_version = lit ''1'',
       ri_host_fingerprint = lit ''h'', ri_platform = lit ''p''\<rparr>,
     r_subject = \<lparr>su_agent_kind = lit ''a'', su_agent_session = lit ''s'',
       su_human_principal = None, su_attribution = Attributed, su_source = lit ''x''\<rparr>,
     r_action = \<lparr>ac_integration = lit ''i'', ac_operation = lit ''o'', ac_verb_class = lit ''v'',
       ac_target_resource = lit ''t'', ac_resource_labels = [lit ''l'']\<rparr>,
     r_action_detail = detail, r_payload_commitment = None, r_payload_ref = None,
     r_verdict = None, r_approval_ref = None, r_links = None,
     r_prev_hash = lit ''p'', r_record_hash = []\<rparr>"

lemmas json_defs = record_members_def recorder_info_json_def subject_json_def action_json_def
  payload_commitment_json_def payload_ref_json_def verdict_json_def guard_ref_json_def
  approval_ref_json_def links_json_def str_list_def

lemma numbers_flds [simp]:
  "concat (map (\<lambda>p. numbers (snd p)) (fld k v)) = numbers v"
  "concat (map (\<lambda>p. numbers (snd p)) (opt_fld k m)) = (case m of None \<Rightarrow> [] | Some v \<Rightarrow> numbers v)"
  "concat (map (\<lambda>p. numbers (snd p)) (list_fld k ss)) = []"
  by (auto simp: fld_def opt_fld_def list_fld_def str_list_def split: option.splits)

lemma wf_demo_record: "wf_json (case d of None \<Rightarrow> Null | Some v \<Rightarrow> v) \<Longrightarrow> wf_record (demo_record d)"
  unfolding wf_record_def record_to_json_def wf_json.simps
  using distinct_record_members [of "demo_record d"]
  by (auto simp: demo_record_def json_defs SCHEMA_VERSION_def distinct_flds_append list_all_append
      simp del: map_append  split: option.splits)

lemma demo_record_ok:
  "\<not> list_ex unsafe (numbers (case d of None \<Rightarrow> Null | Some v \<Rightarrow> v)) \<Longrightarrow>
   is_ok (to_jcs_bytes (Object (record_content (demo_record d))))"
  by (simp add: to_jcs_bytes_ok record_content_def demo_record_def json_defs
    split: option.splits)


lemma demo_record_to_json_ok:
  "\<not> list_ex unsafe (numbers (case d of None \<Rightarrow> Null | Some v \<Rightarrow> v)) \<Longrightarrow>
   is_ok (to_jcs_bytes (record_to_json (demo_record d)))"
  by (simp add: to_jcs_bytes_ok record_to_json_def demo_record_def json_defs split: option.splits)

section \<open>Properties\<close>

text \<open>
  \<open>finalize\<close> stores the hash it returns in \<open>record_hash\<close> and changes nothing else, and the
  stored value is what recomputing the hash of the finished record gives: the hash does not
  depend on the field that holds it.
\<close>

theorem finalize_recomputes:
  assumes "finalize X r = Inr (r', h)"
  shows "r_record_hash r' = h \<and> compute_hash X r' = Inr h \<and>
    compute_hash_of_value X (record_to_json r') = Inr h \<and>
    r'\<lparr>r_record_hash := r_record_hash r\<rparr> = r"
  using assms by (auto simp: finalize_Inr compute_hash_def [symmetric])

theorem finalize_recomputes_witness:
  "\<exists>r h. finalize demo_ext (demo_record None) = Inr (r, h) \<and> r_record_hash r = h \<and>
     compute_hash demo_ext r = Inr h"
proof -
  from demo_record_ok [of None] obtain r h
    where "finalize demo_ext (demo_record None) = Inr (r, h)"
    by (auto simp: finalize_def compute_hash_content is_ok_iff)
  with finalize_recomputes [OF this] show ?thesis by blast
qed

text \<open>
  C17: The record hash is tamper evident. Two records of valid text with the same hash agree in
  every field of the schema but the hash itself, and their free-form details have the same
  canonical value, unless BLAKE3 collides on the two byte strings that were hashed.
\<close>

theorem record_hash_binds:
  assumes "wf_record a" "wf_record b"
    and "compute_hash X a = Inr h" "compute_hash X b = Inr h"
    and "blake3_distinguishes X {hash_input (record_to_json a), hash_input (record_to_json b)}"
  shows "b = a\<lparr>r_action_detail := r_action_detail b, r_record_hash := r_record_hash b\<rparr>
    \<and> same_detail a b"
  using same_hash_same_canon [of "record_members a" "record_members b" X h] assms
  by (intro record_content_inj)
    (simp add: wf_record_def compute_hash_def record_to_json_def record_content_def
      del: wf_json.simps)

theorem record_hash_binds_witness:
  "same_detail (demo_record (Some (Number (PosInt 3)))) (demo_record (Some (Number (Float 3))))"
proof -
  let ?a = "demo_record (Some (Number (PosInt 3)))" and ?b = "demo_record (Some (Number (Float 3)))"
  have "to_jcs_bytes (Object (record_content ?a)) = to_jcs_bytes (Object (record_content ?b))"
    by (simp add: to_jcs_bytes_def write_refines_canon demo_record_def record_content_def json_defs
      fld_def opt_fld_def list_fld_def remove_member_def enc_simps)
  then have eq: "compute_hash demo_ext ?a = compute_hash demo_ext ?b"
    "hash_input (record_to_json ?a) = hash_input (record_to_json ?b)"
    by (simp_all add: compute_hash_content hash_input_def record_to_json_def record_content_def)
  from demo_record_ok [of "Some (Number (PosInt 3))"] obtain h where h: "compute_hash demo_ext ?a = Inr h"
    by (auto simp: compute_hash_content is_ok_iff)
  have wf: "wf_record ?a" "wf_record ?b"
    by (rule wf_demo_record, simp add: wf_number_def)+
  have "blake3_distinguishes demo_ext {hash_input (record_to_json ?a), hash_input (record_to_json ?b)}"
    unfolding eq(2) blake3_distinguishes_def by (simp only: insert_absorb2 inj_on_empty inj_on_insert) blast
  from record_hash_binds [OF wf h h [unfolded eq(1)] this] show ?thesis ..
qed

text \<open>
  A line of the spool is the canonical bytes of the record followed by one line feed, and no
  other line feed occurs in it, so splitting a file at line feeds gives back the records.
\<close>

theorem ndjson_line_single:
  assumes "wf_record r" and "to_ndjson_line r = Inr line"
  shows "\<exists>bytes. to_jcs_bytes (record_to_json r) = Inr bytes \<and> line = bytes @ [10] \<and> 10 \<notin> set bytes"
proof -
  from assms(2) obtain bytes where b: "to_jcs_bytes (record_to_json r) = Inr bytes"
    and l: "line = bytes @ [10]" by (auto simp: to_ndjson_line_def rbind_eq_Inr)
  from to_jcs_bytes_printable [OF assms(1) [unfolded wf_record_def] b] have "10 \<notin> set bytes"
    by (auto simp: list_all_iff)
  with b l show ?thesis by blast
qed

theorem ndjson_line_single_witness:
  "\<exists>line. to_ndjson_line (demo_record None) = Inr line \<and> 10 \<notin> set (butlast line)"
proof -
  from demo_record_to_json_ok [of None] obtain line
    where l: "to_ndjson_line (demo_record None) = Inr line"
    by (auto simp: to_ndjson_line_def is_ok_iff)
  with ndjson_line_single [OF wf_demo_record l] show ?thesis by auto
qed

end
