(* ===== verification/Keys.thy ===== *)
theory Keys
  imports Records
begin

text \<open>
  Ed25519 keys and signatures over canonical JSON (\<open>evidence/src/keys.rs\<close>), and the contract of
  the documents that are signed with them. A key is its 32 bytes. Key generation
  and the \<open>Debug\<close> forms are in \<open>Secrets\<close>; the zeroizing of dropped secrets has no counterpart.

  Every signature of the program is over the BLAKE3 digest of the canonical bytes of a struct.
  The locale \<open>signed_document\<close> says what a struct must offer for that to be sound, and proves once
  that signing and verifying fit together and that a signed digest stands for one document only.
\<close>

section \<open>Keys\<close>

record SigningKey =
  sk_inner :: bytes

record VerifyingKey =
  vk_inner :: bytes

definition from_seed :: "bytes \<Rightarrow> SigningKey result" where
  "from_seed seed =
     (if length seed = 32 then Inr \<lparr>sk_inner = seed\<rparr>
      else Inl (Key [T ''seed must be 32 bytes'']))"

definition seed :: "SigningKey \<Rightarrow> bytes" where
  "seed key = sk_inner key"

definition to_pkcs8_pem :: "'x ext_scheme \<Rightarrow> SigningKey \<Rightarrow> ustr result" where
  "to_pkcs8_pem X key =
     (case x_pkcs8_encode X (sk_inner key) of
        Inl e \<Rightarrow> Inl (Key [T ''pkcs8 export: '', S e]) | Inr pem \<Rightarrow> Inr pem)"

definition from_pkcs8_pem :: "'x ext_scheme \<Rightarrow> ustr \<Rightarrow> SigningKey result" where
  "from_pkcs8_pem X pem =
     (case x_pkcs8_decode X pem of
        Inl e \<Rightarrow> Inl (Key [T ''pkcs8 import: '', S e]) | Inr b \<Rightarrow> Inr \<lparr>sk_inner = b\<rparr>)"

definition verifying_key :: "'x ext_scheme \<Rightarrow> SigningKey \<Rightarrow> VerifyingKey" where
  "verifying_key X key = \<lparr>vk_inner = x_ed_public X (sk_inner key)\<rparr>"

definition verifying_key_hex :: "'x ext_scheme \<Rightarrow> SigningKey \<Rightarrow> ustr" where
  "verifying_key_hex X key = hex_encode (x_ed_public X (sk_inner key))"

definition sign_digest :: "'x ext_scheme \<Rightarrow> SigningKey \<Rightarrow> bytes \<Rightarrow> ustr" where
  "sign_digest X key digest = hex_encode (x_ed_sign X (sk_inner key) digest)"

definition sign_jcs :: "'x ext_scheme \<Rightarrow> SigningKey \<Rightarrow> json \<Rightarrow> ustr result" where
  "sign_jcs X key value_json =
     rbind (to_jcs_bytes value_json) (\<lambda>bytes. Inr (sign_digest X key (blake3_raw X bytes)))"

definition sign_bytes :: "'x ext_scheme \<Rightarrow> SigningKey \<Rightarrow> bytes \<Rightarrow> ustr" where
  "sign_bytes X key bytes = sign_digest X key (blake3_raw X bytes)"

definition key_from_bytes :: "'x ext_scheme \<Rightarrow> bytes \<Rightarrow> VerifyingKey result" where
  "key_from_bytes X bytes =
     (if length bytes = 32
      then case x_ed_key X bytes of
             Inl e \<Rightarrow> Inl (Key [T ''invalid public key: '', S e]) | Inr k \<Rightarrow> Inr \<lparr>vk_inner = k\<rparr>
      else Inl (Key [T ''public key must be 32 bytes'']))"

definition key_from_hex :: "'x ext_scheme \<Rightarrow> ustr \<Rightarrow> VerifyingKey result" where
  "key_from_hex X hex_text = rbind (hex_decode ''public_key'' hex_text) (key_from_bytes X)"

definition from_spki_pem :: "'x ext_scheme \<Rightarrow> ustr \<Rightarrow> VerifyingKey result" where
  "from_spki_pem X pem =
     (case x_spki_decode X pem of
        Inl e \<Rightarrow> Inl (Key [T ''spki import: '', S e]) | Inr k \<Rightarrow> Inr \<lparr>vk_inner = k\<rparr>)"

definition to_spki_pem :: "'x ext_scheme \<Rightarrow> VerifyingKey \<Rightarrow> ustr result" where
  "to_spki_pem X key =
     (case x_spki_encode X (vk_inner key) of
        Inl e \<Rightarrow> Inl (Key [T ''spki export: '', S e]) | Inr pem \<Rightarrow> Inr pem)"

definition key_to_hex :: "VerifyingKey \<Rightarrow> ustr" where
  "key_to_hex key = hex_encode (vk_inner key)"

definition verify_digest ::
  "'x ext_scheme \<Rightarrow> VerifyingKey \<Rightarrow> bytes \<Rightarrow> ustr \<Rightarrow> msg \<Rightarrow> unit result" where
  "verify_digest X key digest signature_hex sig_context =
     rbind (hex_decode ''signature'' signature_hex) (\<lambda>sig_bytes.
       if length sig_bytes \<noteq> 64
       then Inl (SignatureInvalid (sig_context @ [T '': signature must be 64 bytes'']))
       else if x_ed_verify X (vk_inner key) digest sig_bytes then Inr ()
       else Inl (SignatureInvalid sig_context))"

definition verify_jcs ::
  "'x ext_scheme \<Rightarrow> VerifyingKey \<Rightarrow> json \<Rightarrow> ustr \<Rightarrow> msg \<Rightarrow> unit result" where
  "verify_jcs X key value_json signature_hex sig_context =
     rbind (to_jcs_bytes value_json) (\<lambda>bytes.
       verify_digest X key (blake3_raw X bytes) signature_hex sig_context)"

definition verify_bytes ::
  "'x ext_scheme \<Rightarrow> VerifyingKey \<Rightarrow> bytes \<Rightarrow> ustr \<Rightarrow> msg \<Rightarrow> unit result" where
  "verify_bytes X key bytes signature_hex sig_context =
     verify_digest X key (blake3_raw X bytes) signature_hex sig_context"

section \<open>Signing and verifying\<close>

lemma verify_digest_Inr:
  "verify_digest X key digest sig c = Inr u \<longleftrightarrow>
     (\<exists>s. hex_decode ''signature'' sig = Inr s \<and> length s = 64 \<and> x_ed_verify X (vk_inner key) digest s)"
  by (auto simp: verify_digest_def rbind_eq_Inr)

lemma verify_sign_digest:
  "ed25519_law X \<Longrightarrow> verify_digest X (verifying_key X key) digest (sign_digest X key digest) c = Inr ()"
  by (simp add: verify_digest_Inr sign_digest_def verifying_key_def ed25519_law_def)

lemma verify_sign_jcs:
  "ed25519_law X \<Longrightarrow> sign_jcs X key v = Inr sig \<Longrightarrow> verify_jcs X (verifying_key X key) v sig c = Inr ()"
  by (auto simp: sign_jcs_def verify_jcs_def rbind_eq_Inr verify_sign_digest)

lemma sign_jcs_ok: "is_ok (sign_jcs X key v) \<longleftrightarrow> is_ok (to_jcs_bytes v)"
  by (auto simp: sign_jcs_def is_ok_iff rbind_eq_Inr)

section \<open>Signed documents\<close>

text \<open>
  A struct that is signed: its JSON form, and the values whose text is valid. The form must be
  valid JSON and must determine the struct.
\<close>

definition doc_digest :: "'x ext_scheme \<Rightarrow> json \<Rightarrow> bytes result" where
  "doc_digest X v = rbind (to_jcs_bytes v) (\<lambda>bytes. Inr (blake3_raw X bytes))"

definition doc_input :: "json \<Rightarrow> bytes" where
  "doc_input v = (case to_jcs_bytes v of Inr bytes \<Rightarrow> bytes | Inl e \<Rightarrow> [])"

lemma doc_digest_Inr: "doc_digest X v = Inr d \<longleftrightarrow> is_ok (to_jcs_bytes v) \<and> d = x_blake3 X (doc_input v)"
  by (auto simp: doc_digest_def rbind_eq_Inr is_ok_iff doc_input_def blake3_raw_def)

lemma verify_jcs_Inr:
  "verify_jcs X key v sig c = Inr u \<longleftrightarrow> (\<exists>d s. doc_digest X v = Inr d \<and>
     hex_decode ''signature'' sig = Inr s \<and> length s = 64 \<and> x_ed_verify X (vk_inner key) d s)"
  by (auto simp: verify_jcs_def doc_digest_def rbind_eq_Inr verify_digest_Inr)

locale signed_document =
  fixes doc_json :: "'d \<Rightarrow> json"
    and valid_doc :: "'d \<Rightarrow> bool"
  assumes wf: "valid_doc d \<Longrightarrow> wf_json (doc_json d)"
    and json_inj: "same_canon (doc_json a) (doc_json b) \<Longrightarrow> a = b"
begin

lemma digest_binds:
  assumes "valid_doc a" "valid_doc b" "doc_digest X (doc_json a) = Inr d" "doc_digest X (doc_json b) = Inr d"
    and "blake3_distinguishes X {doc_input (doc_json a), doc_input (doc_json b)}"
  shows "a = b"
proof -
  from assms(3,4) have ok: "is_ok (to_jcs_bytes (doc_json a))" "is_ok (to_jcs_bytes (doc_json b))"
    and eq: "x_blake3 X (doc_input (doc_json a)) = x_blake3 X (doc_input (doc_json b))"
    by (auto simp: doc_digest_Inr)
  have "doc_input (doc_json a) = doc_input (doc_json b)"
    by (rule blake3_distinguishesD [OF assms(5) _ _ eq]) simp_all
  with ok obtain bs where bs: "to_jcs_bytes (doc_json a) = Inr bs" "to_jcs_bytes (doc_json b) = Inr bs"
    by (auto simp: is_ok_iff doc_input_def)
  have "same_canon (doc_json a) (doc_json b)"
    using to_jcs_bytes_canon [OF wf wf bs] assms(1,2) bs
    by (auto simp: same_canon_def wf to_jcs_bytes_Inr)
  then show ?thesis by (rule json_inj)
qed

end

section \<open>Properties\<close>

text \<open>
  Signatures round trip through the published key. For a key made from a seed, the
  hexadecimal form of its public key parses back to that key, and a signature over a structure
  verifies under it for the same structure.
\<close>

theorem sign_verify_roundtrip:
  assumes "ed25519_law X" "ed25519_key_law X" and "from_seed s = Inr key"
    and "sign_jcs X key v = Inr sig"
  shows "\<exists>vk. key_from_hex X (verifying_key_hex X key) = Inr vk \<and> verify_jcs X vk v sig c = Inr ()"
proof -
  from assms(2,3) have "key_from_hex X (verifying_key_hex X key) = Inr (verifying_key X key)"
    by (auto simp: from_seed_def key_from_hex_def verifying_key_hex_def key_from_bytes_def
      verifying_key_def ed25519_key_law_def split: if_splits)
  with verify_sign_jcs [OF assms(1,4)] show ?thesis by blast
qed

theorem sign_verify_roundtrip_witness:
  "\<exists>key sig vk. from_seed (replicate 32 7) = Inr key \<and>
     sign_jcs demo_ext key (Bool True) = Inr sig \<and>
     key_from_hex demo_ext (verifying_key_hex demo_ext key) = Inr vk \<and>
     verify_jcs demo_ext vk (Bool True) sig [] = Inr ()"
proof -
  obtain key where k: "from_seed (replicate 32 7) = Inr key" by (simp add: from_seed_def)
  obtain sig where s: "sign_jcs demo_ext key (Bool True) = Inr sig"
    by (simp add: sign_jcs_def to_jcs_bytes_def)
  from sign_verify_roundtrip [OF demo_ed25519_law demo_ed25519_key_law k s, of "[]"] k s
  show ?thesis by blast
qed

text \<open>
  Verification of a structure accepts exactly when the structure has canonical bytes, the
  signature is hexadecimal text of 64 bytes, and the Ed25519 library accepts it for the BLAKE3
  digest of those bytes. No other path returns success.
\<close>

theorem verify_jcs_accepts_iff:
  "verify_jcs X key v sig c = Inr () \<longleftrightarrow> (\<exists>bytes s. to_jcs_bytes v = Inr bytes \<and>
     hex_decode ''signature'' sig = Inr s \<and> length s = 64 \<and>
     x_ed_verify X (vk_inner key) (x_blake3 X bytes) s)"
  by (auto simp: verify_jcs_def rbind_eq_Inr verify_digest_Inr blake3_raw_def)

end
