(* ===== verification/Merkle.thy ===== *)
theory Merkle
  imports Demo
begin

text \<open>
  The RFC 6962-style Merkle tree (\<open>evidence/src/merkle.rs\<close>): tree shape, roots, audit paths and
  their verification. The theorems show that the tree splits at the largest power of two below
  its size, that every audit path verifies, that a path which verifies is the audit path of a
  leaf of the tree, and that the root determines the leaves.

  A digest is a list of 32 bytes. Sizes and indices are natural numbers: a slice has fewer than
  \<open>2 ^ 63\<close> elements, so the doubling in \<open>split_point\<close> stays below \<open>2 ^ 64\<close>.
\<close>

section \<open>Operations\<close>

definition LEAF_PREFIX :: byte where
  "LEAF_PREFIX = 0x00"

definition NODE_PREFIX :: byte where
  "NODE_PREFIX = 0x01"

definition leaf_hash :: "'x ext_scheme \<Rightarrow> bytes \<Rightarrow> bytes" where
  "leaf_hash X leaf_bytes = x_blake3 X (LEAF_PREFIX # leaf_bytes)"

definition node_hash :: "'x ext_scheme \<Rightarrow> bytes \<Rightarrow> bytes \<Rightarrow> bytes" where
  "node_hash X left right = x_blake3 X (NODE_PREFIX # left @ right)"

text \<open>The loop of \<open>split_point\<close>; it starts with \<open>k = 1\<close>, and \<open>k = 0\<close> would not make progress.\<close>

function split_loop :: "nat \<Rightarrow> nat \<Rightarrow> nat" where
  "split_loop n k = (if 0 < k \<and> k * 2 < n then split_loop n (k * 2) else k)"
  by pat_completeness auto
termination by (relation "measure (\<lambda>(n, k). n - k)") auto

declare split_loop.simps [simp del]

definition split_point :: "nat \<Rightarrow> nat" where
  "split_point n = split_loop n 1"

lemma split_loop_range: "0 < k \<Longrightarrow> k < n \<Longrightarrow> k \<le> split_loop n k \<and> split_loop n k < n"
proof (induction n k rule: split_loop.induct)
  case (1 n k)
  then show ?case
    by (cases "k * 2 < n") (simp_all add: split_loop.simps [of n k])
qed

lemma split_point_range: "2 \<le> n \<Longrightarrow> 0 < split_point n \<and> split_point n < n"
  using split_loop_range [of 1 n] by (simp add: split_point_def)

text \<open>
  \<open>subtree_root\<close> and \<open>path\<close> are only ever called on non-empty slices; on an empty one the code
  would panic, and the equations for the empty list stand for nothing.
\<close>

function (sequential) subtree_root :: "'x ext_scheme \<Rightarrow> bytes list \<Rightarrow> bytes" where
  "subtree_root X [] = []"
| "subtree_root X [leaf] = leaf_hash X leaf"
| "subtree_root X leaves =
     (let k = split_point (length leaves)
      in node_hash X (subtree_root X (take k leaves)) (subtree_root X (drop k leaves)))"
  by pat_completeness auto
termination
proof (relation "measure (\<lambda>(X, leaves). length leaves)", goal_cases)
  case (2 X a b ls k) then show ?case using split_point_range [of "length (a # b # ls)"] by simp
next
  case (3 X a b ls k) then show ?case using split_point_range [of "length (a # b # ls)"] by simp
qed simp

definition merkle_root :: "'x ext_scheme \<Rightarrow> bytes list \<Rightarrow> bytes" where
  "merkle_root X leaves = (if length leaves = 0 then x_blake3 X [] else subtree_root X leaves)"

record ProofStep =
  sibling :: bytes
  sibling_on_left :: bool

function (sequential) path :: "'x ext_scheme \<Rightarrow> bytes list \<Rightarrow> nat \<Rightarrow> ProofStep list" where
  "path X [] index = []"
| "path X [leaf] index = []"
| "path X leaves index =
     (let k = split_point (length leaves)
      in if index < k
         then path X (take k leaves) index @
                [\<lparr>sibling = subtree_root X (drop k leaves), sibling_on_left = False\<rparr>]
         else path X (drop k leaves) (index - k) @
                [\<lparr>sibling = subtree_root X (take k leaves), sibling_on_left = True\<rparr>])"
  by pat_completeness auto
termination
proof (relation "measure (\<lambda>(X, leaves, i). length leaves)", goal_cases)
  case (2 X a b ls k) then show ?case using split_point_range [of "length (a # b # ls)"] by simp
next
  case (3 X a b ls k) then show ?case using split_point_range [of "length (a # b # ls)"] by simp
qed simp

definition inclusion_proof :: "'x ext_scheme \<Rightarrow> bytes list \<Rightarrow> nat \<Rightarrow> ProofStep list result" where
  "inclusion_proof X leaves index =
     (if length leaves \<le> index
      then Inl (MerkleProof [T ''index '', N index, T '' out of range for tree of '',
                  N (length leaves), T '' leaves''])
      else Inr (path X leaves index))"

definition climb :: "'x ext_scheme \<Rightarrow> bytes \<Rightarrow> ProofStep \<Rightarrow> bytes" where
  "climb X hash step =
     (if sibling_on_left step then node_hash X (sibling step) hash
      else node_hash X hash (sibling step))"

definition verify_inclusion ::
  "'x ext_scheme \<Rightarrow> bytes \<Rightarrow> nat \<Rightarrow> nat \<Rightarrow> ProofStep list \<Rightarrow> bytes \<Rightarrow> unit result" where
  "verify_inclusion X leaf_bytes index tree_size proof_steps root_digest =
     (if tree_size \<le> index
      then Inl (MerkleProof [T ''index '', N index, T '' out of range for tree_size '', N tree_size])
      else if foldl (climb X) (leaf_hash X leaf_bytes) proof_steps = root_digest then Inr ()
      else Inl (MerkleProof [T ''recomputed root does not match'']))"

section \<open>Tree shape\<close>

lemma split_loop_power:
  "k = 2 ^ j \<Longrightarrow> k < n \<Longrightarrow> \<exists>i. split_loop n k = 2 ^ i \<and> 2 ^ i < n \<and> n \<le> 2 * 2 ^ i"
proof (induction n k arbitrary: j rule: split_loop.induct)
  case (1 n k)
  show ?case
  proof (cases "k * 2 < n")
    case True
    with "1.prems" have "0 < k \<and> k * 2 < n" by simp
    with "1.IH" [of "Suc j"] "1.prems"(1) show ?thesis by (subst split_loop.simps) simp
  next
    case False
    with "1.prems" show ?thesis by (subst split_loop.simps) auto
  qed
qed

lemma subtree_root_split:
  assumes "2 \<le> length leaves" and "k = split_point (length leaves)"
  shows "subtree_root X leaves = node_hash X (subtree_root X (take k leaves)) (subtree_root X (drop k leaves))"
  using assms by (cases "(X, leaves)" rule: subtree_root.cases) (simp_all add: Let_def)

lemma path_split:
  assumes "2 \<le> length leaves" and "k = split_point (length leaves)"
  shows "path X leaves i =
     (if i < k then path X (take k leaves) i @
           [\<lparr>sibling = subtree_root X (drop k leaves), sibling_on_left = False\<rparr>]
      else path X (drop k leaves) (i - k) @
           [\<lparr>sibling = subtree_root X (take k leaves), sibling_on_left = True\<rparr>])"
  using assms by (cases "(X, leaves, i)" rule: path.cases) (simp_all add: Let_def)

text \<open>Every tree is a leaf or two smaller trees, split where the code splits it.\<close>

lemma tree_induct [consumes 1, case_names leaf node]:
  assumes "leaves \<noteq> []"
    and "\<And>leaf. P [leaf]"
    and "\<And>leaves k. 2 \<le> length leaves \<Longrightarrow> k = split_point (length leaves) \<Longrightarrow> 0 < k \<Longrightarrow>
           k < length leaves \<Longrightarrow> P (take k leaves) \<Longrightarrow> P (drop k leaves) \<Longrightarrow> P leaves"
  shows "P leaves"
  using assms(1)
proof (induction leaves rule: length_induct)
  case (1 leaves)
  show ?case
  proof (cases "length leaves \<le> 1")
    case True
    with 1 assms(2) show ?thesis by (cases leaves) auto
  next
    case False
    define k where "k = split_point (length leaves)"
    from False split_point_range [of "length leaves"] have "0 < k" "k < length leaves"
      by (simp_all add: k_def)
    with False 1 k_def show ?thesis by (intro assms(3) [of leaves k]) auto
  qed
qed

lemma length_subtree_root: "leaves \<noteq> [] \<Longrightarrow> digest32 X \<Longrightarrow> length (subtree_root X leaves) = 32"
  by (induction leaves rule: tree_induct)
    (simp_all add: leaf_hash_def node_hash_def digest32_blake3 subtree_root_split)

section \<open>Completeness\<close>

lemma climb_path:
  "leaves \<noteq> [] \<Longrightarrow> i < length leaves \<Longrightarrow>
   foldl (climb X) (leaf_hash X (leaves ! i)) (path X leaves i) = subtree_root X leaves"
proof (induction leaves arbitrary: i rule: tree_induct)
  case (node leaves k)
  show ?case
  proof (cases "i < k")
    case True
    with node.IH(1) [of i] node show ?thesis
      by (simp add: path_split [OF node(1,2)] subtree_root_split [OF node(1,2)] climb_def)
  next
    case False
    with node.IH(2) [of "i - k"] node show ?thesis
      by (simp add: path_split [OF node(1,2)] subtree_root_split [OF node(1,2)] climb_def)
  qed
qed simp


section \<open>Soundness\<close>

text \<open>The byte strings hashed while building a tree, and while climbing a path.\<close>

function (sequential) tree_inputs :: "'x ext_scheme \<Rightarrow> bytes list \<Rightarrow> bytes set" where
  "tree_inputs X [] = {[]}"
| "tree_inputs X [leaf] = {LEAF_PREFIX # leaf}"
| "tree_inputs X leaves =
     (let k = split_point (length leaves)
      in insert (NODE_PREFIX # subtree_root X (take k leaves) @ subtree_root X (drop k leaves))
           (tree_inputs X (take k leaves) \<union> tree_inputs X (drop k leaves)))"
  by pat_completeness auto
termination
proof (relation "measure (\<lambda>(X, leaves). length leaves)", goal_cases)
  case (2 X a b ls k) then show ?case using split_point_range [of "length (a # b # ls)"] by simp
next
  case (3 X a b ls k) then show ?case using split_point_range [of "length (a # b # ls)"] by simp
qed simp

definition climb_input :: "bytes \<Rightarrow> ProofStep \<Rightarrow> bytes" where
  "climb_input hash step =
     NODE_PREFIX # (if sibling_on_left step then sibling step @ hash else hash @ sibling step)"

fun path_inputs :: "'x ext_scheme \<Rightarrow> bytes \<Rightarrow> ProofStep list \<Rightarrow> bytes set" where
  "path_inputs X hash [] = {}"
| "path_inputs X hash (step # steps) =
     insert (climb_input hash step) (path_inputs X (climb X hash step) steps)"

definition leaf_inputs :: "'x ext_scheme \<Rightarrow> bytes \<Rightarrow> ProofStep list \<Rightarrow> bytes set" where
  "leaf_inputs X leaf steps = insert (LEAF_PREFIX # leaf) (path_inputs X (leaf_hash X leaf) steps)"

lemma tree_inputs_split:
  assumes "2 \<le> length leaves" and "k = split_point (length leaves)"
  shows "tree_inputs X leaves =
    insert (NODE_PREFIX # subtree_root X (take k leaves) @ subtree_root X (drop k leaves))
      (tree_inputs X (take k leaves) \<union> tree_inputs X (drop k leaves))"
  using assms by (cases "(X, leaves)" rule: tree_inputs.cases) (simp_all add: Let_def)

lemma climb_eq: "climb X hash step = x_blake3 X (climb_input hash step)"
  by (simp add: climb_def climb_input_def node_hash_def)

lemma prefixes_differ [simp]: "LEAF_PREFIX \<noteq> NODE_PREFIX" "NODE_PREFIX \<noteq> LEAF_PREFIX"
  by (simp_all add: LEAF_PREFIX_def NODE_PREFIX_def)

lemma climb_input_not_leaf [simp]:
  "climb_input hash step \<noteq> LEAF_PREFIX # leaf" "LEAF_PREFIX # leaf \<noteq> climb_input hash step"
  "climb_input hash step \<noteq> []"
  by (simp_all add: climb_input_def)

lemma path_inputs_snoc:
  "path_inputs X hash (steps @ [step]) =
     insert (climb_input (foldl (climb X) hash steps) step) (path_inputs X hash steps)"
  by (induction steps arbitrary: hash) auto

lemma leaf_inputs_snoc:
  "leaf_inputs X leaf (steps @ [step]) =
     insert (climb_input (foldl (climb X) (leaf_hash X leaf) steps) step) (leaf_inputs X leaf steps)"
  by (auto simp: leaf_inputs_def path_inputs_snoc)

lemma leaf_in_inputs [simp]: "LEAF_PREFIX # leaf \<in> leaf_inputs X leaf steps"
  by (simp add: leaf_inputs_def)

lemma length_climb: "digest32 X \<Longrightarrow> length (foldl (climb X) (leaf_hash X leaf) steps) = 32"
  by (cases steps rule: rev_cases) (simp_all add: climb_eq leaf_hash_def digest32_blake3)

definition digest_steps :: "ProofStep list \<Rightarrow> bool" where
  "digest_steps steps = list_all (\<lambda>s. length (sibling s) = 32) steps"

lemma climb_sound:
  assumes "leaves \<noteq> []" and "digest32 X" and "digest_steps steps"
    and "blake3_distinguishes X (tree_inputs X leaves \<union> leaf_inputs X leaf steps)"
    and "foldl (climb X) (leaf_hash X leaf) steps = subtree_root X leaves"
  shows "\<exists>i < length leaves. leaves ! i = leaf \<and> steps = path X leaves i"
  using assms
proof (induction leaves arbitrary: steps rule: tree_induct)
  case (leaf l)
  show ?case
  proof (cases steps rule: rev_cases)
    case Nil
    with leaf have "x_blake3 X (LEAF_PREFIX # leaf) = x_blake3 X (LEAF_PREFIX # l)"
      by (simp add: leaf_hash_def)
    from blake3_distinguishesD [OF leaf.prems(3) _ _ this] Nil show ?thesis by simp
  next
    case (snoc init step)
    define h where "h = foldl (climb X) (leaf_hash X leaf) init"
    from snoc leaf have "x_blake3 X (climb_input h step) = x_blake3 X (LEAF_PREFIX # l)"
      by (simp add: leaf_hash_def [of X l] climb_eq [symmetric] h_def)
    from blake3_distinguishesD [OF leaf.prems(3) _ _ this] snoc show ?thesis
      by (simp add: leaf_inputs_snoc h_def)
  qed
next
  case (node leaves k)
  let ?l = "subtree_root X (take k leaves)" and ?r = "subtree_root X (drop k leaves)"
  have root: "subtree_root X leaves = x_blake3 X (NODE_PREFIX # ?l @ ?r)"
    by (simp add: subtree_root_split [OF node(1,2)] node_hash_def)
  note inputs = tree_inputs_split [OF node(1,2)]
  show ?case
  proof (cases steps rule: rev_cases)
    case Nil
    with node.prems root have "x_blake3 X (LEAF_PREFIX # leaf) = x_blake3 X (NODE_PREFIX # ?l @ ?r)"
      by (simp add: leaf_hash_def)
    from blake3_distinguishesD [OF node.prems(3) _ _ this] show ?thesis by (simp add: inputs)
  next
    case (snoc init step)
    let ?h = "foldl (climb X) (leaf_hash X leaf) init"
    from snoc node.prems root have "x_blake3 X (climb_input ?h step) = x_blake3 X (NODE_PREFIX # ?l @ ?r)"
      by (simp add: climb_eq [symmetric])
    from blake3_distinguishesD [OF node.prems(3) _ _ this] snoc
    have eq: "climb_input ?h step = NODE_PREFIX # ?l @ ?r" by (simp add: inputs leaf_inputs_snoc)
    have ne: "leaves \<noteq> []" using node(4) by auto
    have len: "length ?h = 32" "length ?l = 32" "length ?r = 32" "length (sibling step) = 32"
      using ne node(3,4) node.prems(1,2) snoc length_subtree_root [of "take k leaves" X]
        length_subtree_root [of "drop k leaves" X]
      by (auto simp: length_climb digest_steps_def)
    have sub: "digest_steps init"
      "blake3_distinguishes X (tree_inputs X (take k leaves) \<union> leaf_inputs X leaf init)"
      "blake3_distinguishes X (tree_inputs X (drop k leaves) \<union> leaf_inputs X leaf init)"
      using node.prems snoc
      by (auto simp: inputs leaf_inputs_snoc digest_steps_def elim!: blake3_distinguishes_mono)
    show ?thesis
    proof (cases "sibling_on_left step")
      case True
      with eq len have "?h = ?r" "sibling step = ?l" by (simp_all add: climb_input_def)
      from node.IH(2) [OF node.prems(1) sub(1,3) this(1)] obtain i
        where "i < length (drop k leaves)" "drop k leaves ! i = leaf" "init = path X (drop k leaves) i"
        by blast
      with True \<open>sibling step = ?l\<close> snoc node(3,4) show ?thesis
        by (intro exI [of _ "k + i"]) (auto simp: path_split [OF node(1,2)])
    next
      case False
      with eq len have "?h = ?l" "sibling step = ?r" by (simp_all add: climb_input_def)
      from node.IH(1) [OF node.prems(1) sub(1,2) this(1)] obtain i
        where "i < length (take k leaves)" "take k leaves ! i = leaf" "init = path X (take k leaves) i"
        by blast
      with False \<open>sibling step = ?r\<close> snoc node(3,4) show ?thesis
        by (intro exI [of _ i]) (auto simp: path_split [OF node(1,2)])
    qed
  qed
qed

section \<open>The root determines the leaves\<close>

lemma root_input:
  "leaves \<noteq> [] \<Longrightarrow> \<exists>i \<in> tree_inputs X leaves. i \<noteq> [] \<and> subtree_root X leaves = x_blake3 X i"
  by (induction leaves rule: tree_induct)
    (auto simp: leaf_hash_def node_hash_def subtree_root_split tree_inputs_split)

lemma subtree_root_inj:
  assumes "as \<noteq> []" and "bs \<noteq> []" and "digest32 X"
    and "blake3_distinguishes X (tree_inputs X as \<union> tree_inputs X bs)"
    and "subtree_root X as = subtree_root X bs"
  shows "as = bs"
  using assms
proof (induction as arbitrary: bs rule: tree_induct)
  case (leaf l)
  show ?case
  proof (cases "2 \<le> length bs")
    case True
    define k where "k = split_point (length bs)"
    note n = True k_def
    from leaf.prems have "x_blake3 X (LEAF_PREFIX # l) =
      x_blake3 X (NODE_PREFIX # subtree_root X (take k bs) @ subtree_root X (drop k bs))"
      by (simp add: subtree_root_split [OF n] node_hash_def leaf_hash_def)
    from blake3_distinguishesD [OF leaf.prems(3) _ _ this] show ?thesis
      by (simp add: tree_inputs_split [OF n])
  next
    case False
    with leaf.prems obtain m where bs: "bs = [m]" by (cases bs) (auto simp: Suc_le_eq)
    with leaf.prems have "x_blake3 X (LEAF_PREFIX # l) = x_blake3 X (LEAF_PREFIX # m)"
      by (simp add: leaf_hash_def)
    from blake3_distinguishesD [OF leaf.prems(3) _ _ this] bs show ?thesis by simp
  qed
next
  case (node as k)
  let ?l = "subtree_root X (take k as)" and ?r = "subtree_root X (drop k as)"
  have root: "subtree_root X as = x_blake3 X (NODE_PREFIX # ?l @ ?r)"
    by (simp add: subtree_root_split [OF node(1,2)] node_hash_def)
  show ?case
  proof (cases "2 \<le> length bs")
    case False
    with node.prems obtain m where bs: "bs = [m]" by (cases bs) (auto simp: Suc_le_eq)
    with node.prems root have "x_blake3 X (NODE_PREFIX # ?l @ ?r) = x_blake3 X (LEAF_PREFIX # m)"
      by (simp add: leaf_hash_def)
    from blake3_distinguishesD [OF node.prems(3) _ _ this] bs show ?thesis
      by (simp add: tree_inputs_split [OF node(1,2)])
  next
    case True
    define j where "j = split_point (length bs)"
    note n = True j_def
    have j: "0 < j" "j < length bs" using True split_point_range by (simp_all add: j_def)
    let ?l' = "subtree_root X (take j bs)" and ?r' = "subtree_root X (drop j bs)"
    from node.prems root have "x_blake3 X (NODE_PREFIX # ?l @ ?r) = x_blake3 X (NODE_PREFIX # ?l' @ ?r')"
      by (simp add: subtree_root_split [OF n] node_hash_def)
    from blake3_distinguishesD [OF node.prems(3) _ _ this] have "?l @ ?r = ?l' @ ?r'"
      by (simp add: tree_inputs_split [OF n] tree_inputs_split [OF node(1,2)])
    then have eq: "?l = ?l'" "?r = ?r'" using node j by (simp_all add: length_subtree_root)
    have sub: "blake3_distinguishes X (tree_inputs X (take k as) \<union> tree_inputs X (take j bs))"
      "blake3_distinguishes X (tree_inputs X (drop k as) \<union> tree_inputs X (drop j bs))"
      using node.prems(3)
      by (auto simp: tree_inputs_split [OF n] tree_inputs_split [OF node(1,2)]
        elim!: blake3_distinguishes_mono)
    from j have "take j bs \<noteq> []" "drop j bs \<noteq> []" by auto
    with node.IH(1) [OF _ node.prems(2) sub(1) eq(1)] node.IH(2) [OF _ node.prems(2) sub(2) eq(2)]
    have "take k as = take j bs" "drop k as = drop j bs" by blast+
    then show ?thesis by (metis append_take_drop_id)
  qed
qed


lemma inclusion_proof_Inr:
  "inclusion_proof X leaves i = Inr steps \<longleftrightarrow> i < length leaves \<and> steps = path X leaves i"
  by (auto simp: inclusion_proof_def)

lemma split_two: "split_point (Suc (Suc 0)) = Suc 0"
  by (simp add: split_point_def split_loop.simps)

lemma distinguishes_three:
  "x_blake3 X a \<noteq> x_blake3 X b \<Longrightarrow> x_blake3 X a \<noteq> x_blake3 X c \<Longrightarrow> x_blake3 X b \<noteq> x_blake3 X c \<Longrightarrow>
   A \<subseteq> {a, b, c} \<Longrightarrow> blake3_distinguishes X A"
  by (rule blake3_distinguishes_mono [of _ "{a, b, c}"]) (auto simp: blake3_distinguishes_def)

lemma demo_tree_inputs:
  assumes "A \<subseteq> {NODE_PREFIX # leaf_hash demo_ext [1] @ leaf_hash demo_ext [2], LEAF_PREFIX # [1],
    LEAF_PREFIX # [2]}"
  shows "blake3_distinguishes demo_ext A"
  by (rule distinguishes_three [OF _ _ _ assms])
    (simp_all add: leaf_hash_def LEAF_PREFIX_def NODE_PREFIX_def demo_eval)

section \<open>Properties\<close>

text \<open>
  C40: The split point of a tree of at least two leaves is the largest power of two strictly
  below its size, as RFC 6962 prescribes; both halves are non-empty, so the recursions over the
  tree end.
\<close>

theorem split_point_largest_power:
  assumes "2 \<le> n"
  shows "\<exists>j. split_point n = 2 ^ j \<and> split_point n < n \<and> n \<le> 2 * split_point n"
proof -
  have "\<exists>i. split_loop n 1 = 2 ^ i \<and> 2 ^ i < n \<and> n \<le> 2 * 2 ^ i"
    by (rule split_loop_power [of 1 0]) (use assms in simp_all)
  then show ?thesis by (auto simp: split_point_def)
qed

theorem split_point_largest_power_witness:
  "\<exists>j. split_point 5 = 2 ^ j \<and> split_point 5 < 5 \<and> (5::nat) \<le> 2 * split_point 5"
  using split_point_largest_power [of 5] by simp

text \<open>
  C32: Audit paths are complete. For every index of the tree the prover returns a path, and
  verifying the leaf at that index against the root of the tree with that path succeeds.
\<close>

theorem inclusion_proof_verifies:
  assumes "i < length leaves"
  shows "\<exists>steps. inclusion_proof X leaves i = Inr steps \<and>
    verify_inclusion X (leaves ! i) i (length leaves) steps (merkle_root X leaves) = Inr ()"
  using assms climb_path [of leaves i X]
  by (cases "leaves = []") (auto simp: inclusion_proof_def verify_inclusion_def merkle_root_def)

theorem inclusion_proof_verifies_witness:
  "\<exists>steps. inclusion_proof demo_ext [[1], [2], [3]] 2 = Inr steps \<and>
    verify_inclusion demo_ext [3] 2 3 steps (merkle_root demo_ext [[1], [2], [3]]) = Inr ()"
  using inclusion_proof_verifies [of 2 "[[1], [2], [3]]" demo_ext] by (simp add: numeral_3_eq_3)

text \<open>
  C16: Audit paths are sound. If verification of a leaf against the root of a non-empty tree
  succeeds, the leaf is in the tree and the path is the audit path of one of its positions,
  unless BLAKE3 collides on the inputs hashed in building the tree and in climbing the path.
\<close>

theorem verify_inclusion_sound:
  assumes "leaves \<noteq> []" and "digest32 X" and "digest_steps steps"
    and "blake3_distinguishes X (tree_inputs X leaves \<union> leaf_inputs X leaf steps)"
    and "verify_inclusion X leaf index tree_size steps (merkle_root X leaves) = Inr ()"
  shows "\<exists>i < length leaves. leaves ! i = leaf \<and> inclusion_proof X leaves i = Inr steps"
proof -
  from assms(1,5) have "foldl (climb X) (leaf_hash X leaf) steps = subtree_root X leaves"
    by (simp add: verify_inclusion_def merkle_root_def split: if_splits)
  from climb_sound [OF assms(1-4) this] show ?thesis by (auto simp: inclusion_proof_Inr)
qed

theorem verify_inclusion_sound_witness:
  "\<exists>i < length [[1], [2 :: byte]]. [[1], [2]] ! i = [2 :: byte] \<and>
     inclusion_proof demo_ext [[1], [2]] i =
       Inr [\<lparr>sibling = leaf_hash demo_ext [1], sibling_on_left = True\<rparr>]"
proof (rule verify_inclusion_sound [OF _ demo_digest32])
  let ?steps = "[\<lparr>sibling = leaf_hash demo_ext [1], sibling_on_left = True\<rparr>]"
  show "digest_steps ?steps" by (simp add: digest_steps_def leaf_hash_def)
  show "blake3_distinguishes demo_ext
      (tree_inputs demo_ext [[1], [2]] \<union> leaf_inputs demo_ext [2] ?steps)"
    by (rule demo_tree_inputs) (simp add: split_two leaf_inputs_def climb_input_def)
  show "verify_inclusion demo_ext [2] 1 2 ?steps (merkle_root demo_ext [[1], [2]]) = Inr ()"
    by (simp add: verify_inclusion_def merkle_root_def split_two climb_def)
qed simp

text \<open>
  The root determines the leaves: two lists of leaves of any lengths, the empty list
  included, with the same root are equal, unless BLAKE3 collides on the inputs hashed in
  building the two trees. In particular no leaf can pass for an interior node.
\<close>

theorem merkle_root_inj:
  assumes "digest32 X" and "blake3_distinguishes X (tree_inputs X as \<union> tree_inputs X bs)"
    and "merkle_root X as = merkle_root X bs"
  shows "as = bs"
proof -
  have empty: False if r: "cs \<noteq> []" "x_blake3 X [] = subtree_root X cs"
    and d: "blake3_distinguishes X ({[]} \<union> tree_inputs X cs)" for cs
    using root_input [OF r(1), of X] r(2) blake3_distinguishesD [OF d] by force
  show ?thesis
  proof (cases "as = [] \<or> bs = []")
    case True
    with assms empty [of as] empty [of bs] show ?thesis
      by (auto simp: merkle_root_def Un_commute split: if_splits)
  next
    case False
    with assms show ?thesis by (auto simp: merkle_root_def intro: subtree_root_inj)
  qed
qed

theorem merkle_root_inj_witness:
  "merkle_root demo_ext [[1], [2]] \<noteq> merkle_root demo_ext [[1]]"
proof -
  have "blake3_distinguishes demo_ext (tree_inputs demo_ext [[1], [2]] \<union> tree_inputs demo_ext [[1]])"
    by (rule demo_tree_inputs) (simp add: split_two)
  from merkle_root_inj [OF demo_digest32 this] show ?thesis by blast
qed

text \<open>
  The index and the tree size take no part in the verification beyond their comparison: a
  path that verifies for one position verifies for every position of a tree of any size. What
  is proved of a position is only that the leaf occurs somewhere in the tree.
\<close>

theorem verify_inclusion_position_unbound:
  assumes "verify_inclusion X leaf i n steps d = Inr ()" and "j < m"
  shows "verify_inclusion X leaf j m steps d = Inr ()"
  using assms by (auto simp: verify_inclusion_def split: if_splits)

theorem verify_inclusion_position_unbound_witness:
  "verify_inclusion demo_ext [9] 41 1000 [] (leaf_hash demo_ext [9]) = Inr ()"
  by (rule verify_inclusion_position_unbound [of _ _ 0 1]) (simp_all add: verify_inclusion_def)

end
