(* ===== verification/Hash_Log.thy ===== *)
theory Hash_Log
  imports Prelude
begin

text \<open>
  The contract that the record chain and the checkpoint chain share. An item of a log names its
  predecessor by that item's own identifier; the first item of a log names none. If the
  identifier of an item binds its content, and the content the link to the predecessor, then the
  identifier of the last item binds the whole log. \<open>no_clash A\<close> is the client's condition under
  which the identifiers of the items of \<open>A\<close> can be relied on.
\<close>

fun follows :: "('a \<Rightarrow> 'h) \<Rightarrow> ('a \<Rightarrow> 'h option) \<Rightarrow> 'h option \<Rightarrow> 'a list \<Rightarrow> bool" where
  "follows own prev h [] = True"
| "follows own prev h (x # xs) = (prev x = h \<and> follows own prev (Some (own x)) xs)"

abbreviation linked_log :: "('a \<Rightarrow> 'h) \<Rightarrow> ('a \<Rightarrow> 'h option) \<Rightarrow> 'a list \<Rightarrow> bool" where
  "linked_log own prev \<equiv> follows own prev None"

lemma follows_snoc:
  "follows own prev h (xs @ [x]) \<longleftrightarrow> follows own prev h xs \<and>
     prev x = (if xs = [] then h else Some (own (last xs)))"
  by (induction xs arbitrary: h) auto

locale hash_log =
  fixes own :: "'a \<Rightarrow> 'h"
    and prev :: "'a \<Rightarrow> 'h option"
    and same :: "'a \<Rightarrow> 'a \<Rightarrow> bool"
    and no_clash :: "'a set \<Rightarrow> bool"
  assumes binds: "no_clash A \<Longrightarrow> a \<in> A \<Longrightarrow> b \<in> A \<Longrightarrow> own a = own b \<Longrightarrow> same a b"
    and same_prev: "same a b \<Longrightarrow> prev a = prev b"
    and subset: "no_clash A \<Longrightarrow> B \<subseteq> A \<Longrightarrow> no_clash B"
begin

lemma last_binds_log:
  assumes "linked_log own prev xs" and "linked_log own prev ys"
    and "xs \<noteq> []" and "ys \<noteq> []" and "own (last xs) = own (last ys)"
    and "no_clash (set xs \<union> set ys)"
  shows "list_all2 same xs ys"
  using assms
proof (induction xs arbitrary: ys rule: rev_induct)
  case (snoc x xs)
  from snoc.prems(4) obtain y ys' where ys: "ys = ys' @ [y]" by (cases ys rule: rev_cases) auto
  have xy: "same x y"
    by (rule binds [OF snoc.prems(6)]) (use snoc.prems(5) ys in auto)
  from same_prev [OF xy] snoc.prems(1,2) ys
  have links: "(if xs = [] then None else Some (own (last xs))) =
      (if ys' = [] then None else Some (own (last ys')))"
    by (simp add: follows_snoc)
  have "list_all2 same xs ys'"
  proof (cases "xs = []")
    case False
    with links have "ys' \<noteq> []" "own (last xs) = own (last ys')" by (auto split: if_splits)
    moreover have "no_clash (set xs \<union> set ys')"
      by (rule subset [OF snoc.prems(6)]) (auto simp: ys)
    ultimately show ?thesis using snoc.IH False snoc.prems(1,2) ys by (simp add: follows_snoc)
  qed (use links in \<open>auto split: if_splits\<close>)
  with xy ys show ?case by (simp add: list_all2_appendI)
qed simp

end

end
