(* ===== verification/Chain.thy ===== *)
theory Chain
  imports Records Hash_Log
begin

text \<open>
  The hash chain (\<open>evidence/src/chain.rs\<close>): the writer's \<open>ChainHead\<close>, the view that verification
  takes of a raw record, and the streaming verifier of one stream.

  \<open>verify_next\<close> keeps the source's order of checks; its findings are values. A failing call
  leaves the verifier as it was. The record counter and the sequence arithmetic are 64-bit
  words, wall times are milliseconds since the epoch.
\<close>

section \<open>The writer\<close>

definition WALL_TOLERANCE_MS :: int where
  "WALL_TOLERANCE_MS = 2000"

record ChainHead =
  h_stream_id :: u128
  h_head_hash :: ustr
  h_last_seq :: "u64 option"

definition chain_genesis :: "'x ext_scheme \<Rightarrow> u128 \<Rightarrow> ChainHead" where
  "chain_genesis X stream_id =
     \<lparr>h_stream_id = stream_id, h_head_hash = genesis_prev_hash X stream_id, h_last_seq = None\<rparr>"

definition chain_resume :: "u128 \<Rightarrow> ustr \<Rightarrow> u64 \<Rightarrow> ChainHead" where
  "chain_resume stream_id head_hash last_seq =
     \<lparr>h_stream_id = stream_id, h_head_hash = head_hash, h_last_seq = Some last_seq\<rparr>"

definition next_seq :: "ChainHead \<Rightarrow> u64" where
  "next_seq h = (case h_last_seq h of None \<Rightarrow> 0 | Some s \<Rightarrow> s + 1)"

text \<open>
  The record and the head are both updated in place. On an error the head is unchanged; after a
  failed \<open>finalize\<close> the record keeps the sequence number and the link it was given.
\<close>

definition chain_append ::
  "'x ext_scheme \<Rightarrow> ChainHead \<Rightarrow> Record \<Rightarrow> (ChainHead \<times> Record) \<times> unit result" where
  "chain_append X h record =
     (if r_stream_id record \<noteq> x_ulid_str X (h_stream_id h)
      then ((h, record), Inl (Schema [T ''record stream_id '', S (r_stream_id record),
              T '' does not match chain stream '', S (x_ulid_str X (h_stream_id h))]))
      else
        let record = record\<lparr>r_seq := next_seq h, r_prev_hash := h_head_hash h\<rparr>
        in case finalize X record of
             Inl e \<Rightarrow> ((h, record), Inl e)
           | Inr (record, hash) \<Rightarrow>
               ((h\<lparr>h_head_hash := hash, h_last_seq := Some (r_seq record)\<rparr>, record), Inr ()))"

section \<open>The verifier\<close>

record RecordView =
  v_record_id :: ustr
  v_stream_id :: ustr
  v_segment_id :: ustr
  v_seq :: u64
  v_ts_wall :: ustr
  v_ts_mono_ns :: u64
  v_record_type :: ustr
  v_prev_hash :: ustr
  v_record_hash :: ustr

definition str_field :: "(ustr \<times> json) list \<Rightarrow> string \<Rightarrow> ustr result" where
  "str_field obj k = ok_or (Option.bind (map_of obj (lit k)) as_str)
     (Schema [T ''record missing string field '', D (lit k)])"

definition u64_field :: "(ustr \<times> json) list \<Rightarrow> string \<Rightarrow> u64 result" where
  "u64_field obj k = ok_or (Option.bind (map_of obj (lit k)) as_u64)
     (Schema [T ''record missing u64 field '', D (lit k)])"

definition view_from_value :: "json \<Rightarrow> RecordView result" where
  "view_from_value v =
     rbind (ok_or (as_object v) (Schema [T ''record must be a JSON object''])) (\<lambda>obj.
     rbind (str_field obj ''record_id'') (\<lambda>record_id.
     rbind (str_field obj ''stream_id'') (\<lambda>stream_id.
     rbind (str_field obj ''segment_id'') (\<lambda>segment_id.
     rbind (u64_field obj ''seq'') (\<lambda>seq.
     rbind (str_field obj ''ts_wall'') (\<lambda>ts_wall.
     rbind (u64_field obj ''ts_mono_ns'') (\<lambda>ts_mono_ns.
     rbind (str_field obj ''record_type'') (\<lambda>record_type.
     rbind (str_field obj ''prev_hash'') (\<lambda>prev_hash.
     rbind (str_field obj ''record_hash'') (\<lambda>record_hash.
     Inr \<lparr>v_record_id = record_id, v_stream_id = stream_id, v_segment_id = segment_id,
          v_seq = seq, v_ts_wall = ts_wall, v_ts_mono_ns = ts_mono_ns,
          v_record_type = record_type, v_prev_hash = prev_hash,
          v_record_hash = record_hash\<rparr>))))))))))"

datatype ChainFinding =
    RecordHashMismatch u64 ustr ustr
  | LinkBroken u64 ustr ustr
  | SeqGapInSegment ustr u64 u64
  | SeqNotMonotonic u64 u64
  | MonoRegression u64 u64 u64
  | WallRegression u64 int
  | GenesisViolation ustr ustr
  | SegmentBreak ustr u64
  | StreamMismatch u64 ustr
  | BadWallTimestamp u64 ustr

record StreamVerifier =
  sv_stream_id :: ustr
  sv_genesis :: ustr
  sv_prev :: "RecordView option"
  sv_prev_wall_ms :: "int option"
  sv_records_verified :: u64

definition verifier_new :: "'x ext_scheme \<Rightarrow> ustr \<Rightarrow> StreamVerifier result" where
  "verifier_new X stream_id =
     (case x_ulid_parse X stream_id of
        Inl e \<Rightarrow> Inl (Schema [T ''invalid stream_id '', D stream_id, T '': '', S e])
      | Inr ulid \<Rightarrow> Inr \<lparr>sv_stream_id = stream_id, sv_genesis = genesis_prev_hash X ulid,
                       sv_prev = None, sv_prev_wall_ms = None, sv_records_verified = 0\<rparr>)"

definition is_segment_break :: "'x ext_scheme \<Rightarrow> RecordView \<Rightarrow> bool" where
  "is_segment_break X view =
     (case (x_ulid_parse X (v_stream_id view), x_ulid_parse X (v_segment_id view)) of
        (Inr stream, Inr segment) \<Rightarrow>
          v_prev_hash view = segment_break_prev_hash X stream segment
      | _ \<Rightarrow> False)"

text \<open>The checks of \<open>verify_next\<close>, each with the findings it pushes.\<close>

definition check_stream :: "StreamVerifier \<Rightarrow> RecordView \<Rightarrow> ChainFinding list" where
  "check_stream sv view =
     (if v_stream_id view \<noteq> sv_stream_id sv
      then [StreamMismatch (v_seq view) (v_stream_id view)] else [])"

definition check_hash :: "RecordView \<Rightarrow> ustr \<Rightarrow> ChainFinding list" where
  "check_hash view computed =
     (if computed \<noteq> v_record_hash view
      then [RecordHashMismatch (v_seq view) (v_record_hash view) computed] else [])"

definition check_first :: "StreamVerifier \<Rightarrow> RecordView \<Rightarrow> ChainFinding list" where
  "check_first sv view =
     (if v_seq view = 0 \<and> v_prev_hash view \<noteq> sv_genesis sv
      then [GenesisViolation (v_prev_hash view) (sv_genesis sv)] else [])"

definition check_seq :: "RecordView \<Rightarrow> RecordView \<Rightarrow> ChainFinding list" where
  "check_seq prev view =
     (if v_seq view \<le> v_seq prev then [SeqNotMonotonic (v_seq prev) (v_seq view)]
      else if v_segment_id prev = v_segment_id view \<and> v_seq view \<noteq> v_seq prev + 1
      then [SeqGapInSegment (v_segment_id view) (v_seq prev + 1) (v_seq view)] else [])"

definition check_link :: "'x ext_scheme \<Rightarrow> RecordView \<Rightarrow> RecordView \<Rightarrow> ChainFinding list" where
  "check_link X prev view =
     (if v_prev_hash view \<noteq> v_record_hash prev
      then if v_segment_id prev \<noteq> v_segment_id view \<and> is_segment_break X view
           then [SegmentBreak (v_segment_id view) (v_seq view)]
           else [LinkBroken (v_seq view) (v_record_hash prev) (v_prev_hash view)]
      else [])"

definition check_mono :: "RecordView \<Rightarrow> RecordView \<Rightarrow> ChainFinding list" where
  "check_mono prev view =
     (if v_segment_id prev = v_segment_id view \<and> v_ts_mono_ns view < v_ts_mono_ns prev
      then [MonoRegression (v_seq view) (v_ts_mono_ns prev) (v_ts_mono_ns view)] else [])"

definition check_wall ::
  "'x ext_scheme \<Rightarrow> int option \<Rightarrow> RecordView \<Rightarrow> RecordView \<Rightarrow> ChainFinding list" where
  "check_wall X prev_wall_ms prev view =
     (case (parse_wall X (v_ts_wall view), prev_wall_ms) of
        (Inr wall, Some prev_ms) \<Rightarrow>
          let delta = timestamp_millis wall - prev_ms
          in if delta < - WALL_TOLERANCE_MS \<and> v_record_type view \<noteq> lit ''clock_anomaly''
                \<and> v_record_type prev \<noteq> lit ''clock_anomaly''
             then [WallRegression (v_seq view) delta] else []
      | (Inl e, _) \<Rightarrow> [BadWallTimestamp (v_seq view) (v_ts_wall view)]
      | _ \<Rightarrow> [])"

definition check_prev :: "'x ext_scheme \<Rightarrow> StreamVerifier \<Rightarrow> RecordView \<Rightarrow> ChainFinding list" where
  "check_prev X sv view =
     (case sv_prev sv of
        None \<Rightarrow> check_first sv view
      | Some prev \<Rightarrow> check_seq prev view @ check_link X prev view @ check_mono prev view
                     @ check_wall X (sv_prev_wall_ms sv) prev view)"

definition advance :: "'x ext_scheme \<Rightarrow> StreamVerifier \<Rightarrow> RecordView \<Rightarrow> StreamVerifier" where
  "advance X sv view =
     sv\<lparr>sv_prev_wall_ms := (case parse_wall X (v_ts_wall view) of
            Inr w \<Rightarrow> Some (timestamp_millis w) | Inl e \<Rightarrow> sv_prev_wall_ms sv),
        sv_prev := Some view,
        sv_records_verified := sv_records_verified sv + 1\<rparr>"

definition verify_next ::
  "'x ext_scheme \<Rightarrow> StreamVerifier \<Rightarrow> json \<Rightarrow> (StreamVerifier \<times> ChainFinding list) result" where
  "verify_next X sv raw =
     rbind (view_from_value raw) (\<lambda>view.
     rbind (compute_hash_of_value X raw) (\<lambda>computed.
     Inr (advance X sv view,
          check_stream sv view @ check_hash view computed @ check_prev X sv view)))"

definition verifier_head :: "StreamVerifier \<Rightarrow> ustr option" where
  "verifier_head sv = map_option v_record_hash (sv_prev sv)"

section \<open>Reading views\<close>

lemma str_field_Inr: "str_field obj k = Inr s \<longleftrightarrow> map_of obj (lit k) = Some (String s)"
proof -
  have "as_str v = Some s \<longleftrightarrow> v = String s" for v by (cases v) auto
  then show ?thesis by (auto simp: str_field_def Option.bind_eq_Some_conv)
qed

lemma u64_field_Inr: "u64_field obj k = Inr n \<longleftrightarrow> map_of obj (lit k) = Some (U64 n)"
  by (auto simp: u64_field_def Option.bind_eq_Some_conv as_u64_Some)

lemma view_from_value_Inr:
  "view_from_value v = Inr view \<longleftrightarrow> (\<exists>obj. v = Object obj \<and>
     map_of obj (lit ''record_id'') = Some (String (v_record_id view)) \<and>
     map_of obj (lit ''stream_id'') = Some (String (v_stream_id view)) \<and>
     map_of obj (lit ''segment_id'') = Some (String (v_segment_id view)) \<and>
     map_of obj (lit ''seq'') = Some (U64 (v_seq view)) \<and>
     map_of obj (lit ''ts_wall'') = Some (String (v_ts_wall view)) \<and>
     map_of obj (lit ''ts_mono_ns'') = Some (U64 (v_ts_mono_ns view)) \<and>
     map_of obj (lit ''record_type'') = Some (String (v_record_type view)) \<and>
     map_of obj (lit ''prev_hash'') = Some (String (v_prev_hash view)) \<and>
     map_of obj (lit ''record_hash'') = Some (String (v_record_hash view)))"
  unfolding view_from_value_def rbind_eq_Inr ok_or_eq_Inr str_field_Inr u64_field_Inr as_object_Some
  by (auto intro: RecordView.equality)

definition view_of_record :: "Record \<Rightarrow> RecordView" where
  "view_of_record r =
     \<lparr>v_record_id = r_record_id r, v_stream_id = r_stream_id r, v_segment_id = r_segment_id r,
      v_seq = r_seq r, v_ts_wall = r_ts_wall r, v_ts_mono_ns = r_ts_mono_ns r,
      v_record_type = record_type_str (r_record_type r), v_prev_hash = r_prev_hash r,
      v_record_hash = r_record_hash r\<rparr>"

lemma view_from_record: "view_from_value (record_to_json r) = Inr (view_of_record r)"
  unfolding view_from_value_Inr
  by (simp add: record_to_json_def record_members_def lookup_append view_of_record_def
    del: map_of_append)

lemma map_of_remove_member: "j \<noteq> k \<Longrightarrow> map_of (remove_member k kvs) j = map_of kvs j"
  by (induction kvs) (auto simp: remove_member_def)

text \<open>Records with the same canonical content have the same view, the stored hash aside.\<close>

lemma same_canon_StringD: "same_canon (String s) w \<Longrightarrow> w = String s"
  by (auto simp: same_canon_def dest: sym)

lemma same_content_view:
  assumes "same_canon (Object (remove_member (lit ''record_hash'') a))
      (Object (remove_member (lit ''record_hash'') b))"
    and "view_from_value (Object a) = Inr va" and "view_from_value (Object b) = Inr vb"
  shows "vb = va\<lparr>v_record_hash := v_record_hash vb\<rparr>"
proof -
  have f: "rel_option same_canon (map_of a (lit k)) (map_of b (lit k))" if "k \<noteq> ''record_hash''" for k
    using same_canon_members [OF assms(1), of "lit k"] that by (simp add: map_of_remove_member)
  note va = assms(2) [unfolded view_from_value_Inr] and vb = assms(3) [unfolded view_from_value_Inr]
  show ?thesis
    using va vb f [of "''record_id''"] f [of "''stream_id''"] f [of "''segment_id''"] f [of "''seq''"]
      f [of "''ts_wall''"] f [of "''ts_mono_ns''"] f [of "''record_type''"] f [of "''prev_hash''"]
    by (intro RecordView.equality) (auto dest!: same_canon_U64)
qed

section \<open>The record chain is a hash log\<close>

definition own_hash :: "json \<Rightarrow> ustr" where
  "own_hash raw = (case view_from_value raw of Inr view \<Rightarrow> v_record_hash view | Inl e \<Rightarrow> [])"

definition prev_link :: "json \<Rightarrow> ustr option" where
  "prev_link raw = (case view_from_value raw of
     Inr view \<Rightarrow> if v_seq view = 0 then None else Some (v_prev_hash view) | Inl e \<Rightarrow> None)"

definition hash_ok :: "'x ext_scheme \<Rightarrow> json \<Rightarrow> bool" where
  "hash_ok X raw \<longleftrightarrow> wf_json raw \<and> (\<exists>view. view_from_value raw = Inr view \<and>
     compute_hash_of_value X raw = Inr (v_record_hash view))"

definition content :: "json \<Rightarrow> json" where
  "content raw = (case as_object raw of None \<Rightarrow> raw
     | Some obj \<Rightarrow> Object (remove_member (lit ''record_hash'') obj))"

definition same_record :: "json \<Rightarrow> json \<Rightarrow> bool" where
  "same_record a b \<longleftrightarrow> same_canon (content a) (content b) \<and>
     is_ok (view_from_value a) \<and> is_ok (view_from_value b) \<and> own_hash a = own_hash b"

definition no_collision :: "'x ext_scheme \<Rightarrow> json set \<Rightarrow> bool" where
  "no_collision X A \<longleftrightarrow> blake3_distinguishes X (hash_input ` A) \<and> (\<forall>a \<in> A. hash_ok X a)"

lemma hash_ok_object: "hash_ok X raw \<Longrightarrow> \<exists>obj. raw = Object obj"
  by (auto simp: hash_ok_def view_from_value_Inr)

lemma same_hash_same_record:
  assumes "hash_ok X a" "hash_ok X b" "own_hash a = own_hash b"
    and "blake3_distinguishes X {hash_input a, hash_input b}"
  shows "same_record a b"
proof -
  from hash_ok_object [OF assms(1)] hash_ok_object [OF assms(2)] obtain ka kb
    where o: "a = Object ka" "b = Object kb" by blast
  from assms(1-3) o have "same_canon (content a) (content b)"
    using same_hash_same_canon [of ka kb X "own_hash a"] assms(4)
    by (auto simp: hash_ok_def own_hash_def content_def)
  with assms show ?thesis by (auto simp: same_record_def hash_ok_def)
qed

lemma same_record_view:
  assumes "same_record a b" and "view_from_value a = Inr va" and "view_from_value b = Inr vb"
  shows "va = vb"
proof -
  from assms(2,3) obtain ka kb where o: "a = Object ka" "b = Object kb"
    by (auto simp: view_from_value_Inr)
  from assms o have "vb = va\<lparr>v_record_hash := v_record_hash vb\<rparr>"
    by (intro same_content_view [of ka kb]) (simp_all add: same_record_def content_def)
  moreover from assms have "v_record_hash va = v_record_hash vb"
    by (simp add: same_record_def own_hash_def)
  ultimately show ?thesis by (cases va; cases vb) simp
qed

interpretation records: hash_log own_hash prev_link same_record "no_collision X" for X
proof
  show "same_record a b" if "no_collision X A" "a \<in> A" "b \<in> A" "own_hash a = own_hash b" for A a b
  proof (rule same_hash_same_record)
    show "blake3_distinguishes X {hash_input a, hash_input b}"
      using that by (auto simp: no_collision_def elim: blake3_distinguishes_mono)
  qed (use that in \<open>auto simp: no_collision_def\<close>)
  show "prev_link a = prev_link b" if "same_record a b" for a b
  proof -
    from that obtain va vb where v: "view_from_value a = Inr va" "view_from_value b = Inr vb"
      by (auto simp: same_record_def is_ok_iff)
    with same_record_view [OF that v] show ?thesis by (simp add: prev_link_def)
  qed
  show "no_collision X B" if "no_collision X A" "B \<subseteq> A" for A B
    using that by (auto simp: no_collision_def elim!: blake3_distinguishes_mono)
qed

section \<open>Clean steps\<close>

lemma verify_next_Inr:
  "verify_next X sv raw = Inr (sv', fs) \<longleftrightarrow>
     (\<exists>view computed. view_from_value raw = Inr view \<and> compute_hash_of_value X raw = Inr computed \<and>
        sv' = advance X sv view \<and>
        fs = check_stream sv view @ check_hash view computed @ check_prev X sv view)"
  by (auto simp: verify_next_def rbind_eq_Inr)

lemma check_nil [simp]:
  "check_stream sv view = [] \<longleftrightarrow> v_stream_id view = sv_stream_id sv"
  "check_hash view computed = [] \<longleftrightarrow> computed = v_record_hash view"
  "check_first sv view = [] \<longleftrightarrow> (v_seq view = 0 \<longrightarrow> v_prev_hash view = sv_genesis sv)"
  "check_seq prev view = [] \<longleftrightarrow> v_seq prev < v_seq view \<and>
     (v_segment_id prev = v_segment_id view \<longrightarrow> v_seq view = v_seq prev + 1)"
  "check_link X prev view = [] \<longleftrightarrow> v_prev_hash view = v_record_hash prev"
  "check_mono prev view = [] \<longleftrightarrow>
     (v_segment_id prev = v_segment_id view \<longrightarrow> v_ts_mono_ns prev \<le> v_ts_mono_ns view)"
  by (auto simp: check_stream_def check_hash_def check_first_def check_seq_def check_link_def
      check_mono_def)

lemma advance_simps [simp]:
  "sv_prev (advance X sv view) = Some view"
  "sv_stream_id (advance X sv view) = sv_stream_id sv"
  "sv_genesis (advance X sv view) = sv_genesis sv"
  "sv_records_verified (advance X sv view) = sv_records_verified sv + 1"
  by (simp_all add: advance_def)

text \<open>What the checks of one step amount to.\<close>

definition extends :: "'x ext_scheme \<Rightarrow> StreamVerifier \<Rightarrow> json \<Rightarrow> RecordView \<Rightarrow> bool" where
  "extends X sv raw view \<longleftrightarrow>
     view_from_value raw = Inr view \<and>
     compute_hash_of_value X raw = Inr (v_record_hash view) \<and>
     v_stream_id view = sv_stream_id sv \<and>
     (case sv_prev sv of
        None \<Rightarrow> v_seq view = 0 \<longrightarrow> v_prev_hash view = sv_genesis sv
      | Some prev \<Rightarrow> v_prev_hash view = v_record_hash prev \<and> uint (v_seq prev) < uint (v_seq view) \<and>
          (v_segment_id prev = v_segment_id view \<longrightarrow>
             uint (v_seq view) = uint (v_seq prev) + 1 \<and> v_ts_mono_ns prev \<le> v_ts_mono_ns view) \<and>
          check_wall X (sv_prev_wall_ms sv) prev view = [])"

lemma uint_succ: "a < b \<Longrightarrow> uint (a + 1 :: 'a::len word) = uint a + 1"
proof -
  assume "a < b"
  then have "uint a + 1 < 2 ^ LENGTH('a)" using uint_lt2p [of b] unfolding word_less_def by linarith
  then show ?thesis by (simp add: uint_word_ariths)
qed

lemma check_prev_nil:
  "check_prev X sv view = [] \<longleftrightarrow> (case sv_prev sv of
      None \<Rightarrow> v_seq view = 0 \<longrightarrow> v_prev_hash view = sv_genesis sv
    | Some prev \<Rightarrow> v_prev_hash view = v_record_hash prev \<and> uint (v_seq prev) < uint (v_seq view) \<and>
        (v_segment_id prev = v_segment_id view \<longrightarrow>
           uint (v_seq view) = uint (v_seq prev) + 1 \<and> v_ts_mono_ns prev \<le> v_ts_mono_ns view) \<and>
        check_wall X (sv_prev_wall_ms sv) prev view = [])"
proof (cases "sv_prev sv")
  case (Some p)
  have "v_seq p < v_seq view \<Longrightarrow> v_seq view = v_seq p + 1 \<longleftrightarrow> uint (v_seq view) = uint (v_seq p) + 1"
    by (metis uint_succ word_uint_eq_iff)
  with Some show ?thesis by (auto simp: check_prev_def word_less_def)
qed (simp add: check_prev_def)

lemma verify_next_clean_iff:
  "verify_next X sv raw = Inr (sv', []) \<longleftrightarrow> (\<exists>view. extends X sv raw view \<and> sv' = advance X sv view)"
  unfolding verify_next_Inr extends_def check_prev_nil [symmetric] by auto

section \<open>Runs of the verifier\<close>

fun verify_records ::
  "'x ext_scheme \<Rightarrow> StreamVerifier \<Rightarrow> json list \<Rightarrow> (StreamVerifier \<times> ChainFinding list) result" where
  "verify_records X sv [] = Inr (sv, [])"
| "verify_records X sv (raw # raws) =
     rbind (verify_next X sv raw) (\<lambda>(sv1, fs).
     rbind (verify_records X sv1 raws) (\<lambda>(sv2, gs). Inr (sv2, fs @ gs)))"

lemma verify_records_clean_Cons:
  "verify_records X sv (raw # raws) = Inr (sv', []) \<longleftrightarrow>
     (\<exists>view. extends X sv raw view \<and> verify_records X (advance X sv view) raws = Inr (sv', []))"
proof -
  have "verify_records X sv (raw # raws) = Inr (sv', []) \<longleftrightarrow>
     (\<exists>sv1. verify_next X sv raw = Inr (sv1, []) \<and> verify_records X sv1 raws = Inr (sv', []))"
    by (fastforce simp: rbind_eq_Inr)
  then show ?thesis by (auto simp: verify_next_clean_iff)
qed

lemma verify_records_head:
  "verify_records X sv raws = Inr (sv', []) \<Longrightarrow>
   verifier_head sv' = (if raws = [] then verifier_head sv else Some (own_hash (last raws)))"
proof (induction raws arbitrary: sv)
  case (Cons raw raws)
  then obtain view where "extends X sv raw view"
    and "verify_records X (advance X sv view) raws = Inr (sv', [])"
    by (auto simp: verify_records_clean_Cons simp del: verify_records.simps)
  with Cons.IH [of "advance X sv view"] show ?case
    by (auto simp: verifier_head_def own_hash_def extends_def)
qed simp

lemma verify_records_hash_ok:
  "verify_records X sv raws = Inr (sv', []) \<Longrightarrow> list_all wf_json raws \<Longrightarrow> list_all (hash_ok X) raws"
  by (induction raws arbitrary: sv)
    (auto simp: verify_records_clean_Cons extends_def hash_ok_def simp del: verify_records.simps(2))

lemma verify_records_follows:
  "verify_records X sv raws = Inr (sv', []) \<Longrightarrow> sv_prev sv = Some p \<Longrightarrow>
   follows own_hash prev_link (Some (v_record_hash p)) raws"
proof (induction raws arbitrary: sv p)
  case (Cons raw raws)
  then obtain view where e: "extends X sv raw view"
    and r: "verify_records X (advance X sv view) raws = Inr (sv', [])"
    by (auto simp: verify_records_clean_Cons simp del: verify_records.simps)
  from e Cons.prems(2) have "uint (v_seq p) < uint (v_seq view)" by (simp add: extends_def)
  then have "v_seq view \<noteq> 0" using uint_nonnegative [of "v_seq p"] by auto
  with e Cons.prems(2) Cons.IH [OF r] show ?case
    by (simp add: extends_def own_hash_def prev_link_def)
qed simp

definition starts_at_zero :: "json list \<Rightarrow> bool" where
  "starts_at_zero raws = (case raws of [] \<Rightarrow> True | raw # _ \<Rightarrow> get raw (lit ''seq'') = Some (U64 0))"

lemma verify_records_linked:
  assumes "verify_records X sv raws = Inr (sv', [])" and "sv_prev sv = None" and "starts_at_zero raws"
  shows "linked_log own_hash prev_link raws"
proof (cases raws)
  case (Cons raw rest)
  with assms(1) obtain view where e: "extends X sv raw view"
    and r: "verify_records X (advance X sv view) rest = Inr (sv', [])"
    by (auto simp: verify_records_clean_Cons simp del: verify_records.simps)
  from e have v: "view_from_value raw = Inr view" by (simp add: extends_def)
  with assms(3) Cons have "v_seq view = 0"
    by (auto simp: starts_at_zero_def get_def view_from_value_Inr)
  with v verify_records_follows [OF r, of view] Cons show ?thesis
    by (simp add: prev_link_def own_hash_def)
qed simp

section \<open>The writer and the verifier in step\<close>

definition clock_step :: "'x ext_scheme \<Rightarrow> Record \<Rightarrow> Record \<Rightarrow> bool" where
  "clock_step X p r \<longleftrightarrow>
     (r_segment_id p = r_segment_id r \<longrightarrow> r_ts_mono_ns p \<le> r_ts_mono_ns r) \<and>
     (case (parse_wall X (r_ts_wall p), parse_wall X (r_ts_wall r)) of
        (Inr a, Inr b) \<Rightarrow> timestamp_millis a - WALL_TOLERANCE_MS \<le> timestamp_millis b \<or>
           r_record_type p = ClockAnomaly \<or> r_record_type r = ClockAnomaly
      | _ \<Rightarrow> False)"

definition clocks_ok :: "'x ext_scheme \<Rightarrow> Record list \<Rightarrow> bool" where
  "clocks_ok X rs \<longleftrightarrow> list_all (\<lambda>r. is_ok (parse_wall X (r_ts_wall r))) rs \<and> successively (clock_step X) rs"

fun append_all :: "'x ext_scheme \<Rightarrow> ChainHead \<Rightarrow> Record list \<Rightarrow> (ChainHead \<times> Record list) result" where
  "append_all X h [] = Inr (h, [])"
| "append_all X h (r # rs) =
     (case chain_append X h r of
        (_, Inl e) \<Rightarrow> Inl e
      | ((h', r'), Inr _) \<Rightarrow> rbind (append_all X h' rs) (\<lambda>(h'', rs'). Inr (h'', r' # rs')))"

lemma chain_append_Inr:
  "chain_append X h r = ((h', r'), Inr u) \<longleftrightarrow> r_stream_id r = x_ulid_str X (h_stream_id h) \<and>
     (\<exists>hash. compute_hash X (r\<lparr>r_seq := next_seq h, r_prev_hash := h_head_hash h\<rparr>) = Inr hash \<and>
       r' = r\<lparr>r_seq := next_seq h, r_prev_hash := h_head_hash h, r_record_hash := hash\<rparr> \<and>
       h' = h\<lparr>h_head_hash := hash, h_last_seq := Some (next_seq h)\<rparr>)"
  by (auto simp: chain_append_def Let_def finalize_def rbind_eq_Inr split: sum.splits)

lemma compute_hash_safe_seq:
  assumes "compute_hash X r = Inr h"
  shows "uint (r_seq r) \<le> 2 ^ 53 - 1"
proof -
  from assms have "is_ok (to_jcs_bytes (Object (record_content r)))"
    by (auto simp: compute_hash_content rbind_eq_Inr is_ok_iff)
  moreover have "PosInt (r_seq r) \<in> set (numbers (Object (record_content r)))"
    by (simp add: record_content_def record_members_def)
  ultimately have "safe_int (PosInt (r_seq r)) \<noteq> None"
    unfolding to_jcs_bytes_ok list_ex_iff by (metis (no_types))
  then show ?thesis by (simp split: if_splits)
qed

text \<open>The writer's head and a verifier that has seen the records so far agree.\<close>

definition in_step :: "'x ext_scheme \<Rightarrow> Record option \<Rightarrow> ChainHead \<Rightarrow> StreamVerifier \<Rightarrow> bool" where
  "in_step X last_record h sv \<longleftrightarrow>
     sv_stream_id sv = x_ulid_str X (h_stream_id h) \<and>
     sv_genesis sv = genesis_prev_hash X (h_stream_id h) \<and>
     (case last_record of
        None \<Rightarrow> sv_prev sv = None \<and> sv_prev_wall_ms sv = None \<and> h_last_seq h = None \<and>
          h_head_hash h = genesis_prev_hash X (h_stream_id h)
      | Some r \<Rightarrow> sv_prev sv = Some (view_of_record r) \<and> h_last_seq h = Some (r_seq r) \<and>
          h_head_hash h = r_record_hash r \<and> uint (r_seq r) \<le> 2 ^ 53 - 1 \<and>
          (\<exists>t. parse_wall X (r_ts_wall r) = Inr t \<and> sv_prev_wall_ms sv = Some (timestamp_millis t)))"

lemma view_of_record_simps [simp]:
  "v_stream_id (view_of_record r) = r_stream_id r"
  "v_segment_id (view_of_record r) = r_segment_id r"
  "v_seq (view_of_record r) = r_seq r"
  "v_ts_wall (view_of_record r) = r_ts_wall r"
  "v_ts_mono_ns (view_of_record r) = r_ts_mono_ns r"
  "v_record_type (view_of_record r) = record_type_str (r_record_type r)"
  "v_prev_hash (view_of_record r) = r_prev_hash r"
  "v_record_hash (view_of_record r) = r_record_hash r"
  by (simp_all add: view_of_record_def)

lemma clock_anomaly_str: "record_type_str t = lit ''clock_anomaly'' \<longleftrightarrow> t = ClockAnomaly"
  using strs_inj(1) [of t ClockAnomaly] by simp

lemma clock_step_check_wall:
  assumes "clock_step X p r" and "parse_wall X (r_ts_wall p) = Inr t"
  shows "check_wall X (Some (timestamp_millis t)) (view_of_record p) (view_of_record r) = []"
  using assms by (auto simp: clock_step_def check_wall_def clock_anomaly_str Let_def split: sum.splits)

lemma next_seq_succ: "h_last_seq h = Some s \<Longrightarrow> uint s \<le> 2 ^ 53 - 1 \<Longrightarrow> uint (next_seq h) = uint s + 1"
  using uint_succ [of s "2 ^ 53"] by (simp add: next_seq_def word_less_def)

lemma append_in_step:
  assumes "in_step X last_record h sv" and "chain_append X h r = ((h', r'), Inr u)"
    and "is_ok (parse_wall X (r_ts_wall r))"
    and "case last_record of None \<Rightarrow> True | Some p \<Rightarrow> clock_step X p r"
  shows "\<exists>sv'. verify_next X sv (record_to_json r') = Inr (sv', []) \<and> in_step X (Some r') h' sv'"
proof -
  from assms(2) obtain hash where sid: "r_stream_id r = x_ulid_str X (h_stream_id h)"
    and hash: "compute_hash X r' = Inr hash" "r_record_hash r' = hash"
    and r': "r' = r\<lparr>r_seq := next_seq h, r_prev_hash := h_head_hash h, r_record_hash := hash\<rparr>"
    and h': "h' = h\<lparr>h_head_hash := hash, h_last_seq := Some (next_seq h)\<rparr>"
    by (auto simp: chain_append_Inr)
  from assms(3) obtain t where t: "parse_wall X (r_ts_wall r) = Inr t" by (auto simp: is_ok_iff)
  have same: "clock_step X p r' = clock_step X p r" for p
    by (simp add: r' clock_step_def split: sum.splits)
  have wall: "check_wall X (sv_prev_wall_ms sv) (view_of_record p) (view_of_record r') = []"
    if "last_record = Some p" for p
    using that assms(1,4) clock_step_check_wall [of X p r'] by (auto simp: in_step_def same)
  have "extends X sv (record_to_json r') (view_of_record r')"
    using assms(1,4) wall hash sid
    by (auto simp: extends_def view_from_record compute_hash_def [symmetric] in_step_def r'
      clock_step_def next_seq_succ split: option.splits)
  moreover have "in_step X (Some r') h' (advance X sv (view_of_record r'))"
    using assms(1) t compute_hash_safe_seq [OF hash(1)]
    by (auto simp: in_step_def r' h' advance_def)
  ultimately show ?thesis by (auto simp: verify_next_clean_iff)
qed

lemma append_all_in_step:
  assumes "append_all X h rs = Inr (h', out)" and "in_step X last_record h sv"
    and "list_all (\<lambda>r. is_ok (parse_wall X (r_ts_wall r))) rs"
    and "successively (clock_step X) rs"
    and "\<And>p. last_record = Some p \<Longrightarrow> rs \<noteq> [] \<Longrightarrow> clock_step X p (hd rs)"
  shows "\<exists>sv'. verify_records X sv (map record_to_json out) = Inr (sv', []) \<and> length out = length rs \<and>
    in_step X (if out = [] then last_record else Some (last out)) h' sv'"
  using assms
proof (induction rs arbitrary: h sv last_record out)
  case (Cons r rs)
  then obtain h1 r1 out1 where a: "chain_append X h r = ((h1, r1), Inr ())"
    and rest: "append_all X h1 rs = Inr (h', out1)" and out: "out = r1 # out1"
    by (auto simp: rbind_eq_Inr split: prod.splits sum.splits)
  have "case last_record of None \<Rightarrow> True | Some p \<Rightarrow> clock_step X p r"
    using Cons.prems(5) by (cases last_record) auto
  from append_in_step [OF Cons.prems(2) a _ this] Cons.prems(3) obtain sv1
    where v: "verify_next X sv (record_to_json r1) = Inr (sv1, [])" and s: "in_step X (Some r1) h1 sv1"
    by auto
  have same: "clock_step X r1 q = clock_step X r q" for q
    using a by (auto simp: chain_append_Inr clock_step_def split: sum.splits)
  from Cons.IH [OF rest s] Cons.prems(3,4) same obtain sv2
    where "verify_records X sv1 (map record_to_json out1) = Inr (sv2, [])" "length out1 = length rs"
      "in_step X (if out1 = [] then Some r1 else Some (last out1)) h' sv2"
    by (cases rs) auto
  with v out show ?case by auto
qed auto


lemma genesis_in_step:
  "ulid_law X \<Longrightarrow> \<exists>sv. verifier_new X (x_ulid_str X sid) = Inr sv \<and> in_step X None (chain_genesis X sid) sv"
  by (auto simp: ulid_law_def verifier_new_def in_step_def chain_genesis_def)

section \<open>A concrete stream\<close>

lemma demo_compute_hash:
  "uint n \<le> 2 ^ 53 - 1 \<Longrightarrow>
   \<exists>h. compute_hash X ((demo_record None)\<lparr>r_seq := n, r_prev_hash := p\<rparr>) = Inr h"
proof -
  assume "uint n \<le> 2 ^ 53 - 1"
  then have "is_ok (to_jcs_bytes (Object (record_content ((demo_record None)\<lparr>r_seq := n, r_prev_hash := p\<rparr>))))"
    by (simp add: to_jcs_bytes_ok record_content_def demo_record_def json_defs)
  then show ?thesis by (auto simp: compute_hash_content is_ok_iff)
qed

lemma demo_append:
  assumes "x_ulid_str X (h_stream_id h) = lit ''5''" and "uint (next_seq h) \<le> 2 ^ 53 - 1"
  shows "\<exists>h' r. chain_append X h (demo_record None) = ((h', r), Inr ()) \<and>
    h_stream_id h' = h_stream_id h \<and> h_last_seq h' = Some (next_seq h)"
  using demo_compute_hash [OF assms(2), of X "h_head_hash h"] assms(1)
  by (auto simp: chain_append_Inr demo_record_def)

lemma demo_chain:
  assumes "x_ulid_str X 5 = lit ''5''"
  shows "\<exists>h r1 r2 r3. append_all X (chain_genesis X 5) (replicate 3 (demo_record None)) = Inr (h, [r1, r2, r3])"
proof -
  from assms demo_append [of X "chain_genesis X 5"] obtain h1 r1
    where 1: "chain_append X (chain_genesis X 5) (demo_record None) = ((h1, r1), Inr ())"
      "h_stream_id h1 = 5" "h_last_seq h1 = Some 0"
    by (auto simp: chain_genesis_def next_seq_def)
  from assms 1 demo_append [of X h1] obtain h2 r2
    where 2: "chain_append X h1 (demo_record None) = ((h2, r2), Inr ())"
      "h_stream_id h2 = 5" "h_last_seq h2 = Some 1"
    by (auto simp: next_seq_def)
  from assms 2 demo_append [of X h2] obtain h3 r3
    where "chain_append X h2 (demo_record None) = ((h3, r3), Inr ())"
    by (auto simp: next_seq_def)
  with 1 2 show ?thesis by (simp add: numeral_3_eq_3)
qed

lemma demo_clocks:
  assumes "x_rfc3339 X (lit ''1000000000'') = Inr t"
  shows "clocks_ok X (replicate 3 (demo_record None))"
  using assms by (simp add: clocks_ok_def clock_step_def numeral_3_eq_3 demo_record_def parse_wall_def
    WALL_TOLERANCE_MS_def)

lemma demo_texts:
  "dec_digits 5 = lit ''5''" "demo_number (lit ''1000000000'') = Inr 1000000000"
  by (simp_all add: demo_eval)

lemma get_seq: "get (record_to_json r) (lit ''seq'') = Some (U64 (r_seq r))"
  using view_from_record [of r]
  by (auto simp: view_from_value_Inr get_def record_to_json_def)

lemma wf_record_link:
  assumes "wf_record r" and "is_ustr p" and "is_ustr h"
  shows "wf_record (r\<lparr>r_seq := n, r_prev_hash := p, r_record_hash := h\<rparr>)"
  using assms distinct_record_members [of "r\<lparr>r_seq := n, r_prev_hash := p, r_record_hash := h\<rparr>"]
  unfolding wf_record_def record_to_json_def wf_json.simps
  by (simp add: record_members_def list_all_append)

lemma wf_record_seq: "wf_record r \<Longrightarrow> wf_record (r\<lparr>r_seq := n\<rparr>)"
  using distinct_record_members [of "r\<lparr>r_seq := n\<rparr>"]
  unfolding wf_record_def record_to_json_def wf_json.simps
  by (simp add: record_members_def list_all_append)

lemma is_ustr_hashes [simp]:
  "is_ustr (blake3_hex X b)" "is_ustr (genesis_prev_hash X sid)"
  by (simp_all add: blake3_hex_def genesis_prev_hash_def)

lemma append_wf:
  "append_all X h rs = Inr (h', out) \<Longrightarrow> is_ustr (h_head_hash h) \<Longrightarrow> list_all wf_record rs \<Longrightarrow>
   list_all wf_record out"
proof (induction rs arbitrary: h out)
  case (Cons r rs)
  then obtain h1 r1 out1 where a: "chain_append X h r = ((h1, r1), Inr ())"
    and rest: "append_all X h1 rs = Inr (h', out1)" and out: "out = r1 # out1"
    by (auto simp: rbind_eq_Inr split: prod.splits sum.splits)
  from a obtain hash where r1: "r1 = r\<lparr>r_seq := next_seq h, r_prev_hash := h_head_hash h, r_record_hash := hash\<rparr>"
    and h1: "h_head_hash h1 = hash" and v: "is_ustr hash"
    by (auto simp: chain_append_Inr compute_hash_def compute_hash_of_value_Inr)
  with Cons.prems have "wf_record r1" by (simp add: wf_record_link)
  with Cons.IH [OF rest] h1 v out Cons.prems show ?case by simp
qed simp

lemma wide_chain:
  obtains h sv sv1 sv2 sv3 p a b where
    "append_all wide_ext (chain_genesis wide_ext 5) (replicate 3 (demo_record None)) = Inr (h, [p, a, b])"
    "verifier_new wide_ext (lit ''5'') = Inr sv"
    "verify_next wide_ext sv (record_to_json p) = Inr (sv1, [])"
    "verify_next wide_ext sv1 (record_to_json a) = Inr (sv2, [])"
    "verify_next wide_ext sv2 (record_to_json b) = Inr (sv3, [])"
    "list_all wf_record [p, a, b]"
    "\<exists>q k. p = (demo_record None)\<lparr>r_seq := 0, r_prev_hash := q, r_record_hash := k\<rparr>"
proof -
  obtain h p a b where c: "append_all wide_ext (chain_genesis wide_ext 5)
      (replicate 3 (demo_record None)) = Inr (h, [p, a, b])"
    using demo_chain [of wide_ext] by (auto simp: demo_texts)
  obtain sv where sv: "verifier_new wide_ext (lit ''5'') = Inr sv"
      "in_step wide_ext None (chain_genesis wide_ext 5) sv"
    using genesis_in_step [OF wide_ulid_law, of 5] by (auto simp: demo_texts)
  have "clocks_ok wide_ext (replicate 3 (demo_record None))"
    by (rule demo_clocks) (simp add: demo_texts)
  then obtain sv3 where "verify_records wide_ext sv (map record_to_json [p, a, b]) = Inr (sv3, [])"
    using append_all_in_step [OF c sv(2)] by (auto simp: clocks_ok_def)
  then obtain sv1 sv2 where "verify_next wide_ext sv (record_to_json p) = Inr (sv1, [])"
    "verify_next wide_ext sv1 (record_to_json a) = Inr (sv2, [])"
    "verify_next wide_ext sv2 (record_to_json b) = Inr (sv3, [])"
    by (auto simp: rbind_eq_Inr)
  moreover have "list_all wf_record [p, a, b]"
    by (rule append_wf [OF c]) (simp add: chain_genesis_def, simp add: list_all_iff wf_demo_record)
  moreover have "\<exists>q k. p = (demo_record None)\<lparr>r_seq := 0, r_prev_hash := q, r_record_hash := k\<rparr>"
    using c by (auto simp: numeral_3_eq_3 chain_append_Inr chain_genesis_def next_seq_def rbind_eq_Inr
      split: prod.splits sum.splits)
  ultimately show ?thesis using c sv(1) that by blast
qed

section \<open>Typed heads\<close>

definition is_hash_text :: "ustr \<Rightarrow> bool" where
  "is_hash_text s \<longleftrightarrow> length s = 64 \<and> list_all (\<lambda>c. (48 \<le> c \<and> c \<le> 57) \<or> (97 \<le> c \<and> c \<le> 102)) s"

definition head_typed :: "ChainHead \<Rightarrow> bool" where
  "head_typed h \<longleftrightarrow> is_hash_text (h_head_hash h) \<and> (\<forall>s. h_last_seq h = Some s \<longrightarrow> uint s \<le> 2 ^ 53 - 1)"

definition link_typed :: "Record \<Rightarrow> bool" where
  "link_typed r \<longleftrightarrow> is_hash_text (r_prev_hash r) \<and> is_hash_text (r_record_hash r) \<and> uint (r_seq r) \<le> 2 ^ 53 - 1"

lemma hash_text_hex: "length b = 32 \<Longrightarrow> is_hash_text (hex_encode b)"
proof -
  have "hex_digit n \<in> {48..57} \<union> {97..102}" if "n < 16" for n using that by (auto simp: hex_digit_def)
  then have "list_all (\<lambda>c. (48 \<le> c \<and> c \<le> 57) \<or> (97 \<le> c \<and> c \<le> 102)) (hex_encode b)"
    by (induction b) (auto simp: hex_byte_def unat_nibbles)
  then show "length b = 32 \<Longrightarrow> is_hash_text (hex_encode b)" by (simp add: is_hash_text_def)
qed

lemma genesis_typed: "digest32 X \<Longrightarrow> head_typed (chain_genesis X sid)"
  by (simp add: head_typed_def chain_genesis_def genesis_prev_hash_def blake3_hex_def hash_text_hex digest32_blake3)

lemma append_typed:
  assumes "digest32 X" and "head_typed h" and "chain_append X h r = ((h', r'), res)"
  shows "head_typed h' \<and> (if is_ok res then link_typed r' \<and> (wf_record r \<longrightarrow> wf_record r') else h' = h)"
proof (cases res)
  case (Inl e)
  with assms show ?thesis by (auto simp: chain_append_def Let_def split: if_splits sum.splits)
next
  case (Inr u)
  with assms(3) obtain hash where hash: "compute_hash X r' = Inr hash" "r_record_hash r' = hash"
    and r': "r' = r\<lparr>r_seq := next_seq h, r_prev_hash := h_head_hash h, r_record_hash := hash\<rparr>"
    and h': "h' = h\<lparr>h_head_hash := hash, h_last_seq := Some (next_seq h)\<rparr>"
    by (auto simp: chain_append_Inr)
  have t: "is_hash_text hash" "is_ustr hash"
    using hash(1) assms(1) by (auto simp: compute_hash_content rbind_eq_Inr blake3_hex_def hash_text_hex digest32_blake3)
  have "is_ustr (h_head_hash h)" using assms(2) by (auto simp: head_typed_def is_hash_text_def list_all_iff is_char_def)
  with t have "wf_record r \<Longrightarrow> wf_record r'" unfolding r' by (rule_tac wf_record_link) simp_all
  with t assms(2) Inr compute_hash_safe_seq [OF hash(1)] show ?thesis by (simp add: head_typed_def link_typed_def r' h')
qed

section \<open>Streams without findings\<close>

text \<open>
  When the records of a stream are in order, stated over neighbouring records and without the verifier: the hashes are
  BLAKE3 over the canonical content, numbers are compared as integers, and the wall clock may go back by two seconds at
  most, unless one of the two records reports a clock anomaly or the earlier time cannot be read.
\<close>

definition wall_ms :: "'x ext_scheme \<Rightarrow> RecordView \<Rightarrow> int option" where
  "wall_ms X view = (case parse_wall X (v_ts_wall view) of Inl e \<Rightarrow> None | Inr t \<Rightarrow> Some (timestamp_millis t))"

definition sealed :: "'x ext_scheme \<Rightarrow> json \<Rightarrow> RecordView \<Rightarrow> bool" where
  "sealed X raw view \<longleftrightarrow> view_from_value raw = Inr view \<and>
     (\<exists>bytes. to_jcs_bytes (content raw) = Inr bytes \<and> v_record_hash view = hex_encode (x_blake3 X bytes))"

definition succeeds :: "'x ext_scheme \<Rightarrow> RecordView \<Rightarrow> RecordView \<Rightarrow> bool" where
  "succeeds X p v \<longleftrightarrow> v_prev_hash v = v_record_hash p \<and> uint (v_seq p) < uint (v_seq v) \<and>
     (v_segment_id p = v_segment_id v \<longrightarrow>
        uint (v_seq v) = uint (v_seq p) + 1 \<and> uint (v_ts_mono_ns p) \<le> uint (v_ts_mono_ns v)) \<and>
     (\<exists>ms. wall_ms X v = Some ms \<and> (case wall_ms X p of None \<Rightarrow> True | Some before \<Rightarrow>
        before - 2000 \<le> ms \<or> lit ''clock_anomaly'' \<in> {v_record_type p, v_record_type v}))"

definition sound_stream :: "'x ext_scheme \<Rightarrow> ustr \<Rightarrow> ustr \<Rightarrow> json list \<Rightarrow> RecordView list \<Rightarrow> bool" where
  "sound_stream X stream_id genesis raws views \<longleftrightarrow>
     list_all2 (sealed X) raws views \<and> list_all (\<lambda>v. v_stream_id v = stream_id) views \<and>
     (views \<noteq> [] \<and> v_seq (hd views) = 0 \<longrightarrow> v_prev_hash (hd views) = genesis) \<and>
     successively (succeeds X) views"

lemma sealed_iff:
  "sealed X raw view \<longleftrightarrow> view_from_value raw = Inr view \<and> compute_hash_of_value X raw = Inr (v_record_hash view)"
  by (auto simp: sealed_def content_def compute_hash_of_value_def rbind_eq_Inr view_from_value_Inr blake3_hex_def)

lemma check_wall_nil:
  "check_wall X (wall_ms X p) p v = [] \<longleftrightarrow> (\<exists>ms. wall_ms X v = Some ms \<and> (case wall_ms X p of None \<Rightarrow> True | Some before \<Rightarrow>
     before - 2000 \<le> ms \<or> lit ''clock_anomaly'' \<in> {v_record_type p, v_record_type v}))"
  by (auto simp: check_wall_def wall_ms_def WALL_TOLERANCE_MS_def Let_def split: sum.splits)

lemma extends_succeeds:
  assumes "sv_prev sv = Some p" and "sv_prev_wall_ms sv = wall_ms X p"
  shows "extends X sv raw v \<longleftrightarrow> sealed X raw v \<and> v_stream_id v = sv_stream_id sv \<and> succeeds X p v"
  using assms by (auto simp: extends_def sealed_iff succeeds_def check_wall_nil word_le_def)

definition stands_at :: "'x ext_scheme \<Rightarrow> StreamVerifier \<Rightarrow> RecordView \<Rightarrow> nat \<Rightarrow> StreamVerifier" where
  "stands_at X sv v n = sv\<lparr>sv_prev := Some v, sv_prev_wall_ms := wall_ms X v,
     sv_records_verified := sv_records_verified sv + of_nat n\<rparr>"

lemma stands_at_simps [simp]:
  "sv_prev (stands_at X sv v n) = Some v" "sv_prev_wall_ms (stands_at X sv v n) = wall_ms X v"
  "sv_stream_id (stands_at X sv v n) = sv_stream_id sv"
  "stands_at X (stands_at X sv v m) w n = stands_at X sv w (m + n)"
  by (simp_all add: stands_at_def add.assoc)

lemma advance_succeeds: "succeeds X p v \<or> sv_prev_wall_ms sv = None \<Longrightarrow> advance X sv v = stands_at X sv v (Suc 0)"
  by (auto simp: succeeds_def advance_def wall_ms_def stands_at_def split: sum.splits)

lemma ex_Cons_views: "(\<exists>views. (\<exists>z zs. views = z # zs \<and> R z zs) \<and> Q views) \<longleftrightarrow> (\<exists>z zs. R z zs \<and> Q (z # zs))"
  by auto

lemma clean_from:
  "verify_records X (stands_at X sv p n) raws = Inr (sv', []) \<longleftrightarrow> (\<exists>views. list_all2 (sealed X) raws views \<and>
     list_all (\<lambda>v. v_stream_id v = sv_stream_id sv) views \<and> successively (succeeds X) (p # views) \<and>
     sv' = stands_at X sv (last (p # views)) (n + length raws))"
proof (induction raws arbitrary: p n)
  case (Cons raw raws)
  have run: "verify_records X (stands_at X sv p n) (raw # raws) = Inr (sv', []) \<longleftrightarrow> (\<exists>v. sealed X raw v \<and>
      v_stream_id v = sv_stream_id sv \<and> succeeds X p v \<and> verify_records X (stands_at X sv v (Suc n)) raws = Inr (sv', []))"
    unfolding verify_records_clean_Cons
    using advance_succeeds [of X p _ "stands_at X sv p n"] extends_succeeds [of "stands_at X sv p n" p X raw]
    by auto
  show ?case unfolding run Cons.IH list_all2_Cons1 ex_Cons_views by (rule iff_exI) (auto simp: last_ConsR simp del: last.simps)
qed auto

section \<open>Properties\<close>

text \<open>
  C33: The verifier reports nothing on a stream exactly when the stream is in order. A run of a new verifier over
  any records ends without error and without a finding if and only if the stream id parses, every record
  has the chain fields, stores the BLAKE3 hash of its canonical content and names the stream, a first record with
  number zero links to the genesis hash, and each record links to the hash of the one before it, has a larger
  number (in the same segment: the next one, with a monotonic clock that does not go back), and a readable wall
  time that is at most two seconds earlier, unless one of the two is a \<open>clock_anomaly\<close> record or the time
  of the first could not be read. Numbers are compared as integers: the code's addition does not wrap. The state
  that the verifier ends in is given exactly.
\<close>

theorem clean_run_iff_sound_stream:
  "(\<exists>sv. verifier_new X stream_id = Inr sv \<and> verify_records X sv raws = Inr (sv', [])) \<longleftrightarrow>
   (\<exists>ulid views. x_ulid_parse X stream_id = Inr ulid \<and>
      sound_stream X stream_id (genesis_prev_hash X ulid) raws views \<and>
      sv' = \<lparr>sv_stream_id = stream_id, sv_genesis = genesis_prev_hash X ulid,
             sv_prev = (if views = [] then None else Some (last views)),
             sv_prev_wall_ms = (if views = [] then None else wall_ms X (last views)),
             sv_records_verified = of_nat (length raws)\<rparr>)"
proof (cases "x_ulid_parse X stream_id")
  case (Inr ulid)
  let ?sv = "\<lparr>sv_stream_id = stream_id, sv_genesis = genesis_prev_hash X ulid, sv_prev = None, sv_prev_wall_ms = None,
    sv_records_verified = 0\<rparr>"
  let ?final = "\<lambda>views. \<lparr>sv_stream_id = stream_id, sv_genesis = genesis_prev_hash X ulid,
    sv_prev = (if views = [] then None else Some (last views)),
    sv_prev_wall_ms = (if views = [] then None else wall_ms X (last views)), sv_records_verified = of_nat (length raws)\<rparr>"
  have new: "verifier_new X stream_id = Inr ?sv" using Inr by (simp add: verifier_new_def)
  show ?thesis
  proof (cases raws)
    case Nil
    with new Inr show ?thesis by (auto simp: sound_stream_def)
  next
    case (Cons raw rest)
    have first: "extends X ?sv raw v \<longleftrightarrow> sealed X raw v \<and> v_stream_id v = stream_id \<and>
        (v_seq v = 0 \<longrightarrow> v_prev_hash v = genesis_prev_hash X ulid)" for v
      by (auto simp: extends_def sealed_iff)
    have "verify_records X ?sv raws = Inr (sv', []) \<longleftrightarrow> (\<exists>v views. sealed X raw v \<and> v_stream_id v = stream_id \<and>
        (v_seq v = 0 \<longrightarrow> v_prev_hash v = genesis_prev_hash X ulid) \<and> list_all2 (sealed X) rest views \<and>
        list_all (\<lambda>v. v_stream_id v = stream_id) views \<and> successively (succeeds X) (v # views) \<and>
        sv' = stands_at X ?sv (last (v # views)) (length raws))"
      unfolding Cons verify_records_clean_Cons first using advance_succeeds [of X _ _ ?sv] by (simp add: clean_from)
    also have "\<dots> \<longleftrightarrow> (\<exists>views. sound_stream X stream_id (genesis_prev_hash X ulid) raws views \<and>
        sv' = stands_at X ?sv (last views) (length raws))"
      unfolding sound_stream_def Cons conj_assoc list_all2_Cons1 ex_Cons_views by (intro iff_exI) auto
    also have "\<dots> \<longleftrightarrow> (\<exists>views. sound_stream X stream_id (genesis_prev_hash X ulid) raws views \<and>
        sv' = ?final views)"
      by (rule iff_exI) (auto simp: Cons sound_stream_def stands_at_def)
    finally show ?thesis using new Inr by simp
  qed
qed (simp add: verifier_new_def)

text \<open>
  C10: What an honest recorder writes verifies. Starting from genesis, append any records to a
  chain; if every append succeeds and the clocks behave, the verifier of that stream accepts all
  of them, in order, without a single finding, and its head is the head hash of the chain.
\<close>

theorem honest_chain_verifies:
  assumes "ulid_law X" and "append_all X (chain_genesis X sid) rs = Inr (h, out)" and "clocks_ok X rs"
  shows "\<exists>sv sv'. verifier_new X (x_ulid_str X sid) = Inr sv \<and>
    verify_records X sv (map record_to_json out) = Inr (sv', []) \<and> length out = length rs \<and>
    verifier_head sv' = (if out = [] then None else Some (h_head_hash h))"
proof -
  from genesis_in_step [OF assms(1)] obtain sv where sv: "verifier_new X (x_ulid_str X sid) = Inr sv"
    "in_step X None (chain_genesis X sid) sv" by blast
  from append_all_in_step [OF assms(2) sv(2)] assms(3) obtain sv'
    where "verify_records X sv (map record_to_json out) = Inr (sv', [])" "length out = length rs"
      "in_step X (if out = [] then None else Some (last out)) h sv'"
    by (auto simp: clocks_ok_def)
  with sv show ?thesis by (auto simp: in_step_def verifier_head_def split: if_splits)
qed

theorem honest_chain_verifies_witness:
  "\<exists>h out sv sv'. append_all demo_ext (chain_genesis demo_ext 5) (replicate 3 (demo_record None)) =
     Inr (h, out) \<and> verifier_new demo_ext (lit ''5'') = Inr sv \<and>
     verify_records demo_ext sv (map record_to_json out) = Inr (sv', []) \<and> length out = 3"
proof -
  obtain h out where c: "append_all demo_ext (chain_genesis demo_ext 5)
      (replicate 3 (demo_record None)) = Inr (h, out)"
    using demo_chain [of demo_ext] by (auto simp: demo_texts)
  have "clocks_ok demo_ext (replicate 3 (demo_record None))"
    by (rule demo_clocks) (simp add: demo_texts)
  from honest_chain_verifies [OF demo_ulid_law c this] c show ?thesis by (auto simp: demo_texts)
qed

text \<open>
  C9: The head hash of a stream binds its whole history. If two complete streams both verify
  without findings and end in the same head hash, they have the same number of records and each
  record of one has the same canonical content as the record at its place in the other, unless
  BLAKE3 collides on the bytes hashed for those records.
\<close>

theorem head_binds_history:
  assumes "verifier_new X s = Inr a" "verify_records X a xs = Inr (a', [])"
    and "verifier_new X t = Inr b" "verify_records X b ys = Inr (b', [])"
    and "xs \<noteq> []" "ys \<noteq> []" "starts_at_zero xs" "starts_at_zero ys"
    and "list_all wf_json xs" "list_all wf_json ys"
    and "blake3_distinguishes X (hash_input ` (set xs \<union> set ys))"
    and "verifier_head a' = verifier_head b'"
  shows "list_all2 same_record xs ys"
proof (rule records.last_binds_log)
  have fresh: "sv_prev a = None" "sv_prev b = None"
    using assms(1,3) by (auto simp: verifier_new_def split: sum.splits)
  then show "linked_log own_hash prev_link xs" "linked_log own_hash prev_link ys"
    using assms verify_records_linked by blast+
  show "own_hash (last xs) = own_hash (last ys)"
    using assms(5,6,12) verify_records_head [OF assms(2)] verify_records_head [OF assms(4)] by simp
  show "no_collision X (set xs \<union> set ys)"
    using assms(9-11) verify_records_hash_ok [OF assms(2)] verify_records_hash_ok [OF assms(4)]
    by (auto simp: no_collision_def list_all_iff)
qed (use assms in simp_all)

theorem head_binds_history_witness:
  "\<exists>xs. length xs = 3 \<and> list_all2 same_record xs xs"
proof -
  obtain sv sv1 sv2 sv3 p a b where c:
    "verifier_new wide_ext (lit ''5'') = Inr sv"
    "verify_next wide_ext sv (record_to_json p) = Inr (sv1, [])"
    "verify_next wide_ext sv1 (record_to_json a) = Inr (sv2, [])"
    "verify_next wide_ext sv2 (record_to_json b) = Inr (sv3, [])"
    "list_all wf_record [p, a, b]" "r_seq p = 0"
    by (rule wide_chain) force
  let ?xs = "map record_to_json [p, a, b]"
  have run: "verify_records wide_ext sv ?xs = Inr (sv3, [])" using c by simp
  have start: "starts_at_zero ?xs" using c(6) by (simp add: starts_at_zero_def get_seq)
  have "list_all2 same_record ?xs ?xs"
    by (rule head_binds_history [OF c(1) run c(1) run _ _ start start])
      (use c(5) in \<open>simp_all add: wf_record_def\<close>)
  then show ?thesis by (intro exI [of _ ?xs]) simp
qed

text \<open>
  A changed record is caught. If a record is stored with the hash of a different valid
  record, the step of any verifier on it fails or reports a hash mismatch, unless BLAKE3
  collides on the two contents.
\<close>

theorem changed_record_caught:
  assumes "hash_ok X raw" and "wf_json raw'" and "own_hash raw' = own_hash raw"
    and "\<not> same_record raw' raw"
    and "blake3_distinguishes X {hash_input raw', hash_input raw}"
    and "verify_next X sv raw' = Inr (sv', fs)"
  shows "\<exists>seq computed. RecordHashMismatch seq (own_hash raw) computed \<in> set fs"
proof -
  from assms(6) obtain view computed where v: "view_from_value raw' = Inr view"
    and c: "compute_hash_of_value X raw' = Inr computed"
    and fs: "fs = check_stream sv view @ check_hash view computed @ check_prev X sv view"
    by (auto simp: verify_next_Inr)
  have "\<not> hash_ok X raw'" using assms same_hash_same_record [of X raw' raw] by blast
  with v c assms(2) have "computed \<noteq> v_record_hash view" by (auto simp: hash_ok_def)
  with assms(3) v fs show ?thesis by (auto simp: check_hash_def own_hash_def)
qed

theorem changed_record_caught_witness:
  "\<exists>sv raw sv' fs seq stored computed. verify_next wide_ext sv raw = Inr (sv', fs) \<and>
     RecordHashMismatch seq stored computed \<in> set fs"
proof -
  obtain sv sv1 p where c: "verify_next wide_ext sv (record_to_json p) = Inr (sv1, [])"
    "wf_record p" "\<exists>q k. p = (demo_record None)\<lparr>r_seq := 0, r_prev_hash := q, r_record_hash := k\<rparr>"
    by (rule wide_chain) force
  let ?raw = "record_to_json p" and ?changed = "record_to_json (p\<lparr>r_seq := 1\<rparr>)"
  have ok: "hash_ok wide_ext ?raw"
    using c(1,2) by (auto simp: verify_next_clean_iff extends_def hash_ok_def wf_record_def)
  have views: "view_from_value ?raw = Inr (view_of_record p)"
    "view_from_value ?changed = Inr (view_of_record (p\<lparr>r_seq := 1\<rparr>))"
    by (simp_all add: view_from_record)
  have "v_seq (view_of_record p) = 0" "v_seq (view_of_record (p\<lparr>r_seq := 1\<rparr>)) = 1"
    using c(3) by auto
  then have diff: "\<not> same_record ?changed ?raw"
    using same_record_view [OF _ views(2,1)] by (metis zero_neq_one)
  have own: "own_hash ?changed = own_hash ?raw" using views by (simp add: own_hash_def)
  have wf: "wf_json ?changed"
    using wf_record_seq [OF c(2)] by (simp add: wf_record_def)
  from c(3) obtain q k
    where p: "p = (demo_record None)\<lparr>r_seq := 0, r_prev_hash := q, r_record_hash := k\<rparr>" by blast
  have "p\<lparr>r_seq := 1\<rparr> = (demo_record None)\<lparr>r_seq := 1, r_prev_hash := q\<rparr>\<lparr>r_record_hash := k\<rparr>"
    unfolding p by (simp add: demo_record_def)
  with demo_compute_hash [of 1 wide_ext q] obtain h
    where "compute_hash wide_ext (p\<lparr>r_seq := 1\<rparr>) = Inr h" by (simp only: compute_hash_update) auto
  with views(2) obtain sv' fs where "verify_next wide_ext sv ?changed = Inr (sv', fs)"
    by (simp add: verify_next_def compute_hash_def)
  from changed_record_caught [OF ok wf own diff _ this] this show ?thesis by simp blast
qed

text \<open>
  A removed record is caught. If three consecutive records verify without findings, then
  presenting the third right after the first gives a finding about the link between them,
  unless BLAKE3 collides on the first two.
\<close>

theorem removed_record_caught:
  assumes "verify_next X sv p = Inr (sv1, [])" "verify_next X sv1 a = Inr (sv2, [])"
    and "verify_next X sv2 b = Inr (sv3, [])"
    and "wf_json p" "wf_json a" "blake3_distinguishes X {hash_input p, hash_input a}"
  shows "\<exists>sv' fs f. verify_next X sv1 b = Inr (sv', fs) \<and> f \<in> set fs \<and>
    (case f of LinkBroken _ expected found \<Rightarrow> expected = own_hash p \<and> found = own_hash a
     | SegmentBreak _ _ \<Rightarrow> True | _ \<Rightarrow> False)"
proof -
  from assms(1-3) obtain vp va vb
    where vp: "extends X sv p vp" "sv1 = advance X sv vp"
      and va: "extends X sv1 a va" "sv2 = advance X sv1 va" and vb: "extends X sv2 b vb"
    by (auto simp: verify_next_clean_iff)
  have ne: "own_hash p \<noteq> own_hash a"
  proof
    assume "own_hash p = own_hash a"
    then have "same_record p a"
      using same_hash_same_record [of X p a] vp(1) va(1) assms(4-6)
      by (auto simp: hash_ok_def extends_def)
    with same_record_view [of p a vp va] vp va(1) show False by (auto simp: extends_def)
  qed
  from vp va have h: "own_hash p = v_record_hash vp" "own_hash a = v_record_hash va"
    by (simp_all add: own_hash_def extends_def)
  from vb va have l: "v_prev_hash vb = v_record_hash va" by (auto simp: extends_def)
  with ne h have "check_link X vp vb \<noteq> []" by simp
  then obtain f where "f \<in> set (check_link X vp vb)" by (cases "check_link X vp vb") auto
  moreover from this l h have "case f of LinkBroken _ expected found \<Rightarrow>
      expected = own_hash p \<and> found = own_hash a | SegmentBreak _ _ \<Rightarrow> True | _ \<Rightarrow> False"
    by (auto simp: check_link_def split: if_splits)
  moreover obtain c where "verify_next X sv1 b = Inr (advance X sv1 vb,
      check_stream sv1 vb @ check_hash vb c @ check_prev X sv1 vb)"
    using vb by (auto simp: extends_def verify_next_def)
  ultimately show ?thesis using vp(2) by (auto simp: check_prev_def)
qed

theorem removed_record_caught_witness:
  "\<exists>sv1 b sv' fs f. verify_next wide_ext sv1 b = Inr (sv', fs) \<and> f \<in> set fs \<and>
     (case f of LinkBroken _ _ _ \<Rightarrow> True | SegmentBreak _ _ \<Rightarrow> True | _ \<Rightarrow> False)"
proof -
  obtain sv sv1 sv2 sv3 p a b where c:
    "verify_next wide_ext sv (record_to_json p) = Inr (sv1, [])"
    "verify_next wide_ext sv1 (record_to_json a) = Inr (sv2, [])"
    "verify_next wide_ext sv2 (record_to_json b) = Inr (sv3, [])"
    "list_all wf_record [p, a, b]"
    by (rule wide_chain) blast
  from c(4) removed_record_caught [OF c(1-3)] show ?thesis
    by (fastforce simp: wf_record_def split: ChainFinding.splits)
qed

text \<open>
  The first record a verifier sees is not checked for a readable wall-clock time: whatever
  its \<open>ts_wall\<close> holds, no finding about the timestamp is reported for it. Such a record is only
  reported when it has a predecessor.
\<close>

theorem first_timestamp_unchecked:
  assumes "sv_prev sv = None" and "verify_next X sv raw = Inr (sv', fs)"
  shows "BadWallTimestamp seq text \<notin> set fs"
  using assms
  by (auto simp: verify_next_Inr check_prev_def check_stream_def check_hash_def check_first_def
      split: if_splits)

theorem first_timestamp_unchecked_witness:
  "\<exists>sv sv' fs. verify_next demo_ext sv (record_to_json ((demo_record None)\<lparr>r_ts_wall := []\<rparr>)) =
     Inr (sv', fs) \<and> BadWallTimestamp 0 [] \<notin> set fs \<and> \<not> is_ok (parse_wall demo_ext [])"
proof -
  let ?r = "(demo_record None)\<lparr>r_ts_wall := []\<rparr>"
  obtain sv where sv: "verifier_new demo_ext (lit ''5'') = Inr sv" "sv_prev sv = None"
    by (auto simp: verifier_new_def demo_eval)
  have "is_ok (to_jcs_bytes (Object (record_content ?r)))"
    by (simp add: to_jcs_bytes_ok record_content_def demo_record_def json_defs)
  then obtain sv' fs where v: "verify_next demo_ext sv (record_to_json ?r) = Inr (sv', fs)"
    by (auto simp: verify_next_def view_from_record compute_hash_def [symmetric]
      compute_hash_content is_ok_iff)
  moreover have "\<not> is_ok (parse_wall demo_ext [])" by (simp add: parse_wall_def demo_number_def)
  ultimately show ?thesis using first_timestamp_unchecked [OF sv(2) v] by blast
qed

text \<open>
  C38: Every head and every record that the chain writer makes is well formed. After any sequence of
  appends from genesis, failed ones included, the head hash is 64 lowercase hexadecimal digits and the last
  sequence number is one that canonical JSON can hold. A further append either leaves the head
  as it was and reports an error, or makes a record whose two hashes and sequence number are well
  formed too, and whose other fields stay valid.
\<close>

theorem chain_stays_typed:
  assumes "digest32 X" and "h = foldl (\<lambda>h r. fst (fst (chain_append X h r))) (chain_genesis X sid) rs"
    and "chain_append X h r = ((h', r'), res)"
  shows "head_typed h' \<and> (if is_ok res then link_typed r' \<and> (wf_record r \<longrightarrow> wf_record r') else h' = h)"
proof (rule append_typed [OF assms(1) _ assms(3)])
  have "head_typed (foldl (\<lambda>h r. fst (fst (chain_append X h r))) h0 rs)" if "head_typed h0" for h0
    using that by (induction rs arbitrary: h0) (simp_all, metis append_typed [OF assms(1)] prod.collapse)
  then show "head_typed h" using genesis_typed [OF assms(1)] by (simp add: assms(2))
qed

theorem chain_stays_typed_witness:
  "\<exists>h r. chain_append demo_ext (chain_genesis demo_ext 5) (demo_record None) = ((h, r), Inr ()) \<and> head_typed h \<and> link_typed r \<and> wf_record r"
proof -
  have "x_ulid_str demo_ext 5 = lit ''5''" by (simp add: demo_texts)
  then obtain h r where a: "chain_append demo_ext (chain_genesis demo_ext 5) (demo_record None) = ((h, r), Inr ())"
    using demo_append [of demo_ext "chain_genesis demo_ext 5"] by (auto simp: chain_genesis_def next_seq_def)
  have "wf_record (demo_record None)" by (rule wf_demo_record) simp
  with chain_stays_typed [OF demo_digest32 foldl_Nil [symmetric] a] a show ?thesis by auto
qed

end
