(* ===== verification/Checkpoints.thy ===== *)
theory Checkpoints
  imports Keys Merkle Chain
begin

text \<open>
  Checkpoints and countersignatures (\<open>evidence/src/checkpoint.rs\<close>): the note that binds a Merkle
  root and the chain head of a range of records, its signature, and the Console's signed
  statement about it. The theorems show that an emitted checkpoint verifies, that its root and
  head bind the record hashes, and that the hash of a note binds all earlier notes of its stream.
\<close>

section \<open>Notes\<close>

definition CHECKPOINT_MAX_RECORDS :: u64 where
  "CHECKPOINT_MAX_RECORDS = 1000"

definition CHECKPOINT_MAX_INTERVAL_SECS :: u64 where
  "CHECKPOINT_MAX_INTERVAL_SECS = 10"

record CheckpointNote =
  n_checkpoint_id :: ustr
  n_stream_id :: ustr
  n_segment_id :: ustr
  n_seq_from :: u64
  n_seq_to :: u64
  n_chain_head_hash :: ustr
  n_merkle_root :: ustr
  n_tree_size :: u64
  n_ts_wall :: ustr
  n_recorder_cert_fingerprint :: ustr
  n_prev_checkpoint_hash :: "ustr option"

definition note_json :: "CheckpointNote \<Rightarrow> json" where
  "note_json n = Object
     (fld ''checkpoint_id'' (String (n_checkpoint_id n)) @
      fld ''stream_id'' (String (n_stream_id n)) @
      fld ''segment_id'' (String (n_segment_id n)) @
      fld ''seq_from'' (U64 (n_seq_from n)) @
      fld ''seq_to'' (U64 (n_seq_to n)) @
      fld ''chain_head_hash'' (String (n_chain_head_hash n)) @
      fld ''merkle_root'' (String (n_merkle_root n)) @
      fld ''tree_size'' (U64 (n_tree_size n)) @
      fld ''ts_wall'' (String (n_ts_wall n)) @
      fld ''recorder_cert_fingerprint'' (String (n_recorder_cert_fingerprint n)) @
      opt_fld ''prev_checkpoint_hash'' (map_option String (n_prev_checkpoint_hash n)))"

definition note_hash :: "'x ext_scheme \<Rightarrow> CheckpointNote \<Rightarrow> ustr result" where
  "note_hash X n = rbind (to_jcs_bytes (note_json n)) (\<lambda>bytes. Inr (blake3_hex X bytes))"

record SignedCheckpoint =
  sc_note :: CheckpointNote
  sc_signature :: ustr

record CountersignatureNote =
  cn_checkpoint_id :: ustr
  cn_received_at :: ustr
  cn_console_key_id :: ustr
  cn_stream_high_water_seq :: "u64 option"

definition countersignature_note_json :: "CountersignatureNote \<Rightarrow> json" where
  "countersignature_note_json n = Object
     (fld ''checkpoint_id'' (String (cn_checkpoint_id n)) @
      fld ''received_at'' (String (cn_received_at n)) @
      fld ''console_key_id'' (String (cn_console_key_id n)) @
      opt_fld ''stream_high_water_seq'' (map_option U64 (cn_stream_high_water_seq n)))"

record Countersignature =
  cs_note :: CountersignatureNote
  cs_signature :: ustr

section \<open>Operations\<close>

definition merkle_root_of_record_hashes :: "'x ext_scheme \<Rightarrow> ustr list \<Rightarrow> ustr result" where
  "merkle_root_of_record_hashes X record_hashes_hex =
     rbind (collect_res (map (hex_decode_digest ''record_hash'') record_hashes_hex)) (\<lambda>leaves.
       Inr (hex_encode (merkle_root X leaves)))"

definition checked_sub :: "u64 \<Rightarrow> u64 \<Rightarrow> u64 option" where
  "checked_sub a b = (if b \<le> a then Some (a - b) else None)"

definition build_note ::
  "'x ext_scheme \<Rightarrow> ustr \<Rightarrow> Record list \<Rightarrow> ustr \<Rightarrow> ustr \<Rightarrow> CheckpointNote result" where
  "build_note X checkpoint_id records ts_wall recorder_cert_fingerprint =
     (case records of
        [] \<Rightarrow> Inl (Checkpoint [T ''cannot checkpoint zero records''])
      | first_record # _ \<Rightarrow>
          let last_record = last records in
          if Some (of_nat (length records)) \<noteq>
             map_option (\<lambda>d. d + 1) (checked_sub (r_seq last_record) (r_seq first_record))
          then Inl (Checkpoint [T ''records not contiguous: '', N (length records),
                 T '' entries for seq range ['', N (unat (r_seq first_record)), T '', '',
                 N (unat (r_seq last_record)), T '']''])
          else
            let hashes = map r_record_hash records in
            rbind (merkle_root_of_record_hashes X hashes) (\<lambda>merkle_root.
            Inr \<lparr>n_checkpoint_id = checkpoint_id, n_stream_id = r_stream_id first_record,
                 n_segment_id = r_segment_id first_record, n_seq_from = r_seq first_record,
                 n_seq_to = r_seq last_record, n_chain_head_hash = r_record_hash last_record,
                 n_merkle_root = merkle_root, n_tree_size = of_nat (length hashes),
                 n_ts_wall = ts_wall, n_recorder_cert_fingerprint = recorder_cert_fingerprint,
                 n_prev_checkpoint_hash = None\<rparr>))"

definition build_note_linked ::
  "'x ext_scheme \<Rightarrow> ustr \<Rightarrow> Record list \<Rightarrow> ustr \<Rightarrow> ustr \<Rightarrow> ustr option \<Rightarrow> CheckpointNote result" where
  "build_note_linked X checkpoint_id records ts_wall recorder_cert_fingerprint prev_checkpoint_hash =
     rbind (build_note X checkpoint_id records ts_wall recorder_cert_fingerprint) (\<lambda>note.
       Inr (note\<lparr>n_prev_checkpoint_hash := prev_checkpoint_hash\<rparr>))"

definition sign_note :: "'x ext_scheme \<Rightarrow> CheckpointNote \<Rightarrow> SigningKey \<Rightarrow> SignedCheckpoint result" where
  "sign_note X note key =
     rbind (sign_jcs X key (note_json note)) (\<lambda>signature.
       Inr \<lparr>sc_note = note, sc_signature = signature\<rparr>)"

definition checkpoint_verify :: "'x ext_scheme \<Rightarrow> SignedCheckpoint \<Rightarrow> VerifyingKey \<Rightarrow> unit result" where
  "checkpoint_verify X sc recorder_key =
     verify_jcs X recorder_key (note_json (sc_note sc)) (sc_signature sc)
       [T ''checkpoint '', S (n_checkpoint_id (sc_note sc))]"

definition verify_root :: "'x ext_scheme \<Rightarrow> SignedCheckpoint \<Rightarrow> ustr list \<Rightarrow> unit result" where
  "verify_root X sc record_hashes_hex =
     (let note = sc_note sc in
      if of_nat (length record_hashes_hex) \<noteq> n_tree_size note
      then Inl (Checkpoint [T ''checkpoint '', S (n_checkpoint_id note), T '' tree_size '',
             N (unat (n_tree_size note)), T '' but '', N (length record_hashes_hex),
             T '' record hashes supplied''])
      else
        rbind (merkle_root_of_record_hashes X record_hashes_hex) (\<lambda>computed.
          if computed \<noteq> n_merkle_root note
          then Inl (Checkpoint [T ''checkpoint '', S (n_checkpoint_id note),
                 T '': recomputed merkle root '', S computed, T '' != stored '',
                 S (n_merkle_root note)])
          else if record_hashes_hex = []
          then Inl (Checkpoint [T ''empty record hash set''])
          else if last record_hashes_hex = n_chain_head_hash note then Inr ()
          else Inl (Checkpoint [T ''checkpoint '', S (n_checkpoint_id note),
                 T '': chain_head_hash '', S (n_chain_head_hash note),
                 T '' != last covered record hash '', S (last record_hashes_hex)])))"

definition countersignature_create ::
  "'x ext_scheme \<Rightarrow> ustr \<Rightarrow> ustr \<Rightarrow> ustr \<Rightarrow> u64 option \<Rightarrow> SigningKey \<Rightarrow> Countersignature result" where
  "countersignature_create X checkpoint_id received_at console_key_id stream_high_water_seq key =
     (let note = \<lparr>cn_checkpoint_id = checkpoint_id, cn_received_at = received_at,
                   cn_console_key_id = console_key_id,
                   cn_stream_high_water_seq = stream_high_water_seq\<rparr> in
      rbind (sign_jcs X key (countersignature_note_json note)) (\<lambda>signature.
        Inr \<lparr>cs_note = note, cs_signature = signature\<rparr>))"

definition countersignature_verify ::
  "'x ext_scheme \<Rightarrow> Countersignature \<Rightarrow> VerifyingKey \<Rightarrow> unit result" where
  "countersignature_verify X cs console_key =
     verify_jcs X console_key (countersignature_note_json (cs_note cs)) (cs_signature cs)
       [T ''countersignature for '', S (cn_checkpoint_id (cs_note cs))]"

section \<open>Notes are signed documents\<close>

definition valid_note :: "CheckpointNote \<Rightarrow> bool" where
  "valid_note n \<longleftrightarrow> list_all is_ustr [n_checkpoint_id n, n_stream_id n, n_segment_id n,
     n_chain_head_hash n, n_merkle_root n, n_ts_wall n, n_recorder_cert_fingerprint n] \<and>
     (\<forall>h. n_prev_checkpoint_hash n = Some h \<longrightarrow> is_ustr h)"

definition valid_countersignature_note :: "CountersignatureNote \<Rightarrow> bool" where
  "valid_countersignature_note n \<longleftrightarrow>
     list_all is_ustr [cn_checkpoint_id n, cn_received_at n, cn_console_key_id n]"

lemma note_json_inj: "same_canon (note_json a) (note_json b) \<Longrightarrow> a = b"
proof -
  assume "same_canon (note_json a) (note_json b)"
  note m = same_canon_members [OF this [unfolded note_json_def], unfolded lookup_append]
  have "n_prev_checkpoint_hash a = n_prev_checkpoint_hash b"
    using m [of "lit ''prev_checkpoint_hash''"] by (intro same_canon_opt [where f = String]) simp_all
  then show "a = b"
    using m [of "lit ''checkpoint_id''"] m [of "lit ''stream_id''"] m [of "lit ''segment_id''"]
      m [of "lit ''seq_from''"] m [of "lit ''seq_to''"] m [of "lit ''chain_head_hash''"]
      m [of "lit ''merkle_root''"] m [of "lit ''tree_size''"] m [of "lit ''ts_wall''"]
      m [of "lit ''recorder_cert_fingerprint''"]
    by (intro CheckpointNote.equality) (auto dest!: same_canon_U64)
qed

interpretation note_doc: signed_document note_json valid_note
proof
  show "wf_json (note_json n)" if "valid_note n" for n
    using that by (auto simp: note_json_def valid_note_def distinct_flds_append list_all_append
      simp del: map_append split: option.splits)
qed (rule note_json_inj)

lemma countersignature_note_json_inj:
  "same_canon (countersignature_note_json a) (countersignature_note_json b) \<Longrightarrow> a = b"
proof -
  assume "same_canon (countersignature_note_json a) (countersignature_note_json b)"
  note m = same_canon_members [OF this [unfolded countersignature_note_json_def], unfolded lookup_append]
  have "cn_stream_high_water_seq a = cn_stream_high_water_seq b"
    using m [of "lit ''stream_high_water_seq''"]
    by (intro same_canon_opt [where f = U64]) (simp_all add: same_canon_U64)
  then show "a = b"
    using m [of "lit ''checkpoint_id''"] m [of "lit ''received_at''"] m [of "lit ''console_key_id''"]
    by (intro CountersignatureNote.equality) simp_all
qed

interpretation countersignature_doc: signed_document countersignature_note_json valid_countersignature_note
proof
  show "wf_json (countersignature_note_json n)" if "valid_countersignature_note n" for n
    using that by (auto simp: countersignature_note_json_def valid_countersignature_note_def
      distinct_flds_append list_all_append simp del: map_append split: option.splits)
qed (rule countersignature_note_json_inj)

section \<open>The checkpoint chain is a hash log\<close>

definition note_id :: "'x ext_scheme \<Rightarrow> CheckpointNote \<Rightarrow> ustr" where
  "note_id X n = blake3_hex X (doc_input (note_json n))"

definition notes_apart :: "'x ext_scheme \<Rightarrow> CheckpointNote set \<Rightarrow> bool" where
  "notes_apart X A \<longleftrightarrow> blake3_distinguishes X ((\<lambda>n. doc_input (note_json n)) ` A) \<and>
     (\<forall>n \<in> A. valid_note n \<and> is_ok (note_hash X n))"

lemma note_hash_Inr: "note_hash X n = Inr h \<longleftrightarrow> is_ok (to_jcs_bytes (note_json n)) \<and> h = note_id X n"
  by (auto simp: note_hash_def rbind_eq_Inr is_ok_iff note_id_def doc_input_def)

interpretation checkpoint_log: hash_log "note_id X" n_prev_checkpoint_hash "(=)" "notes_apart X" for X
proof
  show "a = b" if "notes_apart X A" "a \<in> A" "b \<in> A" "note_id X a = note_id X b" for A a b
  proof (rule note_doc.digest_binds)
    show "blake3_distinguishes X {doc_input (note_json a), doc_input (note_json b)}"
      using that(1-3) by (auto simp: notes_apart_def elim: blake3_distinguishes_mono)
    show "doc_digest X (note_json a) = Inr (x_blake3 X (doc_input (note_json a)))"
      "doc_digest X (note_json b) = Inr (x_blake3 X (doc_input (note_json a)))"
      using that by (auto simp: notes_apart_def doc_digest_Inr is_ok_iff note_hash_Inr note_id_def)
  qed (use that in \<open>auto simp: notes_apart_def\<close>)
  show "notes_apart X B" if "notes_apart X A" "B \<subseteq> A" for A B
    using that by (auto simp: notes_apart_def elim!: blake3_distinguishes_mono)
qed simp

section \<open>Building and checking roots\<close>

definition record_leaves :: "ustr list \<Rightarrow> bytes list" where
  "record_leaves hs = map (\<lambda>h. projr (hex_decode_digest ''record_hash'' h)) hs"

lemma merkle_root_of_record_hashes_Inr:
  "merkle_root_of_record_hashes X hs = Inr r \<longleftrightarrow>
     list_all (\<lambda>h. is_ok (hex_decode_digest ''record_hash'' h)) hs \<and>
     r = hex_encode (merkle_root X (record_leaves hs))"
proof -
  have "map (hex_decode_digest ''record_hash'') hs = map Inr ls \<longleftrightarrow>
      list_all (\<lambda>h. is_ok (hex_decode_digest ''record_hash'' h)) hs \<and> ls = record_leaves hs" for ls
    unfolding record_leaves_def
    by (induction hs arbitrary: ls) (auto simp: is_ok_iff Cons_eq_map_conv)
  then show ?thesis
    by (auto simp: merkle_root_of_record_hashes_def rbind_eq_Inr collect_res_Inr)
qed

lemma verify_root_Inr:
  "verify_root X sc hs = Inr u \<longleftrightarrow>
     of_nat (length hs) = n_tree_size (sc_note sc) \<and>
     merkle_root_of_record_hashes X hs = Inr (n_merkle_root (sc_note sc)) \<and>
     hs \<noteq> [] \<and> last hs = n_chain_head_hash (sc_note sc)"
  by (auto simp: verify_root_def Let_def rbind_eq_Inr split: if_splits)

lemma build_note_Inr:
  "build_note X cid rs ts fp = Inr note \<longleftrightarrow> rs \<noteq> [] \<and>
     Some (of_nat (length rs)) = map_option (\<lambda>d. d + 1) (checked_sub (r_seq (last rs)) (r_seq (hd rs))) \<and>
     (\<exists>root_hex. merkle_root_of_record_hashes X (map r_record_hash rs) = Inr root_hex \<and>
       note = \<lparr>n_checkpoint_id = cid, n_stream_id = r_stream_id (hd rs),
         n_segment_id = r_segment_id (hd rs), n_seq_from = r_seq (hd rs), n_seq_to = r_seq (last rs),
         n_chain_head_hash = r_record_hash (last rs), n_merkle_root = root_hex,
         n_tree_size = of_nat (length rs), n_ts_wall = ts, n_recorder_cert_fingerprint = fp,
         n_prev_checkpoint_hash = None\<rparr>)"
  by (cases rs) (auto simp: build_note_def Let_def rbind_eq_Inr)

lemma decoded_lower:
  "is_ustr h \<Longrightarrow> is_ok (hex_decode_digest ''record_hash'' h) \<Longrightarrow>
   map lower_hex h = hex_encode (projr (hex_decode_digest ''record_hash'' h))"
  using hex_decode_sound [of h "''record_hash''"]
  by (auto simp: is_ok_iff hex_decode_digest_def rbind_eq_Inr split: if_splits)

lemma record_leaves_lower:
  "list_all is_ustr hs \<Longrightarrow> list_all (\<lambda>h. is_ok (hex_decode_digest ''record_hash'' h)) hs \<Longrightarrow>
   map (map lower_hex) hs = map hex_encode (record_leaves hs)"
  by (induction hs) (simp_all add: record_leaves_def decoded_lower)

section \<open>A concrete checkpoint\<close>

lemma list_all_concat: "list_all P (concat xss) \<longleftrightarrow> list_all (list_all P) xss"
  by (induction xss) simp_all

definition demo_note :: "ustr \<Rightarrow> ustr option \<Rightarrow> CheckpointNote" where
  "demo_note cid prev = \<lparr>n_checkpoint_id = cid, n_stream_id = lit ''5'', n_segment_id = lit ''6'',
     n_seq_from = 0, n_seq_to = 0, n_chain_head_hash = blake3_hex demo_ext [],
     n_merkle_root = hex_encode (merkle_root demo_ext [demo_digest 257 []]), n_tree_size = 1,
     n_ts_wall = lit ''1'', n_recorder_cert_fingerprint = lit ''f'', n_prev_checkpoint_hash = prev\<rparr>"

definition demo_sealed :: Record where
  "demo_sealed = (demo_record None)\<lparr>r_record_hash := blake3_hex demo_ext []\<rparr>"

lemma demo_build_note:
  "build_note demo_ext (lit ''c'') [demo_sealed] (lit ''1'') (lit ''f'') = Inr (demo_note (lit ''c'') None)"
  by (simp add: build_note_def checked_sub_def merkle_root_of_record_hashes_def demo_sealed_def
    demo_note_def demo_record_def blake3_hex_def hex_decode_digest_encode)

lemma demo_note_ok: "is_ok (to_jcs_bytes (note_json (demo_note cid prev)))"
  by (simp add: to_jcs_bytes_ok note_json_def demo_note_def split: option.splits)

lemma demo_note_valid: "is_ustr cid \<Longrightarrow> (\<forall>h. prev = Some h \<longrightarrow> is_ustr h) \<Longrightarrow> valid_note (demo_note cid prev)"
  by (simp add: valid_note_def demo_note_def blake3_hex_def)

lemma demo_leaf_text:
  "hex_decode_digest f (concat (replicate 32 (lit ''0B''))) = Inr (replicate 32 0x0B)"
  "hex_decode_digest f (concat (replicate 32 (lit ''0c''))) = Inr (replicate 32 0x0C)"
proof -
  have "hex_decode f (concat (replicate 32 (lit ''0B''))) = Inr (replicate 32 0x0B)"
    "hex_decode f (concat (replicate 32 (lit ''0c''))) = Inr (replicate 32 0x0C)"
    by (rule hex_decode_complete,
        simp add: hex_encode_def map_concat lit_def lower_hex_def hex_byte_def hex_digit_def)+
  then show "hex_decode_digest f (concat (replicate 32 (lit ''0B''))) = Inr (replicate 32 0x0B)"
    "hex_decode_digest f (concat (replicate 32 (lit ''0c''))) = Inr (replicate 32 0x0C)"
    by (simp_all add: hex_decode_digest_def DIGEST_LEN_def)
qed

lemma demo_leaves_apart:
  "blake3_distinguishes demo_ext (tree_inputs demo_ext [replicate 32 0x0B, replicate 32 0x0C])"
proof (rule distinguishes_three)
  let ?a = "replicate 32 0x0B" and ?b = "replicate 32 0x0C"
  show "tree_inputs demo_ext [?a, ?b] \<subseteq>
      {NODE_PREFIX # leaf_hash demo_ext ?a @ leaf_hash demo_ext ?b, LEAF_PREFIX # ?a, LEAF_PREFIX # ?b}"
    by (simp add: split_two)
qed (simp_all add: leaf_hash_def LEAF_PREFIX_def NODE_PREFIX_def demo_eval)

section \<open>Properties\<close>

text \<open>
  An emitted checkpoint verifies. A note built over a run of records, linked to its
  predecessor and signed with the recorder's key, passes the signature check under the
  recorder's public key and the root check against the hashes of those records.
\<close>

theorem emitted_checkpoint_verifies:
  assumes "ed25519_law X" and "build_note_linked X cid rs ts fp prev = Inr note"
    and "sign_note X note key = Inr sc"
  shows "checkpoint_verify X sc (verifying_key X key) = Inr () \<and>
    verify_root X sc (map r_record_hash rs) = Inr () \<and>
    n_prev_checkpoint_hash (sc_note sc) = prev"
proof -
  from assms(3) have sc: "sc_note sc = note" "sign_jcs X key (note_json note) = Inr (sc_signature sc)"
    by (auto simp: sign_note_def rbind_eq_Inr)
  from assms(2) have "rs \<noteq> []" "n_tree_size note = of_nat (length rs)"
    "merkle_root_of_record_hashes X (map r_record_hash rs) = Inr (n_merkle_root note)"
    "n_chain_head_hash note = r_record_hash (last rs)" "n_prev_checkpoint_hash note = prev"
    by (auto simp: build_note_linked_def rbind_eq_Inr build_note_Inr)
  with sc show ?thesis
    by (simp add: checkpoint_verify_def verify_sign_jcs [OF assms(1)] verify_root_Inr last_map)
qed

theorem emitted_checkpoint_verifies_witness:
  "\<exists>sc. sign_note demo_ext (demo_note (lit ''c'') None) \<lparr>sk_inner = replicate 32 7\<rparr> = Inr sc \<and>
     verify_root demo_ext sc [r_record_hash demo_sealed] = Inr ()"
proof -
  have n: "build_note_linked demo_ext (lit ''c'') [demo_sealed] (lit ''1'') (lit ''f'') None =
      Inr (demo_note (lit ''c'') None)"
    by (simp add: build_note_linked_def demo_build_note) (simp add: demo_note_def)
  obtain sc where sc: "sign_note demo_ext (demo_note (lit ''c'') None) \<lparr>sk_inner = replicate 32 7\<rparr> = Inr sc"
    using demo_note_ok [of "lit ''c''" None] by (auto simp: sign_note_def sign_jcs_def is_ok_iff)
  from emitted_checkpoint_verifies [OF demo_ed25519_law n sc] sc show ?thesis by auto
qed

text \<open>
  C39: A checkpoint covers exactly the sequence numbers it names. A note is only built when the
  number of records equals the width of its sequence range, computed without wrap-around.
\<close>

theorem build_note_range:
  assumes "build_note X cid rs ts fp = Inr note" and "length rs < 2 ^ 64"
  shows "int (length rs) = uint (n_seq_to note) - uint (n_seq_from note) + 1 \<and>
    uint (n_tree_size note) = int (length rs)"
proof -
  let ?a = "r_seq (hd rs)" and ?b = "r_seq (last rs)"
  from assms(1) have le: "?a \<le> ?b" and eq: "of_nat (length rs) = ?b - ?a + 1" and ne: "rs \<noteq> []"
    and n: "n_seq_from note = ?a" "n_seq_to note = ?b" "n_tree_size note = of_nat (length rs)"
    by (auto simp: build_note_Inr checked_sub_def split: if_splits)
  have len: "uint (of_nat (length rs) :: u64) = int (length rs)"
    using assms(2) by (simp add: unsigned_of_nat take_bit_nat_eq_self)
  have "0 < uint (?b - ?a + 1)" using len ne unfolding eq [symmetric] by simp
  then have "uint (?b - ?a + 1) = uint (?b - ?a) + 1"
    using uint_lt2p [of "?b - ?a"] by (auto simp: uint_plus_if' split: if_splits)
  also have "uint (?b - ?a) = uint ?b - uint ?a" using le by (simp add: uint_minus_simple_alt)
  finally show ?thesis using len n eq by simp
qed

theorem build_note_range_witness:
  "int (length [demo_sealed]) =
     uint (n_seq_to (demo_note (lit ''c'') None)) - uint (n_seq_from (demo_note (lit ''c'') None)) + 1"
  using build_note_range [OF demo_build_note] by simp

text \<open>
  C18: A checkpoint binds the hashes of the records it covers. If two lists of record hashes are
  both accepted against the same checkpoint, they are the same list up to the case of the
  hexadecimal letters, unless BLAKE3 collides in building the two trees.
\<close>

theorem verify_root_binds:
  assumes "digest32 X" and "verify_root X sc as = Inr ()" and "verify_root X sc bs = Inr ()"
    and "list_all is_ustr as" "list_all is_ustr bs"
    and "blake3_distinguishes X (tree_inputs X (record_leaves as) \<union> tree_inputs X (record_leaves bs))"
  shows "map (map lower_hex) as = map (map lower_hex) bs"
proof -
  from assms(2,3) have ne: "record_leaves as \<noteq> []" "record_leaves bs \<noteq> []"
    and eq: "merkle_root X (record_leaves as) = merkle_root X (record_leaves bs)"
    and ok: "list_all (\<lambda>h. is_ok (hex_decode_digest ''record_hash'' h)) as"
      "list_all (\<lambda>h. is_ok (hex_decode_digest ''record_hash'' h)) bs"
    by (auto simp: verify_root_Inr merkle_root_of_record_hashes_Inr record_leaves_def)
  from eq ne have "record_leaves as = record_leaves bs"
    by (intro subtree_root_inj [OF ne assms(1,6)]) (simp add: merkle_root_def)
  with ok assms(4,5) show ?thesis by (simp add: record_leaves_lower)
qed

theorem verify_root_binds_witness:
  "map (map lower_hex) [concat (replicate 32 (lit ''0B'')), concat (replicate 32 (lit ''0c''))] =
     map (map lower_hex) [hex_encode (replicate 32 0x0B), concat (replicate 32 (lit ''0c''))]"
proof (rule verify_root_binds [OF demo_digest32])
  let ?l = "[replicate 32 0x0B, replicate 32 0x0C]"
  let ?a = "[concat (replicate 32 (lit ''0B'')), concat (replicate 32 (lit ''0c''))]"
  let ?b = "[hex_encode (replicate 32 0x0B), concat (replicate 32 (lit ''0c''))]"
  let ?n = "(demo_note [] None)\<lparr>n_tree_size := 2, n_merkle_root := hex_encode (merkle_root demo_ext ?l),
    n_chain_head_hash := concat (replicate 32 (lit ''0c''))\<rparr>"
  show "verify_root demo_ext \<lparr>sc_note = ?n, sc_signature = []\<rparr> ?a = Inr ()"
    "verify_root demo_ext \<lparr>sc_note = ?n, sc_signature = []\<rparr> ?b = Inr ()"
    by (simp_all add: verify_root_Inr merkle_root_of_record_hashes_def demo_leaf_text
      hex_decode_digest_encode)
  have "record_leaves ?a = ?l" "record_leaves ?b = ?l"
    by (simp_all add: record_leaves_def demo_leaf_text hex_decode_digest_encode)
  then show "blake3_distinguishes demo_ext (tree_inputs demo_ext (record_leaves ?a) \<union>
      tree_inputs demo_ext (record_leaves ?b))"
    by (simp only: Un_absorb demo_leaves_apart)
qed (simp_all add: list_all_concat list_all_iff [of is_ustr])

text \<open>
  C19: The checkpoints of a stream form a chain of their own. If two complete sequences of notes,
  each naming the hash of its predecessor, end in notes with the same hash, the sequences are
  equal: removing or changing an interior checkpoint changes every later one, unless BLAKE3
  collides on the canonical bytes of the notes.
\<close>

theorem checkpoint_chain_binds:
  assumes "linked_log (note_id X) n_prev_checkpoint_hash as"
    and "linked_log (note_id X) n_prev_checkpoint_hash bs"
    and "as \<noteq> []" "bs \<noteq> []" and "note_hash X (last as) = Inr h" "note_hash X (last bs) = Inr h"
    and "notes_apart X (set as \<union> set bs)"
  shows "as = bs"
proof -
  have "list_all2 (=) as bs"
    using assms by (intro checkpoint_log.last_binds_log [of X]) (simp_all add: note_hash_Inr)
  then show ?thesis by (simp add: list.rel_eq)
qed

theorem checkpoint_chain_binds_witness:
  "\<exists>m. n_prev_checkpoint_hash m = Some (note_id wide_ext (demo_note (lit ''a'') None)) \<and>
     note_hash wide_ext m \<noteq> note_hash wide_ext (demo_note (lit ''b'') None)"
proof -
  let ?n = "demo_note (lit ''a'') None" and ?k = "demo_note (lit ''b'') None"
  let ?m = "demo_note (lit ''c'') (Some (note_id wide_ext ?n))"
  have links: "linked_log (note_id wide_ext) n_prev_checkpoint_hash [?n, ?m]"
    "linked_log (note_id wide_ext) n_prev_checkpoint_hash [?k]"
    by (simp_all add: demo_note_def)
  have apart: "notes_apart wide_ext (set [?n, ?m] \<union> set [?k])"
    using demo_note_ok
    by (auto simp: notes_apart_def demo_note_valid note_id_def blake3_hex_def note_hash_Inr is_ok_iff)
  have "note_hash wide_ext ?m \<noteq> note_hash wide_ext ?k"
  proof
    assume eq: "note_hash wide_ext ?m = note_hash wide_ext ?k"
    obtain h where h: "note_hash wide_ext ?m = Inr h" using demo_note_ok by (auto simp: note_hash_Inr)
    have "[?n, ?m] = [?k]"
      by (rule checkpoint_chain_binds [OF links _ _ _ _ apart, of h]) (use h eq in simp_all)
    then show False by simp
  qed
  then show ?thesis by (intro exI [of _ ?m]) (simp add: demo_note_def)
qed

text \<open>
  A countersignature that the Console makes verifies under the Console's public key, and its
  note carries the checkpoint id, the time, the key id and the high-water mark it was made for.
\<close>

theorem countersignature_roundtrip:
  assumes "ed25519_law X" and "countersignature_create X cid received kid hw key = Inr cs"
  shows "countersignature_verify X cs (verifying_key X key) = Inr () \<and>
    cs_note cs = \<lparr>cn_checkpoint_id = cid, cn_received_at = received, cn_console_key_id = kid,
      cn_stream_high_water_seq = hw\<rparr>"
  using assms(2)
  by (auto simp: countersignature_create_def countersignature_verify_def rbind_eq_Inr Let_def
    verify_sign_jcs [OF assms(1)])

theorem countersignature_roundtrip_witness:
  "\<exists>cs. countersignature_create demo_ext (lit ''c'') (lit ''1'') (lit ''k'') (Some 41)
       \<lparr>sk_inner = replicate 32 7\<rparr> = Inr cs \<and>
     countersignature_verify demo_ext cs (verifying_key demo_ext \<lparr>sk_inner = replicate 32 7\<rparr>) = Inr ()"
proof -
  have "is_ok (to_jcs_bytes (countersignature_note_json \<lparr>cn_checkpoint_id = lit ''c'',
      cn_received_at = lit ''1'', cn_console_key_id = lit ''k'', cn_stream_high_water_seq = Some 41\<rparr>))"
    by (simp add: to_jcs_bytes_ok countersignature_note_json_def)
  then obtain cs where c: "countersignature_create demo_ext (lit ''c'') (lit ''1'') (lit ''k'') (Some 41)
      \<lparr>sk_inner = replicate 32 7\<rparr> = Inr cs"
    by (auto simp: countersignature_create_def sign_jcs_def is_ok_iff)
  from countersignature_roundtrip [OF demo_ed25519_law c] c show ?thesis by blast
qed

end
