(* ===== verification/Revocation.thy ===== *)
theory Revocation
  imports Keys
begin

text \<open>
  The signed revocation list (\<open>evidence/src/revocation.rs\<close>) and salted payload commitments
  (\<open>evidence/src/commitment.rs\<close>). A revocation takes effect at an instant and stays in effect; an
  entry whose time cannot be read never takes effect. A commitment opens to the payload and salt
  it was made from and to no other, unless BLAKE3 collides.
\<close>

section \<open>Revocation lists\<close>

record RevocationEntry =
  re_cert_fingerprint :: ustr
  re_effective_at :: ustr
  re_reason :: ustr

record RevocationList =
  rl_updated_at :: ustr
  rl_revocations :: "RevocationEntry list"

record SignedRevocationList =
  sr_list :: RevocationList
  sr_console_key_id :: ustr
  sr_signature :: ustr

definition revocation_entry_json :: "RevocationEntry \<Rightarrow> json" where
  "revocation_entry_json e = Object
     (fld ''cert_fingerprint'' (String (re_cert_fingerprint e)) @
      fld ''effective_at'' (String (re_effective_at e)) @
      fld ''reason'' (String (re_reason e)))"

definition revocation_list_json :: "RevocationList \<Rightarrow> json" where
  "revocation_list_json l = Object
     (fld ''updated_at'' (String (rl_updated_at l)) @
      fld ''revocations'' (Array (map revocation_entry_json (rl_revocations l))))"

definition revocation_list_create ::
  "'x ext_scheme \<Rightarrow> RevocationList \<Rightarrow> ustr \<Rightarrow> SigningKey \<Rightarrow> SignedRevocationList result" where
  "revocation_list_create X list_doc console_key_id key =
     rbind (sign_jcs X key (revocation_list_json list_doc)) (\<lambda>signature.
       Inr \<lparr>sr_list = list_doc, sr_console_key_id = console_key_id, sr_signature = signature\<rparr>)"

definition revocation_list_verify ::
  "'x ext_scheme \<Rightarrow> SignedRevocationList \<Rightarrow> VerifyingKey \<Rightarrow> unit result" where
  "revocation_list_verify X s console_key =
     verify_jcs X console_key (revocation_list_json (sr_list s)) (sr_signature s)
       [T ''revocation list'']"

definition is_revoked_at :: "'x ext_scheme \<Rightarrow> SignedRevocationList \<Rightarrow> ustr \<Rightarrow> int \<Rightarrow> bool" where
  "is_revoked_at X s cert_fingerprint instant =
     list_ex (\<lambda>r. re_cert_fingerprint r = cert_fingerprint \<and>
        (case parse_wall X (re_effective_at r) of Inr eff \<Rightarrow> eff \<le> instant | Inl e \<Rightarrow> False))
       (rl_revocations (sr_list s))"

section \<open>Commitments\<close>

definition COMMITMENT_ALG :: ustr where
  "COMMITMENT_ALG = lit ''blake3-salted''"

record Salt =
  salt_bytes :: bytes

definition salt_to_hex :: "Salt \<Rightarrow> ustr" where
  "salt_to_hex salt = hex_encode (salt_bytes salt)"

definition salt_from_hex :: "ustr \<Rightarrow> Salt result" where
  "salt_from_hex hex_text =
     rbind (hex_decode ''salt'' hex_text) (\<lambda>v.
       if length v = 32 then Inr \<lparr>salt_bytes = v\<rparr>
       else Inl (InvalidHex ''salt'' [T ''expected 32 bytes, got '', N (length v)]))"

definition commit :: "'x ext_scheme \<Rightarrow> bytes \<Rightarrow> Salt \<Rightarrow> PayloadCommitment" where
  "commit X payload salt =
     \<lparr>pc_alg = COMMITMENT_ALG, pc_commitment = blake3_hex X (salt_bytes salt @ payload)\<rparr>"

definition verify_commitment :: "'x ext_scheme \<Rightarrow> bytes \<Rightarrow> Salt \<Rightarrow> PayloadCommitment \<Rightarrow> bool" where
  "verify_commitment X payload salt commitment \<longleftrightarrow>
     pc_alg commitment = COMMITMENT_ALG \<and>
     pc_commitment (commit X payload salt) = pc_commitment commitment"

section \<open>Revocation lists are signed documents\<close>

definition valid_revocation_list :: "RevocationList \<Rightarrow> bool" where
  "valid_revocation_list l \<longleftrightarrow> is_ustr (rl_updated_at l) \<and>
     list_all (\<lambda>e. list_all is_ustr [re_cert_fingerprint e, re_effective_at e, re_reason e])
       (rl_revocations l)"

lemma revocation_entry_json_inj:
  "same_canon (revocation_entry_json a) (revocation_entry_json b) \<Longrightarrow> a = b"
proof -
  assume "same_canon (revocation_entry_json a) (revocation_entry_json b)"
  note m = same_canon_members [OF this [unfolded revocation_entry_json_def], unfolded lookup_append]
  show "a = b"
    using m [of "lit ''cert_fingerprint''"] m [of "lit ''effective_at''"] m [of "lit ''reason''"]
    by (intro RevocationEntry.equality) simp_all
qed

lemma canon_items_Inr: "canon_items vs = Inr cs \<longleftrightarrow> map canon vs = map Inr cs"
  by (induction vs arbitrary: cs) (auto simp: rbind_eq_Inr Cons_eq_map_conv)

lemma same_canon_Array:
  assumes "same_canon (Array as) (Array bs)"
  shows "list_all2 same_canon as bs"
proof -
  from assms have wf: "list_all wf_json as" "list_all wf_json bs" by (simp_all add: same_canon_def)
  from assms obtain cs where a: "canon_items as = Inr cs"
    by (auto simp: same_canon_def is_ok_iff rbind_eq_Inr)
  with assms have "canon_items bs = Inr cs"
    by (cases "canon_items bs") (auto simp: same_canon_def)
  with a wf have "map canon as = map Inr cs" "map canon bs = map Inr cs"
    "list_all wf_json as" "list_all wf_json bs"
    by (simp_all add: canon_items_Inr)
  then show ?thesis
    by (induction cs arbitrary: as bs) (auto simp: same_canon_def map_eq_Cons_conv)
qed

lemma revocation_list_json_inj:
  "same_canon (revocation_list_json a) (revocation_list_json b) \<Longrightarrow> a = b"
proof -
  assume "same_canon (revocation_list_json a) (revocation_list_json b)"
  note m = same_canon_members [OF this [unfolded revocation_list_json_def], unfolded lookup_append]
  have "same_canon (Array (map revocation_entry_json (rl_revocations a)))
      (Array (map revocation_entry_json (rl_revocations b)))"
    using m [of "lit ''revocations''"] by simp
  from same_canon_Array [OF this] have "list_all2 (=) (rl_revocations a) (rl_revocations b)"
    by (simp add: list_all2_map1 list_all2_map2 revocation_entry_json_inj list_all2_mono)
  then show "a = b" using m [of "lit ''updated_at''"]
    by (intro RevocationList.equality) (simp_all add: list.rel_eq)
qed

interpretation revocation_doc: signed_document revocation_list_json valid_revocation_list
proof
  show "wf_json (revocation_list_json l)" if "valid_revocation_list l" for l
    using that by (simp add: revocation_list_json_def revocation_entry_json_def list.pred_map
      valid_revocation_list_def distinct_flds_append list_all_append comp_def del: map_append)
qed (rule revocation_list_json_inj)

lemma is_revoked_at_iff:
  "is_revoked_at X s fp t \<longleftrightarrow> (\<exists>r \<in> set (rl_revocations (sr_list s)). re_cert_fingerprint r = fp \<and>
     (\<exists>eff. x_rfc3339 X (re_effective_at r) = Inr eff \<and> eff \<le> t))"
  unfolding is_revoked_at_def list_ex_iff parse_wall_def
  by (rule bex_cong [OF refl]) (auto split: sum.splits)

lemma salt_roundtrip: "length (salt_bytes salt) = 32 \<Longrightarrow> salt_from_hex (salt_to_hex salt) = Inr salt"
  by (simp add: salt_from_hex_def salt_to_hex_def)

section \<open>Properties\<close>

text \<open>
  Revocation starts at the effective time and is permanent. An entry with a readable time
  revokes its certificate from that instant on, the instant included, and adding entries to the
  list never makes a revoked certificate valid again.
\<close>

theorem revocation_permanent:
  assumes "r \<in> set (rl_revocations (sr_list s))" and "x_rfc3339 X (re_effective_at r) = Inr eff"
    and "set (rl_revocations (sr_list s)) \<subseteq> set (rl_revocations (sr_list s'))" and "eff \<le> t"
  shows "is_revoked_at X s' (re_cert_fingerprint r) t"
  using assms unfolding is_revoked_at_iff by blast

theorem revocation_permanent_witness:
  "is_revoked_at demo_ext \<lparr>sr_list = \<lparr>rl_updated_at = [], rl_revocations =
       [\<lparr>re_cert_fingerprint = lit ''f'', re_effective_at = lit ''10'', re_reason = []\<rparr>]\<rparr>,
     sr_console_key_id = [], sr_signature = []\<rparr> (lit ''f'') 10"
  (is "is_revoked_at _ ?s _ _")
  using revocation_permanent [of "\<lparr>re_cert_fingerprint = lit ''f'', re_effective_at = lit ''10'',
    re_reason = []\<rparr>" ?s demo_ext 10 ?s 10] by (simp add: demo_eval)

text \<open>
  An entry whose effective time cannot be read revokes nothing, at any instant: a list that
  has only such entries for a certificate leaves the certificate valid.
\<close>

theorem unreadable_revocation_ignored:
  assumes "\<And>r. r \<in> set (rl_revocations (sr_list s)) \<Longrightarrow> re_cert_fingerprint r = fp \<Longrightarrow>
      \<not> is_ok (x_rfc3339 X (re_effective_at r))"
  shows "\<not> is_revoked_at X s fp t"
  using assms unfolding is_revoked_at_iff by fastforce

theorem unreadable_revocation_ignored_witness:
  "\<not> is_revoked_at demo_ext \<lparr>sr_list = \<lparr>rl_updated_at = [], rl_revocations =
       [\<lparr>re_cert_fingerprint = lit ''f'', re_effective_at = lit ''soon'', re_reason = []\<rparr>]\<rparr>,
     sr_console_key_id = [], sr_signature = []\<rparr> (lit ''f'') 10"
  by (rule unreadable_revocation_ignored) (auto simp: demo_eval)

text \<open>
  A commitment opens to what it was made from, and to nothing else: the payload and the salt
  that open a commitment made from another payload and salt are that payload and that salt,
  unless BLAKE3 collides on the two.
\<close>

theorem commitment_binding:
  assumes "length (salt_bytes salt) = 32" "length (salt_bytes salt') = 32"
    and "blake3_distinguishes X {salt_bytes salt @ payload, salt_bytes salt' @ payload'}"
  shows "verify_commitment X payload' salt' (commit X payload salt) \<longleftrightarrow> payload' = payload \<and> salt' = salt"
proof -
  have "salt_bytes salt' @ payload' = salt_bytes salt @ payload"
    if "x_blake3 X (salt_bytes salt' @ payload') = x_blake3 X (salt_bytes salt @ payload)"
    by (rule blake3_distinguishesD [OF assms(3) _ _ that]) simp_all
  with assms(1,2) show ?thesis
    by (auto simp: verify_commitment_def commit_def intro: Salt.equality)
qed

theorem commitment_binding_witness:
  "verify_commitment wide_ext [1] \<lparr>salt_bytes = replicate 32 5\<rparr> (commit wide_ext [1] \<lparr>salt_bytes = replicate 32 5\<rparr>)
   \<and> \<not> verify_commitment wide_ext [2] \<lparr>salt_bytes = replicate 32 5\<rparr> (commit wide_ext [1] \<lparr>salt_bytes = replicate 32 5\<rparr>)"
  using commitment_binding [of "\<lparr>salt_bytes = replicate 32 5\<rparr>" "\<lparr>salt_bytes = replicate 32 5\<rparr>" wide_ext "[1]" "[1]"]
    commitment_binding [of "\<lparr>salt_bytes = replicate 32 5\<rparr>" "\<lparr>salt_bytes = replicate 32 5\<rparr>" wide_ext "[1]" "[2]"]
  by simp

text \<open>
  A revocation list signed by the Console verifies under the Console's public key and still
  holds the list that was signed.
\<close>

theorem revocation_list_roundtrip:
  assumes "ed25519_law X" and "revocation_list_create X l kid key = Inr s"
  shows "revocation_list_verify X s (verifying_key X key) = Inr () \<and> sr_list s = l"
  using assms(2)
  by (auto simp: revocation_list_create_def rbind_eq_Inr revocation_list_verify_def
    verify_sign_jcs [OF assms(1)])

theorem revocation_list_roundtrip_witness:
  "\<exists>s. revocation_list_create demo_ext \<lparr>rl_updated_at = [], rl_revocations = []\<rparr> [] \<lparr>sk_inner = []\<rparr> = Inr s \<and>
     revocation_list_verify demo_ext s (verifying_key demo_ext \<lparr>sk_inner = []\<rparr>) = Inr ()"
proof -
  have "is_ok (to_jcs_bytes (revocation_list_json \<lparr>rl_updated_at = [], rl_revocations = []\<rparr>))"
    by (simp add: to_jcs_bytes_ok revocation_list_json_def)
  then obtain s where c: "revocation_list_create demo_ext \<lparr>rl_updated_at = [], rl_revocations = []\<rparr> []
      \<lparr>sk_inner = []\<rparr> = Inr s"
    by (auto simp: revocation_list_create_def sign_jcs_def is_ok_iff)
  from revocation_list_roundtrip [OF demo_ed25519_law c] c show ?thesis by blast
qed

end
