(* ===== verification/Report.thy ===== *)
theory Report
  imports Errors
begin

text \<open>
  The verifier's report (\<open>verify/src/report.rs\<close>) and the collection of findings
  (\<open>Ctx\<close> of \<open>verify/src/engine.rs\<close>). The context is only ever appended to, so a stage of the
  verifier is modelled by the findings it pushes, in order, beside the state it returns;
  \<open>add\<close> and \<open>add_at\<close> make one finding.
\<close>

section \<open>Findings and results\<close>

datatype VerifyResult = Pass | PassWithFindings | Fail

datatype Severity = Info | Warning | Error

text \<open>Severities derive \<open>Ord\<close>: declaration order.\<close>

fun severity_rank :: "Severity \<Rightarrow> nat" where
  "severity_rank Info = 0"
| "severity_rank Warning = 1"
| "severity_rank Error = 2"

instantiation Severity :: linorder
begin

definition less_eq_Severity :: "Severity \<Rightarrow> Severity \<Rightarrow> bool" where
  "less_eq_Severity a b \<longleftrightarrow> severity_rank a \<le> severity_rank b"

definition less_Severity :: "Severity \<Rightarrow> Severity \<Rightarrow> bool" where
  "less_Severity a b \<longleftrightarrow> severity_rank a < severity_rank b"

instance
proof
  show "a = b" if "a \<le> b" "b \<le> a" for a b :: Severity
    using that by (cases a; cases b) (simp_all add: less_eq_Severity_def)
qed (auto simp: less_eq_Severity_def less_Severity_def)

end

record Finding =
  f_severity :: Severity
  f_class :: string
  f_message :: msg
  f_stream_id :: "ustr option"
  f_seq :: "u64 option"

definition add :: "Severity \<Rightarrow> string \<Rightarrow> msg \<Rightarrow> Finding" where
  "add severity cls message =
     \<lparr>f_severity = severity, f_class = cls, f_message = message, f_stream_id = None, f_seq = None\<rparr>"

definition add_at :: "Severity \<Rightarrow> string \<Rightarrow> msg \<Rightarrow> ustr \<Rightarrow> u64 option \<Rightarrow> Finding" where
  "add_at severity cls message stream seq =
     \<lparr>f_severity = severity, f_class = cls, f_message = message, f_stream_id = Some stream,
      f_seq = seq\<rparr>"

record Proven =
  pv_records :: u64
  pv_streams :: u64
  pv_span_from :: "ustr option"
  pv_span_to :: "ustr option"
  pv_earliest_anchor :: "ustr option"
  pv_attested_records :: u64
  pv_anchored_records :: u64

record ToolVersions =
  tv_verifier :: ustr
  tv_bundle_schema :: ustr

record Report =
  rp_result :: VerifyResult
  rp_bundle_id :: ustr
  rp_manifest_hash :: ustr
  rp_tool :: ToolVersions
  rp_proven :: Proven
  rp_findings :: "Finding list"
  rp_limits :: "ustr list"

definition STANDING_LIMITS :: "ustr list" where
  "STANDING_LIMITS = map lit
     [''Tamper-evident, not tamper-proof: this report proves integrity, ordering, timing, and origin of the recorded stream; it cannot prove that unrecorded events did not happen.'',
      ''Coverage is a deployment property: only operations that passed through a recorder are in this stream.'',
      ''Proven time comes from timestamp anchors: records are proven to exist no later than their earliest anchor; 'no earlier than' is bounded by the previous anchor and monotonic clock deltas.'',
      ''Subject attribution quality is as recorded (see each record's attribution field); it is not independently proven.'',
      ''Tail completeness is bounded, not proven: removing trailing records together with the checkpoints attesting them leaves a shorter, self-consistent chain. This report proves the stream reached at least the highest externally attested point; pass --expect-high-water STREAM=SEQ (from the Console's stream integrity endpoint) to make the true extent decidable.'']"

definition compute_result :: "Finding list \<Rightarrow> VerifyResult" where
  "compute_result findings =
     (if list_ex (\<lambda>f. f_severity f = Error) findings then Fail
      else if list_ex (\<lambda>f. f_severity f = Warning) findings then PassWithFindings
      else Pass)"

definition exit_code :: "Report \<Rightarrow> int" where
  "exit_code r = (case rp_result r of Pass \<Rightarrow> 0 | PassWithFindings \<Rightarrow> 10 | Fail \<Rightarrow> 11)"

section \<open>Rendering\<close>

text \<open>The rendered text as a message; \<open>[0x2014]\<close> is the dash of the first line.\<close>

definition newline :: part where
  "newline = S [10]"

definition severity_label :: "Severity \<Rightarrow> part" where
  "severity_label s = T (case s of Error \<Rightarrow> ''ERROR'' | Warning \<Rightarrow> ''WARN '' | Info \<Rightarrow> ''INFO '')"

definition finding_location :: "Finding \<Rightarrow> msg" where
  "finding_location f =
     (case (f_stream_id f, f_seq f) of
        (Some s, Some q) \<Rightarrow> [T '' [stream '', S s, T '' seq '', N (unat q), T '']'']
      | (Some s, None) \<Rightarrow> [T '' [stream '', S s, T '']'']
      | _ \<Rightarrow> [])"

definition render_finding :: "Finding \<Rightarrow> msg" where
  "render_finding f =
     [T ''  '', severity_label (f_severity f), T '' '', T (f_class f)] @ finding_location f
     @ [T '': ''] @ f_message f @ [newline]"

definition render_text :: "Report \<Rightarrow> msg" where
  "render_text r =
     [T ''sealr-verify '', S (tv_verifier (rp_tool r)), T '' '', S [0x2014], T '' bundle '',
      S (rp_bundle_id r), newline,
      T ''manifest hash (BLAKE3/JCS): '', S (rp_manifest_hash r), newline,
      newline, T ''RESULT: '',
      T (case rp_result r of Pass \<Rightarrow> ''PASS'' | PassWithFindings \<Rightarrow> ''PASS WITH FINDINGS'' | Fail \<Rightarrow> ''FAIL''),
      newline, newline,
      T ''Proven: '', N (unat (pv_records (rp_proven r))), T '' records across '',
      N (unat (pv_streams (rp_proven r))), T '' stream(s); '',
      N (unat (pv_attested_records (rp_proven r))), T '' attested by checkpoints; '',
      N (unat (pv_anchored_records (rp_proven r))), T '' anchored.'', newline] @
     (case (pv_span_from (rp_proven r), pv_span_to (rp_proven r)) of
        (Some from, Some to) \<Rightarrow> [T ''Recorded span: '', S from, T '' .. '', S to, newline]
      | _ \<Rightarrow> []) @
     (case pv_earliest_anchor (rp_proven r) of
        Some anchor \<Rightarrow> [T ''Earliest timestamp anchor: '', S anchor, newline]
      | None \<Rightarrow> []) @
     (if rp_findings r = [] then [newline, T ''Findings: none.'', newline]
      else [newline, T ''Findings ('', N (length (rp_findings r)), T ''):'', newline]
        @ concat (map render_finding (rp_findings r))) @
     [newline, T ''Standing limits:'', newline] @
     concat (map (\<lambda>l. [T ''  - '', S l, newline]) (rp_limits r))"

section \<open>How findings decide the result\<close>

abbreviation no_errors :: "Finding list \<Rightarrow> bool" where
  "no_errors fs \<equiv> compute_result fs \<noteq> Fail"

lemma no_errors_iff: "no_errors fs \<longleftrightarrow> (\<forall>f \<in> set fs. f_severity f \<noteq> Error)"
  by (auto simp: compute_result_def list_ex_iff)

lemma no_errors_append [simp]: "no_errors (fs @ gs) \<longleftrightarrow> no_errors fs \<and> no_errors gs"
  by (auto simp: no_errors_iff)

lemma no_errors_Nil [simp]: "no_errors []"
  by (simp add: no_errors_iff)

lemma no_errors_concat: "no_errors (concat fss) \<longleftrightarrow> (\<forall>fs \<in> set fss. no_errors fs)"
  by (auto simp: no_errors_iff)

lemma no_errors_add [simp]:
  "no_errors [add s c m] \<longleftrightarrow> s \<noteq> Error" "no_errors [add_at s c m st q] \<longleftrightarrow> s \<noteq> Error"
  by (simp_all add: no_errors_iff add_def add_at_def)

lemma fails_simps [simp]:
  "compute_result (fs @ gs) = Fail \<longleftrightarrow> compute_result fs = Fail \<or> compute_result gs = Fail"
  "compute_result [add s c m] = Fail \<longleftrightarrow> s = Error"
  "compute_result [add_at s c m st q] = Fail \<longleftrightarrow> s = Error"
  by (auto simp: compute_result_def add_def add_at_def)

lemma no_errors_Cons: "no_errors (f # fs) \<longleftrightarrow> f_severity f \<noteq> Error \<and> no_errors fs"
  by (auto simp: no_errors_iff)

section \<open>Properties\<close>

text \<open>
  The verdict is decided by the most severe finding: a report fails exactly when some finding
  is an error, passes with findings exactly when the worst is a warning, and findings that are
  added later can only make the verdict worse. The exit codes keep the three apart.
\<close>

theorem verdict_by_worst_finding:
  "compute_result fs = (case fold max (map f_severity fs) Info of
     Error \<Rightarrow> Fail | Warning \<Rightarrow> PassWithFindings | Info \<Rightarrow> Pass)"
proof -
  have step: "max (s::Severity) t = (if s = Error \<or> t = Error then Error
      else if s = Warning \<or> t = Warning then Warning else Info)" for s t
    by (cases s; cases t) (simp_all add: max_def less_eq_Severity_def)
  have "fold max (map f_severity fs) a = (if a = Error \<or> list_ex (\<lambda>f. f_severity f = Error) fs then Error
      else if a = Warning \<or> list_ex (\<lambda>f. f_severity f = Warning) fs then Warning else Info)" for a
    by (induction fs arbitrary: a) (use Severity.exhaust in \<open>auto simp: step\<close>)
  then show ?thesis by (simp add: compute_result_def)
qed

lemma render_text_shows:
  "f \<in> set (rp_findings r) \<Longrightarrow> \<exists>pre post. render_text r = pre @ render_finding f @ post"
proof -
  assume "f \<in> set (rp_findings r)"
  then obtain as bs where "rp_findings r = as @ f # bs" by (meson split_list)
  moreover from this have "rp_findings r \<noteq> []" by simp
  ultimately show ?thesis
    unfolding render_text_def
    by (simp only: if_False map_append concat_append concat.simps list.map append_assoc) (metis append_assoc)
qed

end
