(* ===== verification/Certs.thy ===== *)
theory Certs
  imports Keys
begin

text \<open>
  Validation of identity certificates (\<open>evidence/src/certs.rs\<close>): PEM blocks, fingerprints and the
  walk from a leaf through a pool of intermediates to a root. Parsing PEM and X.509 and checking
  an X.509 signature are third-party code: \<open>x509\<close> has what the program reads of a parsed
  certificate, and the encoding, which the signature check reads; the functions are fields of
  \<open>cext\<close>. Issuing certificates is in the theory \<open>Issuing\<close>.
\<close>

section \<open>Certificates\<close>

datatype parsed_extension = BasicConstraints bool | OtherExtension

record x509 =
  c_der :: bytes
  c_subject :: bytes
  c_issuer :: bytes
  c_common_names :: "ustr option list"
  c_extensions :: "parsed_extension list"
  c_subject_public_key :: bytes
  c_not_before :: int
  c_not_after :: int

record cext = ext +
  x_pem_items :: "bytes \<Rightarrow> (ustr + ustr \<times> bytes) list"
  x_x509_parse :: "bytes \<Rightarrow> ustr + x509"
  x_asn1_time :: "int \<Rightarrow> ustr + int"
  x_valid_at :: "x509 \<Rightarrow> int \<Rightarrow> bool"
  x_verify_cert :: "x509 \<Rightarrow> x509 \<Rightarrow> ustr + unit"

record ValidatedCert =
  vc_subject_common_name :: ustr
  vc_public_key :: VerifyingKey
  vc_fingerprint :: ustr
  vc_not_before_unix :: int
  vc_not_after_unix :: int

section \<open>Operations\<close>

fun pem_certificates :: "(ustr + ustr \<times> bytes) list \<Rightarrow> bytes list result" where
  "pem_certificates [] = Inr []"
| "pem_certificates (Inl e # items) = Inl (Certificate [T ''PEM parse: '', S e])"
| "pem_certificates (Inr (label, contents) # items) =
     rbind (pem_certificates items) (\<lambda>ders.
       Inr (if label = lit ''CERTIFICATE'' then contents # ders else ders))"

definition parse_pem_chain :: "'x cext_scheme \<Rightarrow> ustr \<Rightarrow> bytes list result" where
  "parse_pem_chain X pem =
     rbind (pem_certificates (x_pem_items X (str_bytes pem))) (\<lambda>ders.
       if ders = [] then Inl (Certificate [T ''no CERTIFICATE blocks in PEM'']) else Inr ders)"

definition cert_fingerprint :: "'x cext_scheme \<Rightarrow> ustr \<Rightarrow> ustr result" where
  "cert_fingerprint X cert_pem =
     rbind (parse_pem_chain X cert_pem) (\<lambda>ders. Inr (blake3_hex X (hd ders)))"

definition extract_ed25519_key :: "'x cext_scheme \<Rightarrow> x509 \<Rightarrow> VerifyingKey result" where
  "extract_ed25519_key X cert = key_from_bytes X (c_subject_public_key cert)"

definition common_name :: "x509 \<Rightarrow> ustr" where
  "common_name cert = (case c_common_names cert of Some cn # _ \<Rightarrow> cn | _ \<Rightarrow> [])"

definition parse_der :: "'x cext_scheme \<Rightarrow> string \<Rightarrow> bytes \<Rightarrow> x509 result" where
  "parse_der X what der =
     (case x_x509_parse X der of
        Inl e \<Rightarrow> Inl (Certificate [T what, T '' DER: '', S e]) | Inr c \<Rightarrow> Inr c)"

definition check_validity :: "'x cext_scheme \<Rightarrow> x509 \<Rightarrow> int \<Rightarrow> string \<Rightarrow> unit result" where
  "check_validity X cert instant what =
     (if \<not> x_valid_at X cert instant
      then Inl (Certificate [T what, T '' certificate '', D (common_name cert),
                 T '' not valid at requested time''])
      else Inr ())"

definition is_ca :: "x509 \<Rightarrow> bool" where
  "is_ca cert = list_ex (\<lambda>e. e = BasicConstraints True) (c_extensions cert)"

definition verify_signed_by :: "'x cext_scheme \<Rightarrow> x509 \<Rightarrow> x509 \<Rightarrow> string \<Rightarrow> unit result" where
  "verify_signed_by X cert issuer what =
     (case x_verify_cert X cert issuer of
        Inl e \<Rightarrow> Inl (Certificate [T what, T '' signature verification failed for '',
                   D (common_name cert), T '': '', S e])
      | Inr u \<Rightarrow> Inr ())"

text \<open>The inner loop: the first candidate of the pool whose subject is the wanted issuer decides.\<close>

fun find_issuer :: "'x cext_scheme \<Rightarrow> int \<Rightarrow> x509 \<Rightarrow> bytes list \<Rightarrow> bytes option result" where
  "find_issuer X instant current [] = Inr None"
| "find_issuer X instant current (cand_der # pool) =
     rbind (parse_der X ''pool'' cand_der) (\<lambda>cand.
       if c_subject cand = c_issuer current
       then rbind (check_validity X cand instant ''intermediate'') (\<lambda>_.
              if \<not> is_ca cand
              then Inl (Certificate [T ''intermediate '', S (common_name cand), T '' is not a CA''])
              else rbind (verify_signed_by X current cand ''intermediate'') (\<lambda>_.
                Inr (Some cand_der)))
       else find_issuer X instant current pool)"

text \<open>The outer loop, with the hops made so far.\<close>

function walk ::
  "'x cext_scheme \<Rightarrow> int \<Rightarrow> bytes list \<Rightarrow> x509 \<Rightarrow> nat \<Rightarrow> bytes \<Rightarrow> unit result" where
  "walk X instant pool root_cert hops current_der =
     (if 8 < hops + 1 then Inl (Certificate [T ''chain too deep''])
      else rbind (parse_der X ''chain'' current_der) (\<lambda>current.
        if c_issuer current = c_subject root_cert
        then rbind (verify_signed_by X current root_cert ''root'') (\<lambda>_.
               if \<not> is_ca root_cert then Inl (Certificate [T ''root is not a CA'']) else Inr ())
        else rbind (find_issuer X instant current pool) (\<lambda>found.
          case found of
            Some der \<Rightarrow> walk X instant pool root_cert (hops + 1) der
          | None \<Rightarrow> Inl (Certificate [T ''no issuer found for '', D (common_name current)]))))"
  by pat_completeness auto
termination
  by (relation "measure (\<lambda>(X, instant, pool, root_cert, hops, der). 8 - hops)") auto

declare walk.simps [simp del]

definition validate_chain ::
  "'x cext_scheme \<Rightarrow> ustr \<Rightarrow> ustr list \<Rightarrow> ustr \<Rightarrow> int \<Rightarrow> ValidatedCert result" where
  "validate_chain X leaf_pem intermediates_pem root_pem at_unix =
     rbind (parse_pem_chain X leaf_pem) (\<lambda>leaf_ders.
     rbind (parse_pem_chain X root_pem) (\<lambda>root_ders.
     rbind (collect_res (map (parse_pem_chain X) intermediates_pem)) (\<lambda>pools.
     rbind (parse_der X ''leaf'' (hd leaf_ders)) (\<lambda>leaf.
     rbind (parse_der X ''root'' (hd root_ders)) (\<lambda>root_cert.
     case x_asn1_time X at_unix of
       Inl e \<Rightarrow> Inl (Certificate [T ''timestamp: '', S e])
     | Inr instant \<Rightarrow>
         rbind (check_validity X leaf instant ''leaf'') (\<lambda>_.
         rbind (check_validity X root_cert instant ''root'') (\<lambda>_.
         rbind (walk X instant (concat pools) root_cert 0 (hd leaf_ders)) (\<lambda>_.
         rbind (extract_ed25519_key X leaf) (\<lambda>key.
         Inr \<lparr>vc_subject_common_name = common_name leaf, vc_public_key = key,
              vc_fingerprint = blake3_hex X (hd leaf_ders),
              vc_not_before_unix = c_not_before leaf, vc_not_after_unix = c_not_after leaf\<rparr>)))))))))"

section \<open>Specification: certificate paths\<close>

text \<open>
  \<open>cert_path X t pool root der n\<close>: from the certificate \<open>der\<close> there are \<open>n\<close> links up to the root,
  each certificate signed by the next, and every one between is from the pool, a CA and valid.
\<close>

inductive cert_path :: "'x cext_scheme \<Rightarrow> int \<Rightarrow> bytes list \<Rightarrow> x509 \<Rightarrow> bytes \<Rightarrow> nat \<Rightarrow> bool"
  for X :: "'x cext_scheme" and t :: int and pool :: "bytes list" and root_cert :: x509 where
  anchored: "x_x509_parse X der = Inr c \<Longrightarrow> c_issuer c = c_subject root_cert \<Longrightarrow>
     x_verify_cert X c root_cert = Inr u \<Longrightarrow> is_ca root_cert \<Longrightarrow>
     cert_path X t pool root_cert der (Suc 0)"
| link: "x_x509_parse X der = Inr c \<Longrightarrow> der' \<in> set pool \<Longrightarrow> x_x509_parse X der' = Inr c' \<Longrightarrow>
     c_subject c' = c_issuer c \<Longrightarrow> x_valid_at X c' t \<Longrightarrow> is_ca c' \<Longrightarrow> x_verify_cert X c c' = Inr u \<Longrightarrow>
     cert_path X t pool root_cert der' n \<Longrightarrow> cert_path X t pool root_cert der (Suc n)"

inductive_cases cert_pathE: "cert_path X t pool root_cert der n"

lemma parse_der_Inr: "parse_der X what der = Inr c \<longleftrightarrow> x_x509_parse X der = Inr c"
  by (auto simp: parse_der_def split: sum.splits)

lemma check_validity_Inr: "check_validity X c t what = Inr u \<longleftrightarrow> x_valid_at X c t"
  by (auto simp: check_validity_def)

lemma verify_signed_by_Inr: "verify_signed_by X c i what = Inr u \<longleftrightarrow> (\<exists>v. x_verify_cert X c i = Inr v)"
  by (auto simp: verify_signed_by_def split: sum.splits)

lemmas cert_Inr = rbind_eq_Inr parse_der_Inr check_validity_Inr verify_signed_by_Inr

lemma find_issuer_Some:
  "find_issuer X t c pool = Inr (Some der) \<Longrightarrow>
   \<exists>c' u. der \<in> set pool \<and> x_x509_parse X der = Inr c' \<and> c_subject c' = c_issuer c \<and>
     x_valid_at X c' t \<and> is_ca c' \<and> x_verify_cert X c c' = Inr u"
  by (induction pool) (auto simp: cert_Inr split: if_splits)

lemma walk_sound:
  "walk X t pool root_cert hops der = Inr u \<Longrightarrow>
   \<exists>n. cert_path X t pool root_cert der n \<and> hops + n \<le> 8"
proof (induction X t pool root_cert hops der rule: walk.induct)
  case (1 X t pool root_cert hops der)
  from "1.prems" obtain c where h: "\<not> 8 < hops + 1" and c: "x_x509_parse X der = Inr c"
    by (subst (asm) walk.simps) (auto simp: cert_Inr split: if_splits)
  show ?case
  proof (cases "c_issuer c = c_subject root_cert")
    case True
    with "1.prems" c h have "cert_path X t pool root_cert der (Suc 0)"
      by (subst (asm) walk.simps)
        (auto simp: rbind_eq_Inr parse_der_def verify_signed_by_Inr intro: anchored split: if_splits)
    with h show ?thesis by (intro exI [of _ "Suc 0"]) simp
  next
    case False
    with "1.prems" c h obtain der' where f: "find_issuer X t c pool = Inr (Some der')"
      and w: "walk X t pool root_cert (hops + 1) der' = Inr u"
      by (subst (asm) walk.simps) (auto simp: rbind_eq_Inr parse_der_def split: if_splits option.splits)
    have p: "parse_der X ''chain'' der = Inr c" using c by (simp add: parse_der_Inr)
    from "1.IH" [OF h p False f refl w] obtain n
      where "cert_path X t pool root_cert der' n" "hops + 1 + n \<le> 8" by blast
    with find_issuer_Some [OF f] c show ?thesis
      by (intro exI [of _ "Suc n"]) (auto intro: link)
  qed
qed

lemma parse_pem_chain_nonempty: "parse_pem_chain X pem = Inr ders \<Longrightarrow> ders \<noteq> []"
  by (auto simp: parse_pem_chain_def rbind_eq_Inr split: if_splits)

lemma validate_chain_fingerprint:
  "validate_chain X leaf_pem pool root_pem t = Inr vc \<Longrightarrow> parse_pem_chain X leaf_pem = Inr (der # ders) \<Longrightarrow>
   vc_fingerprint vc = blake3_hex X der"
  by (cases "x_asn1_time X t") (auto simp: validate_chain_def cert_Inr)

section \<open>A concrete certificate format\<close>

text \<open>
  Five bytes: subject, issuer, CA flag, first and last second of validity. The key is the
  subject's byte repeated; a certificate verifies under the one whose subject is its issuer.
\<close>

fun demo_x509 :: "bytes \<Rightarrow> ustr + x509" where
  "demo_x509 [s, i, ca, nb, na] =
     Inr \<lparr>c_der = [s, i, ca, nb, na], c_subject = [s], c_issuer = [i], c_common_names = [Some [unat s]],
          c_extensions = [BasicConstraints (ca = 1)], c_subject_public_key = replicate 32 s,
          c_not_before = uint nb, c_not_after = uint na\<rparr>"
| "demo_x509 _ = Inl (lit ''truncated'')"

fun demo_pem :: "bytes \<Rightarrow> (ustr + ustr \<times> bytes) list" where
  "demo_pem (a # b # c # d # e # rest) = Inr (lit ''CERTIFICATE'', [a, b, c, d, e]) # demo_pem rest"
| "demo_pem _ = []"

definition with_certs :: "ext \<Rightarrow> cext" where
  "with_certs X = ext.extend X (cext.fields demo_pem demo_x509 Inr
     (\<lambda>c t. c_not_before c \<le> t \<and> t \<le> c_not_after c)
     (\<lambda>c issuer. if c_issuer c = c_subject issuer then Inr () else Inl (lit ''bad signature'')))"

lemma with_certs_simps [simp]:
  "x_blake3 (with_certs X) = x_blake3 X"
  "x_ed_key (with_certs X) = x_ed_key X"
  "x_pem_items (with_certs X) = demo_pem"
  "x_x509_parse (with_certs X) = demo_x509"
  "x_asn1_time (with_certs X) = Inr"
  "x_valid_at (with_certs X) = (\<lambda>c t. c_not_before c \<le> t \<and> t \<le> c_not_after c)"
  "x_verify_cert (with_certs X) = (\<lambda>c issuer.
     if c_issuer c = c_subject issuer then Inr () else Inl (lit ''bad signature''))"
  by (simp_all add: with_certs_def ext.defs cext.defs)

section \<open>Properties\<close>

text \<open>
  C21: A chain that validates is a real one. There are at most eight links from the leaf to the
  root; each certificate on the way is signed by the next, each intermediate one comes
  from the given pool, is a CA and is valid at the requested time, and so is the root. The
  identity returned is the leaf's: its key, its common name, and the BLAKE3 fingerprint of its
  DER.
\<close>

theorem validate_chain_sound:
  assumes "validate_chain X leaf_pem intermediates_pem root_pem at_unix = Inr vc"
  shows "\<exists>leaf_ders root_ders pools leaf root_cert t n.
    parse_pem_chain X leaf_pem = Inr leaf_ders \<and> parse_pem_chain X root_pem = Inr root_ders \<and>
    map (parse_pem_chain X) intermediates_pem = map Inr pools \<and>
    x_x509_parse X (hd leaf_ders) = Inr leaf \<and> x_x509_parse X (hd root_ders) = Inr root_cert \<and>
    x_asn1_time X at_unix = Inr t \<and> x_valid_at X leaf t \<and> x_valid_at X root_cert t \<and>
    cert_path X t (concat pools) root_cert (hd leaf_ders) n \<and> n \<le> 8 \<and>
    extract_ed25519_key X leaf = Inr (vc_public_key vc) \<and>
    vc_subject_common_name vc = common_name leaf \<and> vc_fingerprint vc = blake3_hex X (hd leaf_ders)"
proof -
  from assms obtain leaf_ders root_ders pools leaf root_cert t u key
    where s: "parse_pem_chain X leaf_pem = Inr leaf_ders" "parse_pem_chain X root_pem = Inr root_ders"
      "collect_res (map (parse_pem_chain X) intermediates_pem) = Inr pools"
      "x_x509_parse X (hd leaf_ders) = Inr leaf" "x_x509_parse X (hd root_ders) = Inr root_cert"
      "x_asn1_time X at_unix = Inr t" "x_valid_at X leaf t" "x_valid_at X root_cert t"
      and w: "walk X t (concat pools) root_cert 0 (hd leaf_ders) = Inr u"
      and k: "extract_ed25519_key X leaf = Inr key"
      and vc: "vc = \<lparr>vc_subject_common_name = common_name leaf, vc_public_key = key,
              vc_fingerprint = blake3_hex X (hd leaf_ders),
              vc_not_before_unix = c_not_before leaf, vc_not_after_unix = c_not_after leaf\<rparr>"
    by (cases "x_asn1_time X at_unix") (auto simp: validate_chain_def cert_Inr)
  from walk_sound [OF w] obtain n where "cert_path X t (concat pools) root_cert (hd leaf_ders) n" "n \<le> 8"
    by auto
  with s k vc collect_res_Inr [THEN iffD1, OF s(3)] show ?thesis by (intro exI conjI) auto
qed

theorem validate_chain_sound_witness:
  "\<exists>vc leaf_ders root_ders pools leaf root_cert t n.
     validate_chain (with_certs demo_ext) [3, 2, 0, 0, 9] [[2, 1, 1, 0, 9]] [1, 1, 1, 0, 9] 5 = Inr vc \<and>
     cert_path (with_certs demo_ext) t (concat pools) root_cert (hd leaf_ders) n \<and> n \<le> 8 \<and>
     x_x509_parse (with_certs demo_ext) (hd root_ders) = Inr root_cert \<and>
     extract_ed25519_key (with_certs demo_ext) leaf = Inr (vc_public_key vc)"
proof -
  obtain vc where vc: "validate_chain (with_certs demo_ext)
      [3, 2, 0, 0, 9] [[2, 1, 1, 0, 9]] [1, 1, 1, 0, 9] 5 = Inr vc"
    by (simp add: validate_chain_def parse_pem_chain_def parse_der_def check_validity_def walk.simps
      verify_signed_by_def is_ca_def extract_ed25519_key_def key_from_bytes_def str_bytes_def demo_eval)
  from validate_chain_sound [OF vc] vc show ?thesis by blast
qed

text \<open>
  Only the first certificate of the root PEM is a trust anchor. Any further certificates of
  that PEM do not matter for the result, although the verifier joins all its trusted roots into
  one PEM text.
\<close>

theorem only_first_root_used:
  assumes "parse_pem_chain X root_pem = Inr (r # rs)" and "parse_pem_chain X first_pem = Inr [r]"
  shows "validate_chain X leaf_pem intermediates_pem root_pem at_unix =
    validate_chain X leaf_pem intermediates_pem first_pem at_unix"
  using assms by (simp add: validate_chain_def)

theorem only_first_root_used_witness:
  "let X = with_certs demo_ext; leaf = [3, 2, 0, 0, 9]; r1 = [1, 1, 1, 0, 9]; r2 = [2, 2, 1, 0, 9]
   in parse_pem_chain X (r1 @ r2) = Inr [map of_nat r1, map of_nat r2] \<and>
     validate_chain X leaf [] (r1 @ r2) 5 = validate_chain X leaf [] r1 5 \<and>
     \<not> isl (validate_chain X leaf [] r2 5) \<and> isl (validate_chain X leaf [] (r1 @ r2) 5)"
proof -
  let ?X = "with_certs demo_ext" let ?leaf = "[3, 2, 0, 0, 9] :: ustr"
  let ?r1 = "[1, 1, 1, 0, 9] :: ustr" let ?r2 = "[2, 2, 1, 0, 9] :: ustr"
  note ev = parse_pem_chain_def str_bytes_def validate_chain_def parse_der_def check_validity_def walk.simps
      verify_signed_by_def is_ca_def extract_ed25519_key_def key_from_bytes_def demo_eval
  have p: "parse_pem_chain ?X (?r1 @ ?r2) = Inr [[1, 1, 1, 0, 9], [2, 2, 1, 0, 9]]"
    "parse_pem_chain ?X ?r1 = Inr [[1, 1, 1, 0, 9]]"
    by (simp_all add: ev)
  have "\<not> isl (validate_chain ?X ?leaf [] ?r2 5)" "isl (validate_chain ?X ?leaf [] ?r1 5)"
    by (simp_all add: ev)
  with only_first_root_used [OF p] p show ?thesis by (simp add: Let_def)
qed

text \<open>
  The order of the intermediates decides. The first candidate with the wanted name is taken, and
  when it is expired the search does not go on: a leaf that validates when the renewed CA comes first
  is rejected when the expired one does.
\<close>

theorem intermediate_order_matters:
  "let X = with_certs demo_ext; leaf = [3, 2, 0, 0, 9]; root_pem = [1, 1, 1, 0, 9];
       renewed = [2, 1, 1, 0, 9]; expired = [2, 1, 1, 0, 4]
   in is_ok (validate_chain X leaf [renewed, expired] root_pem 5) \<and> \<not> is_ok (validate_chain X leaf [expired, renewed] root_pem 5)"
  by (simp add: Let_def parse_pem_chain_def str_bytes_def validate_chain_def parse_der_def check_validity_def walk.simps
    verify_signed_by_def is_ca_def extract_ed25519_key_def key_from_bytes_def demo_eval)

end
