(* ===== verification/Reread.thy ===== *)
theory Reread
  imports Chain
begin

text \<open>
  What a record line is read back as. A line holds the canonical bytes of a record, so its members
  are in canonical order and its numbers are integers; the parser keeps the order of the text. The
  value read is therefore not the value that was written, but the verifier cannot tell them apart:
  it sees the same view and computes the same hash.
\<close>

section \<open>The value of a canonical text\<close>

fun json_of_cval :: "cval \<Rightarrow> json" where
  "json_of_cval CNull = Null"
| "json_of_cval (CBool b) = Bool b"
| "json_of_cval (CInt i) = Number (if 0 \<le> i then PosInt (word_of_int i) else NegInt i)"
| "json_of_cval (CStr s) = String s"
| "json_of_cval (CArr cs) = Array (map json_of_cval cs)"
| "json_of_cval (CObj ms) = Object (map (\<lambda>p. (fst p, json_of_cval (snd p))) ms)"

definition reread :: "json \<Rightarrow> json" where
  "reread v = (case canon v of Inr c \<Rightarrow> json_of_cval c | Inl e \<Rightarrow> v)"

lemma safe_int_number: "safe_int n = Some i \<Longrightarrow> canon (json_of_cval (CInt i)) = Inr (CInt i)"
proof (cases n)
  case (PosInt u)
  assume "safe_int n = Some i"
  with PosInt have i: "i = uint u" "uint u \<le> 2 ^ 53 - 1" by (auto split: if_splits)
  then show ?thesis by simp
qed (auto simp: unsigned_of_int take_bit_int_eq_self split: if_splits)

lemma canon_members_keys: "canon_members kvs = Inr ms \<Longrightarrow> map fst ms = map fst kvs"
  by (induction kvs arbitrary: ms) (auto simp: rbind_eq_Inr)

lemma sort_members_id:
  assumes "map fst ms = map fst (sort_key member_order kvs)"
  shows "sort_key member_order (map (\<lambda>p. (fst p, f (snd p))) ms) = map (\<lambda>p. (fst p, f (snd p))) ms"
proof (rule sort_key_id_if_sorted)
  have "map member_order (map (\<lambda>p. (fst p, f (snd p))) ms) = map encode_utf16 (map fst ms)"
    by (simp add: member_order_def comp_def)
  also have "\<dots> = map member_order (sort_key member_order kvs)"
    unfolding assms by (simp add: member_order_def comp_def)
  finally show "sorted (map member_order (map (\<lambda>p. (fst p, f (snd p))) ms))" by (simp only: sorted_sort_key)
qed

lemma canon_json_of_cval:
  "canon v = Inr c \<Longrightarrow> canon (json_of_cval c) = Inr c"
  "canon_items vs = Inr cs \<Longrightarrow> canon_items (map json_of_cval cs) = Inr cs"
  "canon_members kvs = Inr ms \<Longrightarrow> canon_members (map (\<lambda>p. (fst p, json_of_cval (snd p))) ms) = Inr ms"
proof (induction v and vs and kvs arbitrary: c and cs and ms rule: canon_canon_items_canon_members.induct)
  case (3 n)
  then show ?case by (auto split: option.splits dest: safe_int_number simp del: json_of_cval.simps)
next
  case (6 kvs)
  then obtain ms where m: "canon_members (sort_key member_order kvs) = Inr ms" "c = CObj ms"
    by (auto simp: rbind_eq_Inr)
  with sort_members_id [OF canon_members_keys [OF m(1)], of json_of_cval] 6 show ?case by simp
qed (auto simp: rbind_eq_Inr)

lemma reread_canon: "canon v = Inr c \<Longrightarrow> canon (reread v) = Inr c"
  by (simp add: reread_def canon_json_of_cval(1))

lemma to_jcs_bytes_reread: "is_ok (to_jcs_bytes v) \<Longrightarrow> to_jcs_bytes (reread v) = to_jcs_bytes v"
  using reread_canon [of v] by (cases "canon v") (simp_all add: to_jcs_bytes_def write_refines_canon)

section \<open>Objects\<close>

lemma canon_members_filter:
  "canon_members kvs = Inr ms \<Longrightarrow> canon_members (filter (\<lambda>p. P (fst p)) kvs) = Inr (filter (\<lambda>p. P (fst p)) ms)"
  by (induction kvs arbitrary: ms) (auto simp: rbind_eq_Inr)

lemma canon_remove_member:
  assumes "canon (Object kvs) = Inr (CObj ms)"
  shows "canon (Object (remove_member k kvs)) = Inr (CObj (filter (\<lambda>p. fst p \<noteq> k) ms))"
  using assms canon_members_filter [of "sort_key member_order kvs" ms "\<lambda>j. j \<noteq> k"]
  by (auto simp: remove_member_def rbind_eq_Inr filter_sort [symmetric])

lemma canon_Object: "canon (Object kvs) = Inr c \<Longrightarrow> \<exists>ms. c = CObj ms"
  by (auto simp: rbind_eq_Inr)

lemma map_of_json_of: "map_of (map (\<lambda>p. (fst p, f (snd p))) ms) k = map_option f (map_of ms k)"
  by (induction ms) auto

text \<open>The member of the value read back is what the member of the value written is read back as.\<close>

lemma reread_member:
  assumes "is_ok (canon (Object kvs))" and "distinct (map fst kvs)" and "map_of kvs k = Some v"
  shows "\<exists>kvs'. reread (Object kvs) = Object kvs' \<and> map_of kvs' k = Some (reread v)"
proof -
  from assms(1) obtain ms where m: "canon_members (sort_key member_order kvs) = Inr ms" "canon (Object kvs) = Inr (CObj ms)"
    by (auto simp: is_ok_iff rbind_eq_Inr)
  from canon_members_map_of [OF m(1), of k] assms(2,3) obtain c where "canon v = Inr c" "map_of ms k = Some c"
    by (auto simp: map_of_sort_key is_ok_iff)
  with m(2) show ?thesis by (simp add: reread_def map_of_json_of)
qed

lemma compute_hash_reread:
  assumes "is_ok (canon (Object kvs))"
  shows "compute_hash_of_value X (reread (Object kvs)) = compute_hash_of_value X (Object kvs)"
proof -
  from assms obtain ms where m: "canon (Object kvs) = Inr (CObj ms)" using canon_Object by (metis is_ok_iff)
  then obtain kvs' where r: "reread (Object kvs) = Object kvs'" "canon (Object kvs') = Inr (CObj ms)"
    using reread_canon [OF m] by (simp add: reread_def)
  have "canon (Object (remove_member k kvs')) = canon (Object (remove_member k kvs))" for k
    using canon_remove_member [OF m] canon_remove_member [OF r(2)] by (simp only:)
  then show ?thesis unfolding r(1) by (simp add: compute_hash_of_value_def to_jcs_bytes_def write_refines_canon)
qed

section \<open>Records\<close>

lemma reread_leaf [simp]: "reread (String s) = String s" "is_ok (canon (U64 n)) \<Longrightarrow> reread (U64 n) = U64 n"
  by (auto simp: reread_def split: if_splits)

lemma wf_record_members: "wf_record r \<Longrightarrow> distinct (map fst (record_members r))"
  by (simp add: wf_record_def record_to_json_def)

lemma view_reread:
  assumes "wf_record r" and "is_ok (canon (record_to_json r))"
  shows "view_from_value (reread (record_to_json r)) = Inr (view_of_record r)"
proof -
  let ?kvs = "record_members r"
  have ok: "is_ok (canon (Object ?kvs))" "distinct (map fst ?kvs)"
    using assms wf_record_members by (simp_all add: record_to_json_def)
  obtain kvs' where o: "reread (Object ?kvs) = Object kvs'"
    using ok(1) canon_Object by (fastforce simp: is_ok_iff reread_def)
  have m: "map_of ?kvs k = Some v \<Longrightarrow> map_of kvs' k = Some (reread v)" for k v
    using reread_member [OF ok] o by fastforce
  have u: "map_of ?kvs k = Some (U64 n) \<Longrightarrow> map_of kvs' k = Some (U64 n)" for k n
    using m [of k "U64 n"] canon_ok_member [OF ok(1), of k "U64 n"] assms(1)
    by (simp only: reread_leaf wf_record_def record_to_json_def simp_thms)
  have s: "map_of ?kvs k = Some (String t) \<Longrightarrow> map_of kvs' k = Some (String t)" for k t
    using m [of k "String t"] by simp
  from view_from_record [of r] show ?thesis
    unfolding record_to_json_def o view_from_value_Inr json.inject by (blast intro: s u)
qed

lemma verify_next_reread:
  assumes "wf_record r" and "is_ok (canon (record_to_json r))"
  shows "verify_next X sv (reread (record_to_json r)) = verify_next X sv (record_to_json r)"
  using view_reread [OF assms] compute_hash_reread [OF assms(2) [unfolded record_to_json_def], of X]
    view_from_record [of r]
  by (simp add: verify_next_def record_to_json_def)

section \<open>Records of a chain\<close>

definition read_back :: "Record \<Rightarrow> json" where
  "read_back r = reread (record_to_json r)"

abbreviation encodable :: "Record \<Rightarrow> bool" where
  "encodable r \<equiv> wf_record r \<and> is_ok (canon (record_to_json r))"

lemma canon_ok: "is_ok (canon v) \<longleftrightarrow> is_ok (to_jcs_bytes v)"
  by (cases "canon v") (simp_all add: to_jcs_bytes_def write_refines_canon)

lemma content_ok: "is_ok (to_jcs_bytes (Object (record_content r))) \<Longrightarrow> is_ok (to_jcs_bytes (record_to_json r))"
  unfolding to_jcs_bytes_ok record_to_json_def record_content_def record_members_def by auto

lemma append_all_encodable:
  assumes "append_all X (chain_genesis X sid) rs = Inr (h, out)" and "list_all wf_record rs"
  shows "list_all encodable out"
proof -
  have "list_all (\<lambda>r. is_ok (canon (record_to_json r))) out"
    if "append_all X h0 rs = Inr (h, out)" for h0
    using that
  proof (induction rs arbitrary: h0 out)
    case (Cons r rs)
    then obtain h1 r1 out1 where a: "chain_append X h0 r = ((h1, r1), Inr ())"
      and rest: "append_all X h1 rs = Inr (h, out1)" and out: "out = r1 # out1"
      by (auto simp: rbind_eq_Inr split: prod.splits sum.splits)
    from a have "is_ok (to_jcs_bytes (Object (record_content r1)))"
      by (auto simp: chain_append_Inr compute_hash_content rbind_eq_Inr is_ok_iff)
    then have "is_ok (canon (record_to_json r1))" unfolding canon_ok by (rule content_ok)
    with Cons.IH [OF rest] out show ?case by simp
  qed simp
  moreover have "list_all wf_record out"
    by (rule append_wf [OF assms(1) _ assms(2)]) (simp add: chain_genesis_def)
  ultimately show ?thesis using assms(1) by (auto simp: list_all_iff)
qed

lemma verify_records_read_back:
  "list_all encodable out \<Longrightarrow> verify_records X sv (map read_back out) = verify_records X sv (map record_to_json out)"
  by (induction out arbitrary: sv) (simp_all add: verify_next_reread read_back_def)

text \<open>The lines of an honest chain verify when they are read back.\<close>

lemma honest_lines_verify:
  assumes "ulid_law X" and "append_all X (chain_genesis X sid) rs = Inr (h, out)" and "clocks_ok X rs"
    and "list_all wf_record rs"
  obtains sv sv' where "verifier_new X (x_ulid_str X sid) = Inr sv" "verify_records X sv (map read_back out) = Inr (sv', [])"
proof -
  from genesis_in_step [OF assms(1)] obtain sv where sv: "verifier_new X (x_ulid_str X sid) = Inr sv"
    "in_step X None (chain_genesis X sid) sv" by blast
  from append_all_in_step [OF assms(2) sv(2)] assms(3) obtain sv'
    where "verify_records X sv (map record_to_json out) = Inr (sv', [])" by (auto simp: clocks_ok_def)
  with sv(1) show ?thesis
    by (intro that) (simp_all add: verify_records_read_back [OF append_all_encodable [OF assms(2,4)]])
qed

lemma read_back_view: "encodable r \<Longrightarrow> view_from_value (read_back r) = Inr (view_of_record r)"
  by (simp add: read_back_def view_reread)

lemma wf_json_of_cval:
  "wf_json v \<Longrightarrow> canon v = Inr c \<Longrightarrow> wf_json (json_of_cval c)"
  "list_all wf_json vs \<Longrightarrow> canon_items vs = Inr cs \<Longrightarrow> list_all wf_json (map json_of_cval cs)"
  "list_all (\<lambda>p. is_ustr (fst p) \<and> wf_json (snd p)) kvs \<Longrightarrow> canon_members kvs = Inr ms \<Longrightarrow>
     list_all (\<lambda>p. is_ustr (fst p) \<and> wf_json (json_of_cval (snd p))) ms"
proof (induction v and vs and kvs arbitrary: c and cs and ms rule: canon_canon_items_canon_members.induct)
  case (3 n)
  then show ?case by (cases n) (auto simp: wf_number_def split: option.splits if_splits)
next
  case (6 kvs)
  then obtain ms where m: "canon_members (sort_key member_order kvs) = Inr ms" "c = CObj ms"
    by (auto simp: rbind_eq_Inr)
  have "distinct (map fst (sort_key member_order kvs))"
    using 6(2) by (simp add: distinct_map inj_on_def)
  with 6 m canon_members_keys [OF m(1)] show ?case by (simp add: comp_def list_all_iff)
qed (auto simp: rbind_eq_Inr)

lemma wf_read_back: "encodable r \<Longrightarrow> wf_json (read_back r)"
  by (auto simp: read_back_def reread_def wf_record_def is_ok_iff intro!: wf_json_of_cval(1))

end
