(* ===== verification/Stream_Check.thy ===== *)
theory Stream_Check
  imports Checkpoints Revocation Report Certs Reread
begin

text \<open>
  Stages 3 and 4 of the engine (\<open>verify/src/engine.rs\<close>): what the verifier keeps about a stream
  and the pass over its records. The reader hands the pass the lines it could read and, if it had
  to stop early, the error; parsing a line is an external function. \<open>HashMap\<close> and \<open>BTreeMap\<close> are
  association lists without repeated keys, the latter in key order.
\<close>

section \<open>Maps of the standard library\<close>

fun btree_insert :: "'k::linorder \<Rightarrow> 'v \<Rightarrow> ('k \<times> 'v) list \<Rightarrow> ('k \<times> 'v) list" where
  "btree_insert k v [] = [(k, v)]"
| "btree_insert k v ((j, w) # m) =
     (if k < j then (k, v) # (j, w) # m
      else if k = j then (k, v) # m
      else (j, w) # btree_insert k v m)"

definition hash_insert :: "'k \<Rightarrow> 'v \<Rightarrow> ('k \<times> 'v) list \<Rightarrow> ('k \<times> 'v) list" where
  "hash_insert k v m = (k, v) # filter (\<lambda>p. fst p \<noteq> k) m"

text \<open>What the engine relies on when it stores and looks up.\<close>

locale lookup_table =
  fixes ins :: "'k \<Rightarrow> 'v \<Rightarrow> ('k \<times> 'v) list \<Rightarrow> ('k \<times> 'v) list"
  assumes lookup_ins: "map_of (ins k v m) = (map_of m)(k \<mapsto> v)"
begin

lemma lookup_same: "map_of (ins k v m) k = Some v"
  by (simp add: lookup_ins)

lemma keys_ins: "fst ` set (ins k v m) = insert k (fst ` set m)"
  using arg_cong [OF lookup_ins [of k v m], of dom] by (simp add: dom_map_of_conv_image_fst)

end

lemma map_of_btree_insert: "map_of (btree_insert k v m) = (map_of m)(k \<mapsto> v)"
  by (induction k v m rule: btree_insert.induct) (auto simp: fun_upd_twist)

lemma map_of_hash_insert: "map_of (hash_insert k v m) = (map_of m)(k \<mapsto> v)"
proof -
  have "map_of (filter (\<lambda>p. fst p \<noteq> k) m) j = map_of m j" if "j \<noteq> k" for j
    using that by (induction m) auto
  then show ?thesis by (auto simp: hash_insert_def fun_eq_iff)
qed

interpretation btree: lookup_table btree_insert
  by unfold_locales (rule map_of_btree_insert)

interpretation hmap: lookup_table hash_insert
  by unfold_locales (rule map_of_hash_insert)

lemma btree_insert_last: "(\<And>j. j \<in> fst ` set m \<Longrightarrow> j < k) \<Longrightarrow> btree_insert k v m = m @ [(k, v)]"
  by (induction k v m rule: btree_insert.induct) (auto simp: not_less_iff_gr_or_eq)

lemma sorted_btree_insert:
  "sorted_wrt (<) (map fst m) \<Longrightarrow> sorted_wrt (<) (map fst (btree_insert k v m))"
proof (induction k v m rule: btree_insert.induct)
  case (2 k v j w m)
  have "fst ` set (btree_insert k v m) = insert k (fst ` set m)" by (rule btree.keys_ins)
  then have "\<forall>i \<in> set (map fst (btree_insert k v m)). i = k \<or> i \<in> set (map fst m)"
    unfolding set_map by blast
  with 2 show ?case by (auto simp del: set_map intro: less_trans)
qed simp

section \<open>Parsing\<close>

text \<open>\<open>serde_json::from_slice\<close> on a line of the record stream.\<close>

record vext = cext +
  x_json_parse :: "bytes \<Rightarrow> ustr + json"

section \<open>What is known about a stream\<close>

record BundleCheckpoint =
  bc_checkpoint :: SignedCheckpoint
  bc_countersignature :: "Countersignature option"

record StreamData =
  d_hashes_by_seq :: "(u64 \<times> ustr) list"
  d_ts_min :: "ustr option"
  d_ts_max :: "ustr option"
  d_coverage_gap_count :: u64
  d_segments_without_end :: "ustr list"
  d_checkpoints :: "BundleCheckpoint list"
  d_attested_seqs :: "u64 set"
  d_anchored_seqs :: "u64 set"
  d_checkpoint_digests :: "(ustr \<times> bytes) list"
  d_valid_checkpoint_ranges :: "(ustr \<times> u64 \<times> u64) list"
  d_checkpoint_note_hashes :: "ustr set"
  d_checkpoint_links :: "(ustr \<times> ustr) list"
  d_countersigned_checkpoints :: "ustr set"
  d_countersigned_high_water :: "u64 option"
  d_top_checkpoint :: "(ustr \<times> u64) option"

definition stream_data_default :: StreamData where
  "stream_data_default = \<lparr>d_hashes_by_seq = [], d_ts_min = None, d_ts_max = None,
     d_coverage_gap_count = 0, d_segments_without_end = [], d_checkpoints = [],
     d_attested_seqs = {}, d_anchored_seqs = {}, d_checkpoint_digests = [],
     d_valid_checkpoint_ranges = [], d_checkpoint_note_hashes = {}, d_checkpoint_links = [],
     d_countersigned_checkpoints = {}, d_countersigned_high_water = None, d_top_checkpoint = None\<rparr>"

section \<open>Classes of chain findings\<close>

fun classify_chain_finding :: "ChainFinding \<Rightarrow> string \<times> msg" where
  "classify_chain_finding (RecordHashMismatch seq expected computed) =
     (''record_hash_mismatch'', [T ''record '', N (unat seq), T '': stored hash '', S expected,
        T '' but computed '', S computed])"
| "classify_chain_finding (LinkBroken seq expected found) =
     (''chain_link_broken'', [T ''record '', N (unat seq), T '': prev_hash '', S found,
        T '' does not match previous record '', S expected])"
| "classify_chain_finding (SeqGapInSegment segment_id expected found) =
     (''seq_gap'', [T ''segment '', S segment_id, T '': expected seq '', N (unat expected),
        T '', found '', N (unat found)])"
| "classify_chain_finding (SeqNotMonotonic prev found) =
     (''seq_not_monotonic'', [T ''seq '', N (unat found), T '' after '', N (unat prev)])"
| "classify_chain_finding (MonoRegression seq prev_ns found_ns) =
     (''monotonic_regression'', [T ''record '', N (unat seq), T '': monotonic clock went '',
        N (unat prev_ns), T '' -> '', N (unat found_ns)])"
| "classify_chain_finding (WallRegression seq delta_ms) =
     (''wall_clock_regression'', [T ''record '', N (unat seq), T '': wall clock regressed '',
        Z delta_ms, T '' ms without clock_anomaly''])"
| "classify_chain_finding (GenesisViolation found expected) =
     (''genesis_violation'', [T ''first record prev_hash '', S found, T '', expected genesis '',
        S expected])"
| "classify_chain_finding (SegmentBreak segment_id seq) =
     (''segment_break'', [T ''segment '', S segment_id, T '' opened at seq '', N (unat seq),
        T '' with an unrecoverable-head sentinel''])"
| "classify_chain_finding (StreamMismatch seq found_stream) =
     (''stream_mismatch'', [T ''record '', N (unat seq), T '' belongs to stream '', S found_stream])"
| "classify_chain_finding (BadWallTimestamp seq text) =
     (''bad_wall_timestamp'', [T ''record '', N (unat seq), T '': unparseable ts_wall '', D text])"

fun chain_severity :: "ChainFinding \<Rightarrow> Severity" where
  "chain_severity (SegmentBreak _ _) = Warning"
| "chain_severity _ = Error"

definition report_chain_finding :: "ustr \<Rightarrow> u64 option \<Rightarrow> ChainFinding \<Rightarrow> Finding" where
  "report_chain_finding stream_id seq f =
     (let (cls, message) = classify_chain_finding f
      in add_at (chain_severity f) cls message stream_id seq)"

section \<open>The pass over the records\<close>

record StreamScan =
  ss_verifier :: StreamVerifier
  ss_data :: StreamData
  ss_segments_seen :: "ustr list"
  ss_segments_ended :: "ustr set"

definition get_str :: "json \<Rightarrow> string \<Rightarrow> ustr option" where
  "get_str v k = Option.bind (get v (lit k)) as_str"

definition note_stats :: "json \<Rightarrow> u64 option \<Rightarrow> StreamData \<Rightarrow> StreamData" where
  "note_stats v seq data =
     (let data = (case (seq, get_str v ''record_hash'') of
            (Some seq, Some hash) \<Rightarrow> data\<lparr>d_hashes_by_seq := btree_insert seq hash (d_hashes_by_seq data)\<rparr>
          | _ \<Rightarrow> data);
          data = (case get_str v ''ts_wall'' of
            Some ts \<Rightarrow> data\<lparr>
              d_ts_min := (case d_ts_min data of
                 Some m \<Rightarrow> if ts < m then Some ts else Some m | None \<Rightarrow> Some ts),
              d_ts_max := (case d_ts_max data of
                 Some m \<Rightarrow> if m < ts then Some ts else Some m | None \<Rightarrow> Some ts)\<rparr>
          | None \<Rightarrow> data)
      in if get_str v ''record_type'' = Some (lit ''coverage_gap'')
         then data\<lparr>d_coverage_gap_count := d_coverage_gap_count data + 1\<rparr> else data)"

definition note_segments :: "json \<Rightarrow> ustr list \<times> ustr set \<Rightarrow> ustr list \<times> ustr set" where
  "note_segments v = (\<lambda>(seen, ended).
     case get_str v ''segment_id'' of
       None \<Rightarrow> (seen, ended)
     | Some seg \<Rightarrow>
         (if seen \<noteq> [] \<and> last seen = seg then seen else seen @ [seg],
          if get_str v ''record_type'' = Some (lit ''lifecycle'') \<and>
             Option.bind (get v (lit ''action'')) (\<lambda>a. get_str a ''operation'') = Some (lit ''segment_end'')
          then insert seg ended else ended))"

definition scan_line ::
  "'x vext_scheme \<Rightarrow> ustr \<Rightarrow> StreamScan \<Rightarrow> bytes \<Rightarrow> StreamScan \<times> Finding list" where
  "scan_line X stream_id sc line =
     (case x_json_parse X line of
        Inl e \<Rightarrow> (sc, [add_at Error ''record_parse_error'' [S e] stream_id None])
      | Inr v \<Rightarrow>
          let seq = Option.bind (get v (lit ''seq'')) as_u64 in
          (case verify_next X (ss_verifier sc) v of
             Inl e \<Rightarrow> (sc, [add_at Error ''record_invalid'' (display_error e) stream_id seq])
           | Inr (sv, fs) \<Rightarrow>
               let (seen, ended) = note_segments v (ss_segments_seen sc, ss_segments_ended sc) in
               (\<lparr>ss_verifier = sv, ss_data = note_stats v seq (ss_data sc),
                 ss_segments_seen = seen, ss_segments_ended = ended\<rparr>,
                map (report_chain_finding stream_id seq) fs)))"

fun scan_lines ::
  "'x vext_scheme \<Rightarrow> ustr \<Rightarrow> StreamScan \<Rightarrow> bytes list \<Rightarrow> StreamScan \<times> Finding list" where
  "scan_lines X stream_id sc [] = (sc, [])"
| "scan_lines X stream_id sc (line # rest) =
     (let (sc1, fs) = scan_line X stream_id sc line;
          (sc2, gs) = scan_lines X stream_id sc1 rest
      in (sc2, fs @ gs))"

definition verify_stream_chain ::
  "'x vext_scheme \<Rightarrow> bytes list \<times> msg option \<Rightarrow> ustr \<Rightarrow> StreamData \<times> Finding list" where
  "verify_stream_chain X stream_lines stream_id =
     (case verifier_new X stream_id of
        Inl e \<Rightarrow> (stream_data_default,
                 [add_at Error ''stream_id_invalid'' (display_error e) stream_id None])
      | Inr sv \<Rightarrow>
          let (sc, fs) = scan_lines X stream_id \<lparr>ss_verifier = sv, ss_data = stream_data_default,
                ss_segments_seen = [], ss_segments_ended = {}\<rparr> (fst stream_lines);
              gs = (case snd stream_lines of None \<Rightarrow> []
                    | Some e \<Rightarrow> [add_at Error ''stream_read_error'' e stream_id None])
          in ((ss_data sc)\<lparr>d_segments_without_end :=
                 filter (\<lambda>s. s \<notin> ss_segments_ended sc) (ss_segments_seen sc)\<rparr>, fs @ gs))"

section \<open>A pass without errors\<close>

definition record_seq :: "json \<Rightarrow> u64" where
  "record_seq v = (case view_from_value v of Inr view \<Rightarrow> v_seq view | Inl e \<Rightarrow> 0)"

abbreviation only_breaks :: "ChainFinding list \<Rightarrow> bool" where
  "only_breaks fs \<equiv> list_all (\<lambda>f. chain_severity f = Warning) fs"

lemma report_severity [simp]: "f_severity (report_chain_finding st q f) = chain_severity f"
  by (simp add: report_chain_finding_def add_at_def split: prod.splits)

fun_cases chain_warningE: "chain_severity f = Warning"

lemma chain_severity_not_Error: "chain_severity f \<noteq> Error \<longleftrightarrow> chain_severity f = Warning"
  by (cases f) simp_all

lemma no_errors_reported: "no_errors (map (report_chain_finding st q) fs) \<longleftrightarrow> only_breaks fs"
  by (simp add: no_errors_iff list_all_iff chain_severity_not_Error)

lemma scan_line_clean:
  assumes "scan_line X sid sc line = (sc', fs)" and "no_errors fs"
  shows "\<exists>v view cfs. x_json_parse X line = Inr v \<and> view_from_value v = Inr view \<and>
    verify_next X (ss_verifier sc) v = Inr (ss_verifier sc', cfs) \<and> only_breaks cfs \<and>
    d_hashes_by_seq (ss_data sc') =
      btree_insert (v_seq view) (v_record_hash view) (d_hashes_by_seq (ss_data sc))"
proof -
  from assms obtain v where p: "x_json_parse X line = Inr v"
    by (auto simp: scan_line_def split: sum.splits)
  from assms p obtain sv cfs where n: "verify_next X (ss_verifier sc) v = Inr (sv, cfs)"
    by (auto simp: scan_line_def Let_def split: sum.splits)
  then obtain view where view: "view_from_value v = Inr view" by (auto simp: verify_next_Inr)
  then have "Option.bind (get v (lit ''seq'')) as_u64 = Some (v_seq view)"
    "get_str v ''record_hash'' = Some (v_record_hash view)"
    by (auto simp: view_from_value_Inr get_def get_str_def)
  with assms p n view show ?thesis
    by (auto simp: scan_line_def Let_def no_errors_reported note_stats_def split: prod.splits option.splits)
qed

lemma only_breaks_seq:
  assumes "verify_next X sv v = Inr (sv', fs)" and "only_breaks fs"
  shows "\<exists>view. view_from_value v = Inr view \<and> sv_prev sv' = Some view \<and>
    compute_hash_of_value X v = Inr (v_record_hash view) \<and>
    (\<forall>p. sv_prev sv = Some p \<longrightarrow> v_seq p < v_seq view)"
proof -
  from assms(1) obtain view computed where v: "view_from_value v = Inr view"
    and c: "compute_hash_of_value X v = Inr computed" and sv': "sv' = advance X sv view"
    and fs: "fs = check_stream sv view @ check_hash view computed @ check_prev X sv view"
    by (auto simp: verify_next_Inr)
  from assms(2) fs have "check_hash view computed = []"
    by (auto simp: check_hash_def split: if_splits)
  moreover have "v_seq p < v_seq view" if "sv_prev sv = Some p" for p
    using assms(2) fs that by (auto simp: check_prev_def check_seq_def split: if_splits)
  ultimately show ?thesis using v c sv' by simp
qed

definition seqs_below :: "StreamScan \<Rightarrow> bool" where
  "seqs_below sc \<longleftrightarrow> (case sv_prev (ss_verifier sc) of
      None \<Rightarrow> d_hashes_by_seq (ss_data sc) = []
    | Some p \<Rightarrow> \<forall>s \<in> fst ` set (d_hashes_by_seq (ss_data sc)). s \<le> v_seq p)"

lemma scan_lines_clean:
  assumes "scan_lines X sid sc ls = (sc', fs)" and "no_errors fs" and "seqs_below sc"
  shows "\<exists>vs cfs. map (x_json_parse X) ls = map Inr vs \<and>
    verify_records X (ss_verifier sc) vs = Inr (ss_verifier sc', cfs) \<and> only_breaks cfs \<and>
    d_hashes_by_seq (ss_data sc') =
      d_hashes_by_seq (ss_data sc) @ map (\<lambda>v. (record_seq v, own_hash v)) vs"
  using assms
proof (induction ls arbitrary: sc fs)
  case (Cons line ls)
  obtain sc1 f1 f2 where 1: "scan_line X sid sc line = (sc1, f1)"
    and 2: "scan_lines X sid sc1 ls = (sc', f2)" and fs: "fs = f1 @ f2"
    using Cons.prems(1) by (auto split: prod.splits)
  from scan_line_clean [OF 1] Cons.prems(2) fs obtain v view cfs
    where v: "x_json_parse X line = Inr v" "view_from_value v = Inr view"
      and n: "verify_next X (ss_verifier sc) v = Inr (ss_verifier sc1, cfs)" and b: "only_breaks cfs"
      and h: "d_hashes_by_seq (ss_data sc1) =
        btree_insert (v_seq view) (v_record_hash view) (d_hashes_by_seq (ss_data sc))"
    by auto
  from only_breaks_seq [OF n b] v(2) have p: "sv_prev (ss_verifier sc1) = Some view"
    and lt: "\<And>p. sv_prev (ss_verifier sc) = Some p \<Longrightarrow> v_seq p < v_seq view" by auto
  have "s < v_seq view" if "s \<in> fst ` set (d_hashes_by_seq (ss_data sc))" for s
    using that Cons.prems(3) lt by (fastforce simp: seqs_below_def split: option.splits)
  then have last: "d_hashes_by_seq (ss_data sc1) =
      d_hashes_by_seq (ss_data sc) @ [(v_seq view, v_record_hash view)]"
    and below: "\<forall>s \<in> fst ` set (d_hashes_by_seq (ss_data sc)). s \<le> v_seq view"
    using h by (auto simp: btree_insert_last less_imp_le)
  then have "seqs_below sc1" using p by (auto simp: seqs_below_def)
  from Cons.IH [OF 2 _ this] Cons.prems(2) fs obtain vs cfs2
    where rest: "map (x_json_parse X) ls = map Inr vs"
      "verify_records X (ss_verifier sc1) vs = Inr (ss_verifier sc', cfs2)" "only_breaks cfs2"
      "d_hashes_by_seq (ss_data sc') =
        d_hashes_by_seq (ss_data sc1) @ map (\<lambda>v. (record_seq v, own_hash v)) vs"
    by auto
  with v n b last show ?case
    by (intro exI [of _ "v # vs"] exI [of _ "cfs @ cfs2"]) (simp add: record_seq_def own_hash_def)
qed simp

lemma clean_pass:
  assumes "verify_stream_chain X (stream_lines, read_error) sid = (data, fs)" and "no_errors fs"
  shows "\<exists>vs sv sv' cfs. read_error = None \<and> map (x_json_parse X) stream_lines = map Inr vs \<and>
    verifier_new X sid = Inr sv \<and> verify_records X sv vs = Inr (sv', cfs) \<and>
    list_all (\<lambda>f. \<exists>seg seq. f = SegmentBreak seg seq) cfs \<and>
    d_hashes_by_seq data = map (\<lambda>v. (record_seq v, own_hash v)) vs"
proof -
  from assms obtain sv where sv: "verifier_new X sid = Inr sv"
    by (auto simp: verify_stream_chain_def split: sum.splits)
  let ?sc = "\<lparr>ss_verifier = sv, ss_data = stream_data_default, ss_segments_seen = [],
    ss_segments_ended = {}\<rparr>"
  obtain sc gs where scan: "scan_lines X sid ?sc stream_lines = (sc, gs)" by fastforce
  from assms sv scan have e: "read_error = None" and gs: "no_errors gs"
    and d: "d_hashes_by_seq data = d_hashes_by_seq (ss_data sc)"
    by (auto simp: verify_stream_chain_def split: option.splits)
  have "seqs_below ?sc"
    using sv by (auto simp: seqs_below_def verifier_new_def stream_data_default_def split: sum.splits)
  from scan_lines_clean [OF scan gs this] obtain vs cfs
    where r: "map (x_json_parse X) stream_lines = map Inr vs"
      "verify_records X sv vs = Inr (ss_verifier sc, cfs)" "only_breaks cfs"
      "d_hashes_by_seq (ss_data sc) = map (\<lambda>v. (record_seq v, own_hash v)) vs"
    by (auto simp: stream_data_default_def)
  have "list_all (\<lambda>f. \<exists>seg seq. f = SegmentBreak seg seq) cfs"
    using r(3) by (rule list.pred_mono_strong) (auto elim: chain_warningE)
  with e sv r d show ?thesis
    by (intro exI [of _ vs] exI [of _ sv] exI [of _ "ss_verifier sc"] exI [of _ cfs]) simp
qed

section \<open>Clean runs report nothing\<close>

lemma scan_lines_of_clean:
  "map (x_json_parse X) ls = map Inr vs \<Longrightarrow> verify_records X (ss_verifier sc) vs = Inr (sv', []) \<Longrightarrow>
   snd (scan_lines X sid sc ls) = []"
proof (induction ls arbitrary: vs sc)
  case (Cons line ls)
  then obtain v vs' where vs: "vs = v # vs'" "x_json_parse X line = Inr v"
    "map (x_json_parse X) ls = map Inr vs'" by (auto simp: Cons_eq_map_conv)
  with Cons.prems(2) obtain sv1 where n: "verify_next X (ss_verifier sc) v = Inr (sv1, [])"
    "verify_records X sv1 vs' = Inr (sv', [])" by (fastforce simp: rbind_eq_Inr)
  from n(1) vs(2) have "snd (scan_line X sid sc line) = []"
    "ss_verifier (fst (scan_line X sid sc line)) = sv1"
    by (simp_all add: scan_line_def Let_def split: prod.splits)
  with Cons.IH [OF vs(3), of "fst (scan_line X sid sc line)"] n(2) show ?case
    by (auto split: prod.splits)
qed simp

lemma clean_stream:
  assumes "verifier_new X sid = Inr sv" and "verify_records X sv vs = Inr (sv', [])"
    and "map (x_json_parse X) ls = map Inr vs"
  shows "snd (verify_stream_chain X (ls, None) sid) = []"
  using scan_lines_of_clean [OF assms(3), of "\<lparr>ss_verifier = sv, ss_data = stream_data_default,
    ss_segments_seen = [], ss_segments_ended = {}\<rparr>" sv' sid] assms(1,2)
  by (auto simp: verify_stream_chain_def split: prod.splits)

section \<open>What a pass leaves behind\<close>

text \<open>Whatever the lines hold, the table of hashes is in order, and the later stages find no trace of their own.\<close>

definition unexamined :: "StreamData \<Rightarrow> bool" where
  "unexamined d \<longleftrightarrow> sorted_wrt (<) (map fst (d_hashes_by_seq d)) \<and> d_attested_seqs d = {} \<and> d_anchored_seqs d = {} \<and>
     d_checkpoint_links d = [] \<and> d_checkpoint_note_hashes d = {} \<and> d_countersigned_high_water d = None"

lemma unexamined_note_stats: "unexamined d \<Longrightarrow> unexamined (note_stats v q d)"
  by (simp add: unexamined_def note_stats_def Let_def sorted_btree_insert split: option.split)

lemma unexamined_scan_lines:
  "unexamined (ss_data sc) \<Longrightarrow> unexamined (ss_data (fst (scan_lines X sid sc ls)))"
proof (induction ls arbitrary: sc)
  case (Cons line ls)
  from Cons.prems have "unexamined (ss_data (fst (scan_line X sid sc line)))"
    by (simp add: scan_line_def Let_def unexamined_note_stats split: sum.split prod.split)
  from Cons.IH [OF this] show ?case by (simp add: split_beta Let_def)
qed simp

lemma unexamined_stream: "unexamined (fst (verify_stream_chain X ls sid))"
proof -
  have d: "unexamined stream_data_default" by (simp add: unexamined_def stream_data_default_def)
  with unexamined_scan_lines [of "\<lparr>ss_verifier = sv, ss_data = stream_data_default, ss_segments_seen = [],
    ss_segments_ended = {}\<rparr>" X sid "fst ls" for sv] show ?thesis
    by (simp add: verify_stream_chain_def unexamined_def split: sum.split prod.split) (metis fst_conv)
qed

section \<open>A concrete stream\<close>

text \<open>A parser added to the external functions does not change what the chain does.\<close>

definition with_parser :: "ext \<Rightarrow> (bytes \<Rightarrow> ustr + json) \<Rightarrow> vext" where
  "with_parser X parse = cext.extend (with_certs X) (vext.fields parse)"

lemma with_parser_simps [simp]:
  "x_blake3 (with_parser X p) = x_blake3 X"
  "x_ulid_str (with_parser X p) = x_ulid_str X"
  "x_ulid_parse (with_parser X p) = x_ulid_parse X"
  "x_rfc3339 (with_parser X p) = x_rfc3339 X"
  "x_json_parse (with_parser X p) = p"
  by (simp_all add: with_parser_def with_certs_def ext.defs cext.defs vext.defs)

lemma with_parser_chain [simp]:
  "genesis_prev_hash (with_parser X p) = genesis_prev_hash X"
  "compute_hash (with_parser X p) = compute_hash X"
  "parse_wall (with_parser X p) = parse_wall X"
  by (simp_all add: fun_eq_iff genesis_prev_hash_def blake3_hex_def compute_hash_content parse_wall_def)

lemma with_parser_append [simp]:
  "chain_genesis (with_parser X p) = chain_genesis X"
  "chain_append (with_parser X p) = chain_append X"
  "append_all (with_parser X p) = append_all X"
proof -
  show g: "chain_genesis (with_parser X p) = chain_genesis X" by (simp add: fun_eq_iff chain_genesis_def)
  show a: "chain_append (with_parser X p) = chain_append X"
    by (simp add: fun_eq_iff chain_append_def finalize_def)
  have "append_all (with_parser X p) h rs = append_all X h rs" for h rs
    by (induction rs arbitrary: h) (simp_all add: a split: prod.splits sum.splits)
  then show "append_all (with_parser X p) = append_all X" by (simp add: fun_eq_iff)
qed

lemma demo_stream_records:
  obtains X :: vext and h out where "ulid_law X" "clocks_ok X (replicate 3 (demo_record None))"
    "append_all X (chain_genesis X 5) (replicate 3 (demo_record None)) = Inr (h, out)"
    "x_ulid_str X 5 = lit ''5''" "length out = 3"
    "map (x_json_parse X) [[0], [1], [2]] = map (\<lambda>r. Inr (read_back r)) out"
proof -
  obtain h p a b where c: "append_all demo_ext (chain_genesis demo_ext 5)
      (replicate 3 (demo_record None)) = Inr (h, [p, a, b])"
    using demo_chain [of demo_ext] by (auto simp: demo_texts)
  let ?X = "with_parser demo_ext (\<lambda>l. Inr (read_back ([p, a, b] ! unat (hd l))))"
  have "clocks_ok ?X (replicate 3 (demo_record None))" by (rule demo_clocks) (simp add: demo_texts)
  moreover have "ulid_law ?X" using demo_ulid_law by (simp add: ulid_law_def)
  ultimately show ?thesis using that [of ?X h "[p, a, b]"] c by (simp add: demo_texts)
qed

lemma demo_stream:
  obtains X :: vext and vs sv sv' where "length vs = 3" "verifier_new X (lit ''5'') = Inr sv"
    "verify_records X sv vs = Inr (sv', [])" "map (x_json_parse X) [[0], [1], [2]] = map Inr vs"
proof -
  obtain X :: vext and h out where c: "ulid_law X" "clocks_ok X (replicate 3 (demo_record None))"
    "append_all X (chain_genesis X 5) (replicate 3 (demo_record None)) = Inr (h, out)"
    "x_ulid_str X 5 = lit ''5''" "length out = 3"
    "map (x_json_parse X) [[0], [1], [2]] = map (\<lambda>r. Inr (read_back r)) out"
    by (rule demo_stream_records)
  have "list_all wf_record (replicate 3 (demo_record None))" by (simp add: list_all_iff wf_demo_record)
  then obtain sv sv' where "verifier_new X (lit ''5'') = Inr sv" "verify_records X sv (map read_back out) = Inr (sv', [])"
    by (rule honest_lines_verify [OF c(1,3,2)]) (simp add: c(4))
  with c(5,6) that [of "map read_back out" X sv sv'] show ?thesis by (simp add: comp_def)
qed

section \<open>Properties\<close>

text \<open>
  If the pass over a stream reports no error, then the reader delivered the stream to its end,
  every line parsed, the records verify as one chain in which the only findings are segment
  breaks, and the table of hashes is exactly the list of the records' sequence numbers and
  hashes, in order: nothing is skipped, doubled or overwritten.
\<close>

theorem error_free_stream:
  assumes "verify_stream_chain X (stream_lines, read_error) sid = (data, fs)" and "no_errors fs"
  shows "\<exists>vs sv sv' cfs. read_error = None \<and> map (x_json_parse X) stream_lines = map Inr vs \<and>
    verifier_new X sid = Inr sv \<and> verify_records X sv vs = Inr (sv', cfs) \<and>
    list_all (\<lambda>f. \<exists>seg seq. f = SegmentBreak seg seq) cfs \<and>
    d_hashes_by_seq data = map (\<lambda>v. (record_seq v, own_hash v)) vs"
  using assms by (rule clean_pass)

theorem error_free_stream_witness:
  "\<exists>X vs data fs sv sv' cfs. length vs = 3 \<and>
     verify_stream_chain (X :: vext) ([[0], [1], [2]], None) (lit ''5'') = (data, fs) \<and> no_errors fs \<and>
     verify_records X sv vs = Inr (sv', cfs) \<and>
     d_hashes_by_seq data = map (\<lambda>v. (record_seq v, own_hash v)) vs"
proof -
  obtain X :: vext and vs sv sv' where c: "length vs = 3" "verifier_new X (lit ''5'') = Inr sv"
    "verify_records X sv vs = Inr (sv', [])" "map (x_json_parse X) [[0], [1], [2]] = map Inr vs"
    by (rule demo_stream)
  obtain data fs where r: "verify_stream_chain X ([[0], [1], [2]], None) (lit ''5'') = (data, fs)"
    by fastforce
  have fs: "no_errors fs" using clean_stream [OF c(2-4)] r by simp
  obtain ws sv1 sv2 cfs where w: "map (x_json_parse X) [[0], [1], [2]] = map Inr ws"
    "verify_records X sv1 ws = Inr (sv2, cfs)"
    "d_hashes_by_seq data = map (\<lambda>v. (record_seq v, own_hash v)) ws"
    using error_free_stream [OF r fs] by blast
  have "length ws = 3" using arg_cong [OF w(1), of length] by simp
  with w(2,3) r fs show ?thesis by blast
qed

text \<open>
  An honest stream produces no finding at all. If a recorder appended the records to a chain
  from genesis with well-behaved clocks, and the reader delivers lines that parse to the values of
  their canonical text, the pass reports nothing: no error, no warning, no note.
\<close>

theorem honest_stream_reports_nothing:
  assumes "ulid_law X" and "append_all X (chain_genesis X sid) rs = Inr (h, out)" and "clocks_ok X rs"
    and "list_all wf_record rs" and "map (x_json_parse X) stream_lines = map (\<lambda>r. Inr (read_back r)) out"
  shows "snd (verify_stream_chain X (stream_lines, None) (x_ulid_str X sid)) = []"
proof -
  obtain sv sv' where "verifier_new X (x_ulid_str X sid) = Inr sv" "verify_records X sv (map read_back out) = Inr (sv', [])"
    by (rule honest_lines_verify [OF assms(1-4)])
  from clean_stream [OF this] assms(5) show ?thesis by (simp add: comp_def)
qed

theorem honest_stream_reports_nothing_witness:
  "\<exists>(X :: vext) h out. append_all X (chain_genesis X 5) (replicate 3 (demo_record None)) = Inr (h, out) \<and>
     length out = 3 \<and> snd (verify_stream_chain X ([[0], [1], [2]], None) (lit ''5'')) = []"
proof -
  obtain X :: vext and h out where c: "ulid_law X" "clocks_ok X (replicate 3 (demo_record None))"
    "append_all X (chain_genesis X 5) (replicate 3 (demo_record None)) = Inr (h, out)"
    "x_ulid_str X 5 = lit ''5''" "length out = 3"
    "map (x_json_parse X) [[0], [1], [2]] = map (\<lambda>r. Inr (read_back r)) out"
    by (rule demo_stream_records)
  have "list_all wf_record (replicate 3 (demo_record None))" by (simp add: list_all_iff wf_demo_record)
  from honest_stream_reports_nothing [OF c(1,3,2) this c(6)] c show ?thesis by auto
qed

end
