(* ===== verification/Anchors.thy ===== *)
theory Anchors
  imports Keys Merkle
begin

text \<open>
  Anchor batches and daily roots (\<open>bundle/src/anchors.rs\<close>): the stored form of audit paths, the
  batch tree over checkpoint digests and the check of one inclusion. The theorems show that what
  \<open>build_batch\<close> stores verifies, and that an inclusion that verifies against a batch root names a
  leaf of that batch.
\<close>

section \<open>Documents\<close>

record StoredProofStep =
  sp_sibling :: ustr
  sp_left :: bool

definition to_step :: "StoredProofStep \<Rightarrow> ProofStep result" where
  "to_step s = rbind (hex_decode_digest ''proof.sibling'' (sp_sibling s)) (\<lambda>d.
     Inr \<lparr>sibling = d, sibling_on_left = sp_left s\<rparr>)"

definition from_step :: "ProofStep \<Rightarrow> StoredProofStep" where
  "from_step step = \<lparr>sp_sibling = hex_encode (sibling step), sp_left = sibling_on_left step\<rparr>"

record CheckpointInclusion =
  ci_checkpoint_id :: ustr
  ci_leaf :: ustr
  ci_leaf_index :: u64
  ci_tree_size :: u64
  ci_proof :: "StoredProofStep list"

record AnchorBatch =
  ab_batch_id :: ustr
  ab_created_at :: ustr
  ab_root_blake3 :: ustr
  ab_root_sha256 :: ustr
  ab_tsr_file :: "ustr option"
  ab_qualified :: bool
  ab_checkpoints :: "CheckpointInclusion list"

record DailyRoot =
  dr_day :: ustr
  dr_root_blake3 :: ustr
  dr_root_sha256 :: ustr
  dr_prev_day_hash :: "ustr option"
  dr_batch_roots :: "ustr list"
  dr_qts_file :: "ustr option"
  dr_signature :: "ustr option"
  dr_console_key_id :: "ustr option"

definition daily_root_json :: "DailyRoot \<Rightarrow> json" where
  "daily_root_json d = Object
     (fld ''day'' (String (dr_day d)) @
      fld ''root_blake3'' (String (dr_root_blake3 d)) @
      fld ''root_sha256'' (String (dr_root_sha256 d)) @
      opt_fld ''prev_day_hash'' (map_option String (dr_prev_day_hash d)) @
      fld ''batch_roots'' (Array (map String (dr_batch_roots d))) @
      opt_fld ''qts_file'' (map_option String (dr_qts_file d)) @
      opt_fld ''signature'' (map_option String (dr_signature d)) @
      opt_fld ''console_key_id'' (map_option String (dr_console_key_id d)))"

record AnchorProofs =
  ap_batches :: "AnchorBatch list"
  ap_daily :: "DailyRoot list"

definition anchor_proofs_default :: AnchorProofs where
  "anchor_proofs_default = \<lparr>ap_batches = [], ap_daily = []\<rparr>"

section \<open>Operations\<close>

fun batch_inclusions ::
  "'x ext_scheme \<Rightarrow> bytes list \<Rightarrow> nat \<Rightarrow> (ustr \<times> bytes) list \<Rightarrow> CheckpointInclusion list result" where
  "batch_inclusions X leaves i [] = Inr []"
| "batch_inclusions X leaves i ((cp_id, digest) # rest) =
     rbind (inclusion_proof X leaves i) (\<lambda>steps.
     rbind (batch_inclusions X leaves (Suc i) rest) (\<lambda>incs.
     Inr (\<lparr>ci_checkpoint_id = cp_id, ci_leaf = hex_encode digest, ci_leaf_index = of_nat i,
           ci_tree_size = of_nat (length leaves), ci_proof = map from_step steps\<rparr> # incs)))"

definition build_batch ::
  "'x ext_scheme \<Rightarrow> ustr \<Rightarrow> ustr \<Rightarrow> (ustr \<times> bytes) list \<Rightarrow> bool \<Rightarrow> AnchorBatch result" where
  "build_batch X batch_id created_at checkpoint_leaves qualified =
     (let leaves = map snd checkpoint_leaves;
          root_digest = merkle_root X leaves in
      rbind (batch_inclusions X leaves 0 checkpoint_leaves) (\<lambda>checkpoints.
      Inr \<lparr>ab_batch_id = batch_id, ab_created_at = created_at, ab_root_blake3 = hex_encode root_digest,
           ab_root_sha256 = sha256_hex X root_digest, ab_tsr_file = None, ab_qualified = qualified,
           ab_checkpoints = checkpoints\<rparr>))"

definition verify_stored_inclusion :: "'x ext_scheme \<Rightarrow> CheckpointInclusion \<Rightarrow> ustr \<Rightarrow> unit result" where
  "verify_stored_inclusion X inclusion root_blake3_hex =
     rbind (hex_decode_digest ''inclusion.leaf'' (ci_leaf inclusion)) (\<lambda>leaf.
     rbind (hex_decode_digest ''batch.root_blake3'' root_blake3_hex) (\<lambda>root_digest.
     rbind (collect_res (map to_step (ci_proof inclusion))) (\<lambda>steps.
     verify_inclusion X leaf (unat (ci_leaf_index inclusion)) (unat (ci_tree_size inclusion)) steps
       root_digest)))"

section \<open>Stored audit paths\<close>

lemma digest_steps_path: "leaves \<noteq> [] \<Longrightarrow> digest32 X \<Longrightarrow> digest_steps (path X leaves i)"
proof (induction leaves arbitrary: i rule: tree_induct)
  case (node leaves k)
  then have "take k leaves \<noteq> []" "drop k leaves \<noteq> []" by auto
  with node show ?case
    by (simp add: path_split [OF node(1,2)] digest_steps_def length_subtree_root)
qed (simp add: digest_steps_def)

lemma to_step_from_step: "length (sibling s) = 32 \<Longrightarrow> to_step (from_step s) = Inr s"
  by (simp add: to_step_def from_step_def hex_decode_digest_encode)

lemma to_steps_from_steps: "digest_steps steps \<Longrightarrow> collect_res (map to_step (map from_step steps)) = Inr steps"
  by (induction steps) (simp_all add: digest_steps_def to_step_from_step)

lemma to_steps_digests: "collect_res (map to_step stored) = Inr steps \<Longrightarrow> digest_steps steps"
  by (induction stored arbitrary: steps)
    (auto simp: digest_steps_def rbind_eq_Inr to_step_def hex_decode_digest_def DIGEST_LEN_def split: if_splits)

section \<open>Batches\<close>

lemma batch_inclusions_ok:
  assumes "digest32 X" and "leaves = map snd (pre @ rest)" and "length leaves < 2 ^ 64"
    and "list_all (\<lambda>d. length d = 32) leaves"
  shows "\<exists>incs. batch_inclusions X leaves (length pre) rest = Inr incs \<and>
    map ci_checkpoint_id incs = map fst rest \<and> map ci_leaf incs = map (hex_encode \<circ> snd) rest \<and>
    list_all (\<lambda>inc. verify_stored_inclusion X inc (hex_encode (merkle_root X leaves)) = Inr ()) incs"
  using assms(2)
proof (induction rest arbitrary: pre)
  case (Cons q rest)
  obtain cp_id d where q: "q = (cp_id, d)" by fastforce
  let ?i = "length pre"
  from Cons.prems q have l: "?i < length leaves" "leaves ! ?i = d" "leaves \<noteq> []"
    by (auto simp: nth_append)
  from Cons.IH [of "pre @ [q]"] Cons.prems obtain incs
    where incs: "batch_inclusions X leaves (Suc ?i) rest = Inr incs"
      "map ci_checkpoint_id incs = map fst rest" "map ci_leaf incs = map (hex_encode \<circ> snd) rest"
      "list_all (\<lambda>inc. verify_stored_inclusion X inc (hex_encode (merkle_root X leaves)) = Inr ()) incs"
    by (simp only: append_assoc append_Cons append_Nil length_append_singleton) blast
  have d: "length d = 32" using assms(4) l(1,2) unfolding list_all_length by blast
  have r: "length (merkle_root X leaves) = 32"
    using l(3) assms(1) by (simp add: merkle_root_def length_subtree_root)
  have n: "unat (of_nat ?i :: u64) = ?i" "unat (of_nat (length leaves) :: u64) = length leaves"
    using l(1) assms(3) by (simp_all add: unat_of_nat)
  have v: "verify_inclusion X d ?i (length leaves) (path X leaves ?i) (merkle_root X leaves) = Inr ()"
    using climb_path [OF l(3,1), of X] l by (simp add: verify_inclusion_def merkle_root_def)
  let ?inc = "\<lparr>ci_checkpoint_id = cp_id, ci_leaf = hex_encode d, ci_leaf_index = of_nat ?i,
    ci_tree_size = of_nat (length leaves), ci_proof = map from_step (path X leaves ?i)\<rparr>"
  have "verify_stored_inclusion X ?inc (hex_encode (merkle_root X leaves)) = Inr ()"
    unfolding verify_stored_inclusion_def CheckpointInclusion.simps n
      to_steps_from_steps [OF digest_steps_path [OF l(3) assms(1)]]
    using d r v by (simp add: hex_decode_digest_encode)
  moreover have "batch_inclusions X leaves ?i (q # rest) = Inr (?inc # incs)"
    using incs(1) l(1) by (simp add: q inclusion_proof_def)
  ultimately show ?case using incs(2-4) by (simp add: q)
qed simp

lemma build_batch_Inr:
  assumes "build_batch X batch_id created_at checkpoint_leaves qualified = Inr b"
  shows "ab_root_blake3 b = hex_encode (merkle_root X (map snd checkpoint_leaves))"
  using assms by (auto simp: build_batch_def rbind_eq_Inr Let_def)

section \<open>Properties\<close>

text \<open>
  A batch is built for every list of checkpoint digests, with one inclusion per checkpoint in
  the given order; every stored inclusion verifies against the stored root, and the SHA-256 digest
  that the timestamp authority signs is the one of the stored root.
\<close>

theorem build_batch_verifies:
  assumes "digest32 X" and "length checkpoint_leaves < 2 ^ 64"
    and "list_all (\<lambda>(cp_id, d). length d = 32) checkpoint_leaves"
  shows "\<exists>b root_raw. build_batch X batch_id created_at checkpoint_leaves qualified = Inr b \<and>
    map ci_checkpoint_id (ab_checkpoints b) = map fst checkpoint_leaves \<and>
    list_all (\<lambda>inc. verify_stored_inclusion X inc (ab_root_blake3 b) = Inr ()) (ab_checkpoints b) \<and>
    hex_decode_digest ''root_blake3'' (ab_root_blake3 b) = Inr root_raw \<and>
    sha256_hex X root_raw = ab_root_sha256 b"
proof -
  let ?leaves = "map snd checkpoint_leaves"
  have "list_all (\<lambda>d. length d = 32) ?leaves"
    using assms(3) by (auto simp: list_all_iff)
  from batch_inclusions_ok [OF assms(1), of ?leaves "[]" checkpoint_leaves] this assms(2) obtain incs
    where "batch_inclusions X ?leaves 0 checkpoint_leaves = Inr incs"
      "map ci_checkpoint_id incs = map fst checkpoint_leaves"
      "list_all (\<lambda>inc. verify_stored_inclusion X inc (hex_encode (merkle_root X ?leaves)) = Inr ()) incs"
    by auto
  moreover have "length (merkle_root X ?leaves) = 32"
    using assms(1) by (simp add: merkle_root_def length_subtree_root digest32_blake3)
  ultimately show ?thesis by (simp add: build_batch_def Let_def hex_decode_digest_encode)
qed

theorem build_batch_verifies_witness:
  "\<exists>b root_raw. build_batch demo_ext (lit ''b'') [] [(lit ''c'', replicate 32 1), (lit ''d'', replicate 32 2)]
     False = Inr b \<and> map ci_checkpoint_id (ab_checkpoints b) = [lit ''c'', lit ''d''] \<and>
    list_all (\<lambda>inc. verify_stored_inclusion demo_ext inc (ab_root_blake3 b) = Inr ()) (ab_checkpoints b) \<and>
    sha256_hex demo_ext root_raw = ab_root_sha256 b"
proof -
  let ?l = "[(lit ''c'', replicate 32 1), (lit ''d'', replicate 32 2)] :: (ustr \<times> bytes) list"
  have "length ?l < 2 ^ 64" "list_all (\<lambda>(cp_id, d). length d = 32) ?l" by simp_all
  from build_batch_verifies [OF demo_digest32 this, of "lit ''b''" "[]" False] show ?thesis
    unfolding list.map fst_conv by (elim exE conjE, intro exI conjI)
qed

text \<open>
  No foreign checkpoint passes for an anchored one. If an inclusion verifies against the root of
  a batch that was built over some digests, its leaf is one of those digests, unless BLAKE3 collides
  on the inputs hashed in building the batch tree and in climbing the stored path.
\<close>

theorem anchored_leaf_in_batch:
  assumes "digest32 X" and "build_batch X batch_id created_at checkpoint_leaves qualified = Inr b"
    and "checkpoint_leaves \<noteq> []" and "verify_stored_inclusion X inc (ab_root_blake3 b) = Inr ()"
    and "hex_decode_digest ''inclusion.leaf'' (ci_leaf inc) = Inr leaf"
    and "collect_res (map to_step (ci_proof inc)) = Inr steps"
    and "blake3_distinguishes X (tree_inputs X (map snd checkpoint_leaves) \<union> leaf_inputs X leaf steps)"
  shows "leaf \<in> snd ` set checkpoint_leaves"
proof -
  let ?leaves = "map snd checkpoint_leaves"
  have ne: "?leaves \<noteq> []" using assms(3) by simp
  have "length (merkle_root X ?leaves) = 32"
    using ne assms(1) by (simp add: merkle_root_def length_subtree_root)
  with assms(4-6) have "foldl (climb X) (leaf_hash X leaf) steps = subtree_root X ?leaves"
    using ne by (simp add: verify_stored_inclusion_def build_batch_Inr [OF assms(2)]
      hex_decode_digest_encode verify_inclusion_def merkle_root_def split: if_splits)
  from climb_sound [OF ne assms(1) to_steps_digests [OF assms(6)] assms(7) this]
  obtain i where "i < length ?leaves" "?leaves ! i = leaf" by blast
  then show ?thesis by (metis nth_mem set_map)
qed

theorem anchored_leaf_in_batch_witness:
  "\<exists>b inc. build_batch demo_ext (lit ''b'') [] [(lit ''c'', replicate 32 1)] False = Inr b \<and>
     verify_stored_inclusion demo_ext inc (ab_root_blake3 b) = Inr () \<and>
     hex_decode_digest ''inclusion.leaf'' (ci_leaf inc) = Inr (replicate 32 1) \<and>
     replicate 32 1 \<in> snd ` set [(lit ''c'', replicate 32 1 :: bytes)]"
proof -
  let ?inc = "\<lparr>ci_checkpoint_id = lit ''x'', ci_leaf = hex_encode (replicate 32 1), ci_leaf_index = 0,
    ci_tree_size = 1, ci_proof = []\<rparr>"
  obtain b where b: "build_batch demo_ext (lit ''b'') [] [(lit ''c'', replicate 32 1)] False = Inr b"
    by (simp add: build_batch_def Let_def inclusion_proof_def)
  have v: "verify_stored_inclusion demo_ext ?inc (ab_root_blake3 b) = Inr ()"
    by (simp add: build_batch_Inr [OF b] verify_stored_inclusion_def hex_decode_digest_encode
      merkle_root_def verify_inclusion_def leaf_hash_def)
  have l: "hex_decode_digest ''inclusion.leaf'' (ci_leaf ?inc) = Inr (replicate 32 1)"
    by (simp add: hex_decode_digest_encode)
  have "replicate 32 1 \<in> snd ` set [(lit ''c'', replicate 32 1 :: bytes)]"
    by (rule anchored_leaf_in_batch [OF demo_digest32 b _ v l, where steps = "[]"])
      (simp_all add: leaf_inputs_def blake3_distinguishes_def)
  with b v l show ?thesis by blast
qed

end
