(* ===== verification/Bundle.thy ===== *)
theory Bundle
  imports Stream_Check Anchors
begin

text \<open>
  The bundle: its documents (\<open>bundle/src/types.rs\<close>, \<open>manifest.rs\<close>), its errors (\<open>error.rs\<close>) and the
  reader (\<open>read.rs\<close>). The zip and zstd crates and the deserializers that serde derives are external:
  \<open>bext\<close> has them as fields, with the type \<open>'w\<close> of the stream that holds the container left open, as
  the code is generic in it. An opened archive lists its entry names and opens an entry by name; an
  opened entry delivers its bytes and may then fail.
\<close>

section \<open>Documents\<close>

record StreamCheckpoints =
  st_stream_id :: ustr
  st_checkpoints :: "BundleCheckpoint list"

record RecordIndexStream =
  ri_stream_id :: ustr
  ri_shards :: "ustr list"
  ri_seq_from :: u64
  ri_seq_to :: u64
  ri_record_count :: u64

record RecordIndex =
  ri_streams :: "RecordIndexStream list"

record TrustedRoot =
  tr_name :: ustr
  tr_cert_pem :: ustr

record ConsoleKeyStatement =
  ck_key_id :: ustr
  ck_public_key_pem :: ustr
  ck_not_before :: ustr
  ck_not_after :: ustr

definition console_key_statement_json :: "ConsoleKeyStatement \<Rightarrow> json" where
  "console_key_statement_json s = Object
     (fld ''key_id'' (String (ck_key_id s)) @
      fld ''public_key_pem'' (String (ck_public_key_pem s)) @
      fld ''not_before'' (String (ck_not_before s)) @
      fld ''not_after'' (String (ck_not_after s)))"

record AttestedConsoleKey =
  ak_statement :: ConsoleKeyStatement
  ak_signature :: "ustr option"
  ak_root_name :: "ustr option"

record RootsFile =
  rf_roots :: "TrustedRoot list"
  rf_console_keys :: "AttestedConsoleKey list"

record BundleIdentity =
  bi_certs_pem :: ustr
  bi_revocations :: "SignedRevocationList option"
  bi_roots :: RootsFile

datatype ExportLevel = Metadata | Full

record StreamScope =
  sco_stream_id :: ustr
  sco_seq_from :: u64
  sco_seq_to :: u64
  sco_record_count :: u64

record BundleScope =
  bs_level :: ExportLevel
  bs_ts_from :: "ustr option"
  bs_ts_to :: "ustr option"
  bs_resources :: "ustr list"
  bs_streams :: "StreamScope list"

record ContentEntry =
  ce_path :: ustr
  ce_blake3 :: ustr
  ce_bytes :: u64

record ToolInfo =
  ti_name :: ustr
  ti_version :: ustr

record Manifest =
  m_schema_version :: ustr
  m_bundle_id :: ustr
  m_created_at :: ustr
  m_tool :: ToolInfo
  m_scope :: BundleScope
  m_contents :: "ContentEntry list"

section \<open>The manifest's JSON form\<close>

definition level_json :: "ExportLevel \<Rightarrow> json" where
  "level_json l = String (case l of Metadata \<Rightarrow> lit ''metadata'' | Full \<Rightarrow> lit ''full'')"

definition stream_scope_json :: "StreamScope \<Rightarrow> json" where
  "stream_scope_json s = Object
     (fld ''stream_id'' (String (sco_stream_id s)) @
      fld ''seq_from'' (U64 (sco_seq_from s)) @
      fld ''seq_to'' (U64 (sco_seq_to s)) @
      fld ''record_count'' (U64 (sco_record_count s)))"

definition bundle_scope_json :: "BundleScope \<Rightarrow> json" where
  "bundle_scope_json s = Object
     (fld ''level'' (level_json (bs_level s)) @
      opt_fld ''ts_from'' (map_option String (bs_ts_from s)) @
      opt_fld ''ts_to'' (map_option String (bs_ts_to s)) @
      list_fld ''resources'' (bs_resources s) @
      fld ''streams'' (Array (map stream_scope_json (bs_streams s))))"

definition content_entry_json :: "ContentEntry \<Rightarrow> json" where
  "content_entry_json e = Object
     (fld ''path'' (String (ce_path e)) @
      fld ''blake3'' (String (ce_blake3 e)) @
      fld ''bytes'' (U64 (ce_bytes e)))"

definition tool_info_json :: "ToolInfo \<Rightarrow> json" where
  "tool_info_json t = Object
     (fld ''name'' (String (ti_name t)) @ fld ''version'' (String (ti_version t)))"

definition manifest_json :: "Manifest \<Rightarrow> json" where
  "manifest_json m = Object
     (fld ''schema_version'' (String (m_schema_version m)) @
      fld ''bundle_id'' (String (m_bundle_id m)) @
      fld ''created_at'' (String (m_created_at m)) @
      fld ''tool'' (tool_info_json (m_tool m)) @
      fld ''scope'' (bundle_scope_json (m_scope m)) @
      fld ''contents'' (Array (map content_entry_json (m_contents m))))"

definition jcs_hash :: "'x ext_scheme \<Rightarrow> Manifest \<Rightarrow> ustr result" where
  "jcs_hash X m = rbind (to_jcs_bytes (manifest_json m)) (\<lambda>bytes. Inr (blake3_hex X bytes))"

section \<open>Containers\<close>

datatype zip_error = FileNotFound | OtherZipError ustr

record zip_file =
  zf_data :: bytes
  zf_error :: "ustr option"

record zip_archive =
  za_index :: "(zip_error + ustr) list"
  za_by_name :: "ustr \<Rightarrow> zip_error + zip_file"

record 'w bext = vext +
  x_zip_open :: "'w \<Rightarrow> zip_error + zip_archive"
  x_zip_start :: "ustr list \<Rightarrow> ustr \<Rightarrow> zip_error option"
  x_zip_write :: "bytes \<Rightarrow> bytes \<times> ustr option"
  x_zip_finish :: "(ustr \<times> bytes) list \<Rightarrow> zip_error + 'w"
  x_zip_text :: "zip_error \<Rightarrow> ustr"
  x_zstd_decode :: "zip_file \<Rightarrow> ustr + bytes \<times> ustr option"
  x_zstd_encode :: "bytes \<Rightarrow> ustr + bytes"
  x_utf8_error :: "bytes \<Rightarrow> ustr"
  x_parse_manifest :: "bytes \<Rightarrow> ustr + Manifest"
  x_parse_index :: "bytes \<Rightarrow> ustr + RecordIndex"
  x_parse_checkpoints :: "bytes \<Rightarrow> ustr + StreamCheckpoints"
  x_parse_proofs :: "bytes \<Rightarrow> ustr + AnchorProofs"
  x_parse_revocations :: "bytes \<Rightarrow> ustr + SignedRevocationList"
  x_parse_roots :: "bytes \<Rightarrow> ustr + RootsFile"
  x_pretty_index :: "RecordIndex \<Rightarrow> ustr + bytes"
  x_pretty_checkpoints :: "StreamCheckpoints \<Rightarrow> ustr + bytes"
  x_pretty_proofs :: "AnchorProofs \<Rightarrow> ustr + bytes"
  x_pretty_revocations :: "SignedRevocationList \<Rightarrow> ustr + bytes"
  x_pretty_roots :: "RootsFile \<Rightarrow> ustr + bytes"

section \<open>Errors\<close>

datatype bundle_error =
    Io ustr
  | Zip zip_error
  | JsonError ustr
  | Evidence evidence_error
  | ManifestError msg
  | ContentHashMismatch ustr ustr ustr
  | MissingEntry msg
  | Invalid msg

type_synonym 'a bresult = "bundle_error + 'a"

fun display_bundle_error :: "('w, 'x) bext_scheme \<Rightarrow> bundle_error \<Rightarrow> msg" where
  "display_bundle_error X (Io e) = [T ''I/O error: '', S e]"
| "display_bundle_error X (Zip e) = [T ''zip error: '', S (x_zip_text X e)]"
| "display_bundle_error X (JsonError e) = [T ''JSON error: '', S e]"
| "display_bundle_error X (Evidence e) = T ''evidence error: '' # display_error e"
| "display_bundle_error X (ManifestError m) = T ''manifest error: '' # m"
| "display_bundle_error X (ContentHashMismatch name expected computed) =
     [T ''bundle entry '', S name, T '': content hash mismatch (expected '', S expected,
      T '', computed '', S computed, T '')'']"
| "display_bundle_error X (MissingEntry m) = T ''missing bundle entry: '' # m"
| "display_bundle_error X (Invalid m) = T ''invalid bundle: '' # m"

definition or_json :: "ustr + 'a \<Rightarrow> 'a bresult" where
  "or_json r = (case r of Inl e \<Rightarrow> Inl (JsonError e) | Inr v \<Rightarrow> Inr v)"

definition or_evidence :: "'a result \<Rightarrow> 'a bresult" where
  "or_evidence r = (case r of Inl e \<Rightarrow> Inl (Evidence e) | Inr v \<Rightarrow> Inr v)"

definition or_zip :: "zip_error + 'a \<Rightarrow> 'a bresult" where
  "or_zip r = (case r of Inl e \<Rightarrow> Inl (Zip e) | Inr v \<Rightarrow> Inr v)"

section \<open>UTF-8 decoding\<close>

text \<open>\<open>String::from_utf8\<close>: the lead byte gives the length; the bytes must be the encoding of a character.\<close>

definition utf8_width :: "byte \<Rightarrow> nat" where
  "utf8_width b = (if b < 0x80 then 1 else if b < 0xE0 then 2 else if b < 0xF0 then 3 else 4)"

definition utf8_lead :: "byte \<Rightarrow> nat" where
  "utf8_lead b = (if b < 0x80 then unat b else if b < 0xE0 then unat b mod 32
     else if b < 0xF0 then unat b mod 16 else unat b mod 8)"

definition utf8_first :: "byte \<Rightarrow> bytes \<Rightarrow> uchar" where
  "utf8_first b bs = foldl (\<lambda>a c. a * 64 + unat c mod 64) (utf8_lead b) (take (utf8_width b - 1) bs)"

function utf8_decode :: "bytes \<Rightarrow> ustr option" where
  "utf8_decode [] = Some []"
| "utf8_decode (b # bs) =
     (let c = utf8_first b bs in
      if is_char c \<and> utf8_char c = b # take (utf8_width b - 1) bs
      then map_option ((#) c) (utf8_decode (drop (utf8_width b - 1) bs))
      else None)"
  by pat_completeness auto
termination by (relation "measure length") auto

section \<open>The reader\<close>

record BundleReader =
  br_zip :: zip_archive
  br_manifest :: Manifest

definition read_entry :: "zip_archive \<Rightarrow> ustr \<Rightarrow> bytes bresult" where
  "read_entry arch name =
     (case za_by_name arch name of
        Inl FileNotFound \<Rightarrow> Inl (MissingEntry [S name])
      | Inl e \<Rightarrow> Inl (Zip e)
      | Inr file \<Rightarrow> (case zf_error file of Some e \<Rightarrow> Inl (Io e) | None \<Rightarrow> Inr (zf_data file)))"

definition reader_open :: "('w, 'x) bext_scheme \<Rightarrow> 'w \<Rightarrow> BundleReader bresult" where
  "reader_open X source =
     rbind (or_zip (x_zip_open X source)) (\<lambda>arch.
     rbind (read_entry arch (lit ''manifest.json'')) (\<lambda>manifest_bytes.
     case x_parse_manifest X manifest_bytes of
       Inl e \<Rightarrow> Inl (ManifestError [T ''manifest.json parse: '', S e])
     | Inr manifest \<Rightarrow> Inr \<lparr>br_zip = arch, br_manifest = manifest\<rparr>))"

definition reader_debug :: "BundleReader \<Rightarrow> msg" where
  "reader_debug r = [T ''BundleReader { bundle_id: '', D (m_bundle_id (br_manifest r)), T '', .. }'']"

definition manifest_hash :: "('w, 'x) bext_scheme \<Rightarrow> BundleReader \<Rightarrow> ustr bresult" where
  "manifest_hash X r = or_evidence (jcs_hash X (br_manifest r))"

fun check_contents :: "('w, 'x) bext_scheme \<Rightarrow> zip_archive \<Rightarrow> ContentEntry list \<Rightarrow> unit bresult" where
  "check_contents X arch [] = Inr ()"
| "check_contents X arch (entry # rest) =
     rbind (read_entry arch (ce_path entry)) (\<lambda>bytes.
       let computed = blake3_hex X bytes in
       if computed \<noteq> ce_blake3 entry
       then Inl (ContentHashMismatch (ce_path entry) (ce_blake3 entry) computed)
       else if of_nat (length bytes) \<noteq> ce_bytes entry
       then Inl (ManifestError [T ''entry '', S (ce_path entry), T '' size '', N (length bytes),
                  T '' != manifest '', N (unat (ce_bytes entry))])
       else check_contents X arch rest)"

definition ends_with_slash :: "ustr \<Rightarrow> bool" where
  "ends_with_slash s \<longleftrightarrow> s \<noteq> [] \<and> last s = 47"

definition is_unlisted :: "ContentEntry list \<Rightarrow> ustr \<Rightarrow> bool" where
  "is_unlisted contents name \<longleftrightarrow> name \<noteq> lit ''manifest.json'' \<and>
     name \<notin> set (map ce_path contents) \<and> \<not> ends_with_slash name"

definition verify_content_hashes :: "('w, 'x) bext_scheme \<Rightarrow> BundleReader \<Rightarrow> ustr list bresult" where
  "verify_content_hashes X r =
     rbind (check_contents X (br_zip r) (m_contents (br_manifest r))) (\<lambda>_.
     rbind (collect_res (map or_zip (za_index (br_zip r)))) (\<lambda>names.
     Inr (filter (is_unlisted (m_contents (br_manifest r))) names)))"

definition record_index :: "('w, 'x) bext_scheme \<Rightarrow> BundleReader \<Rightarrow> RecordIndex bresult" where
  "record_index X r =
     rbind (read_entry (br_zip r) (lit ''records/index.json'')) (\<lambda>bytes. or_json (x_parse_index X bytes))"

text \<open>
  Lines of a shard: \<open>read_until\<close> hands out what precedes each newline and, at the end, what is
  left; when decoding fails, the unfinished line is lost. Empty lines are skipped.
\<close>

fun split_lines :: "bytes \<Rightarrow> bytes \<Rightarrow> bytes list \<times> bytes" where
  "split_lines line [] = ([], line)"
| "split_lines line (b # bs) =
     (if b = 0x0A then let (ls, rest) = split_lines [] bs in (line # ls, rest)
      else split_lines (line @ [b]) bs)"

definition shard_lines :: "bytes \<times> ustr option \<Rightarrow> bytes list" where
  "shard_lines decoded =
     (let (ls, rest) = split_lines [] (fst decoded)
      in filter (\<lambda>l. l \<noteq> []) (if snd decoded = None then ls @ [rest] else ls))"

text \<open>
  The lines given to the callback, in order, and how the reading ends. The one caller's callback
  never fails, so that the callback does not decide where the reading stops.
\<close>

fun read_shards :: "('w, 'x) bext_scheme \<Rightarrow> zip_archive \<Rightarrow> ustr list \<Rightarrow> bytes list \<times> bundle_error option" where
  "read_shards X arch [] = ([], None)"
| "read_shards X arch (shard # rest) =
     (case za_by_name arch shard of
        Inl e \<Rightarrow> ([], Some (Zip e))
      | Inr file \<Rightarrow>
          (case x_zstd_decode X file of
             Inl e \<Rightarrow> ([], Some (Io e))
           | Inr decoded \<Rightarrow>
               (case snd decoded of
                  Some e \<Rightarrow> (shard_lines decoded, Some (Io e))
                | None \<Rightarrow>
                    let (ls, e) = read_shards X arch rest in (shard_lines decoded @ ls, e))))"

definition read_stream_records ::
  "('w, 'x) bext_scheme \<Rightarrow> BundleReader \<Rightarrow> ustr \<Rightarrow> bytes list \<times> u64 bresult" where
  "read_stream_records X r stream_id =
     (case record_index X r of
        Inl e \<Rightarrow> ([], Inl e)
      | Inr index \<Rightarrow>
          (case find (\<lambda>s. ri_stream_id s = stream_id) (ri_streams index) of
             None \<Rightarrow> ([], Inl (MissingEntry [T ''stream '', S stream_id, T '' in index'']))
           | Some entry \<Rightarrow>
               let (ls, e) = read_shards X (br_zip r) (ri_shards entry)
               in (ls, case e of Some err \<Rightarrow> Inl err | None \<Rightarrow> Inr (of_nat (length ls)))))"

definition stream_checkpoints :: "('w, 'x) bext_scheme \<Rightarrow> BundleReader \<Rightarrow> ustr \<Rightarrow> StreamCheckpoints bresult" where
  "stream_checkpoints X r stream_id =
     rbind (read_entry (br_zip r) (lit ''checkpoints/'' @ stream_id @ lit ''.json'')) (\<lambda>bytes.
       or_json (x_parse_checkpoints X bytes))"

definition anchor_proofs :: "('w, 'x) bext_scheme \<Rightarrow> BundleReader \<Rightarrow> AnchorProofs bresult" where
  "anchor_proofs X r =
     (case read_entry (br_zip r) (lit ''anchors/proofs.json'') of
        Inr bytes \<Rightarrow> or_json (x_parse_proofs X bytes)
      | Inl (MissingEntry m) \<Rightarrow> Inr anchor_proofs_default
      | Inl e \<Rightarrow> Inl e)"

definition entry_bytes :: "BundleReader \<Rightarrow> ustr \<Rightarrow> bytes bresult" where
  "entry_bytes r name = read_entry (br_zip r) name"

definition read_revocations :: "('w, 'x) bext_scheme \<Rightarrow> BundleReader \<Rightarrow> SignedRevocationList option bresult" where
  "read_revocations X r =
     (case read_entry (br_zip r) (lit ''identity/revocations.json'') of
        Inr bytes \<Rightarrow> rbind (or_json (x_parse_revocations X bytes)) (\<lambda>l. Inr (Some l))
      | Inl (MissingEntry m) \<Rightarrow> Inr None
      | Inl e \<Rightarrow> Inl e)"

definition identity :: "('w, 'x) bext_scheme \<Rightarrow> BundleReader \<Rightarrow> BundleIdentity bresult" where
  "identity X r =
     rbind (read_entry (br_zip r) (lit ''identity/certs.pem'')) (\<lambda>bytes.
     case utf8_decode bytes of
       None \<Rightarrow> Inl (Invalid [T ''identity/certs.pem not UTF-8: '', S (x_utf8_error X bytes)])
     | Some certs_pem \<Rightarrow>
         rbind (read_revocations X r) (\<lambda>revocations.
         rbind (read_entry (br_zip r) (lit ''identity/roots.json'')) (\<lambda>root_bytes.
         rbind (or_json (x_parse_roots X root_bytes)) (\<lambda>roots.
         Inr \<lparr>bi_certs_pem = certs_pem, bi_revocations = revocations, bi_roots = roots\<rparr>))))"

section \<open>Decoding UTF-8\<close>

lemma unat_byte: "n < 256 \<Longrightarrow> unat (of_nat n :: byte) = n"
  by (simp add: unat_of_nat)

lemma utf8_lead_byte:
  assumes "n < 256"
  shows "utf8_width (of_nat n) = (if n < 0x80 then 1 else if n < 0xE0 then 2 else if n < 0xF0 then 3 else 4)"
    "utf8_lead (of_nat n) = (if n < 0x80 then n else if n < 0xE0 then n mod 32
       else if n < 0xF0 then n mod 16 else n mod 8)"
  using assms by (simp_all add: utf8_width_def utf8_lead_def word_less_nat_alt unat_byte)

lemma offset_mod: "b mod k = 0 \<Longrightarrow> (b + x) mod k = x mod (k :: nat)"
  by (metis add_0 mod_add_left_eq)

lemma utf8_first_char:
  assumes "c < 0x110000"
  shows "\<exists>b t. utf8_char c = b # t \<and> length t = utf8_width b - 1 \<and> (\<forall>r. utf8_first b (t @ r) = c)"
proof -
  note eval = utf8_char_def utf8_first_def utf8_lead_byte unat_byte offset_mod
  consider "c < 0x80" | "0x80 \<le> c" "c < 0x800" | "0x800 \<le> c" "c < 0x10000" | "0x10000 \<le> c" by linarith
  then show ?thesis
  proof cases
    case 1
    then show ?thesis by (simp add: eval)
  next
    case 2
    then have "c div 64 < 32" by linarith
    with 2 show ?thesis by (simp add: eval del: of_nat_add)
  next
    case 3
    then have "c div 64 div 64 < 16" by linarith
    with 3 show ?thesis by (simp add: eval div64 del: of_nat_add)
  next
    case 4
    with assms have "c div 64 div 64 div 64 < 8" by linarith
    with 4 assms show ?thesis by (simp add: eval div64 del: of_nat_add)
  qed
qed

lemma utf8_decode_encode: "is_ustr s \<Longrightarrow> utf8_decode (str_bytes s) = Some s"
proof (induction s)
  case (Cons c s)
  then have c: "is_char c" and "c < 0x110000" by (auto intro: is_char_bound)
  from utf8_first_char [OF this(2)] obtain b t where t: "utf8_char c = b # t"
    "length t = utf8_width b - 1" "\<And>r. utf8_first b (t @ r) = c" by blast
  with c Cons show ?case by (simp add: str_bytes_Cons)
qed (simp add: str_bytes_def)

lemma utf8_decode_Some: "utf8_decode bs = Some s \<Longrightarrow> is_ustr s \<and> str_bytes s = bs"
proof (induction bs arbitrary: s rule: utf8_decode.induct)
  case (2 b bs)
  from "2.prems" obtain s' where c: "is_char (utf8_first b bs)"
    "utf8_char (utf8_first b bs) = b # take (utf8_width b - 1) bs"
    and s': "utf8_decode (drop (utf8_width b - 1) bs) = Some s'" "s = utf8_first b bs # s'"
    by (auto simp: Let_def split: if_splits)
  from "2.IH" [OF refl _ s'(1)] c have "is_ustr s'" "str_bytes s' = drop (utf8_width b - 1) bs" by auto
  with c s'(2) show ?case by (simp add: str_bytes_Cons)
qed (simp add: str_bytes_def)

section \<open>Content checks\<close>

lemma or_zip_Inr [simp]: "or_zip r = Inr v \<longleftrightarrow> r = Inr v"
  by (auto simp: or_zip_def split: sum.splits)

lemma or_json_Inr [simp]: "or_json r = Inr v \<longleftrightarrow> r = Inr v"
  by (auto simp: or_json_def split: sum.splits)

lemma or_evidence_Inr [simp]: "or_evidence r = Inr v \<longleftrightarrow> r = Inr v"
  by (auto simp: or_evidence_def split: sum.splits)

lemma read_entry_Inr:
  "read_entry arch name = Inr bytes \<longleftrightarrow>
     (\<exists>file. za_by_name arch name = Inr file \<and> zf_error file = None \<and> zf_data file = bytes)"
  by (auto simp: read_entry_def split: sum.splits option.splits zip_error.splits)

definition entry_matches :: "('w, 'x) bext_scheme \<Rightarrow> zip_archive \<Rightarrow> ContentEntry \<Rightarrow> bool" where
  "entry_matches X arch e \<longleftrightarrow> (\<exists>bytes. read_entry arch (ce_path e) = Inr bytes \<and>
     blake3_hex X bytes = ce_blake3 e \<and> of_nat (length bytes) = ce_bytes e)"

lemma check_contents_Inr:
  "check_contents X arch es = Inr u \<longleftrightarrow> list_all (entry_matches X arch) es"
  by (induction es) (auto simp: rbind_eq_Inr entry_matches_def Let_def)

lemma collect_or_zip: "collect_res (map or_zip rs) = Inr names \<longleftrightarrow> rs = map Inr names"
  by (induction rs arbitrary: names) (auto simp: rbind_eq_Inr Cons_eq_map_conv)

section \<open>The manifest is a signed document\<close>

definition valid_manifest :: "Manifest \<Rightarrow> bool" where
  "valid_manifest m \<longleftrightarrow> list_all is_ustr [m_schema_version m, m_bundle_id m, m_created_at m,
       ti_name (m_tool m), ti_version (m_tool m)] \<and>
     pred_option is_ustr (bs_ts_from (m_scope m)) \<and> pred_option is_ustr (bs_ts_to (m_scope m)) \<and>
     list_all is_ustr (bs_resources (m_scope m)) \<and>
     list_all (\<lambda>s. is_ustr (sco_stream_id s)) (bs_streams (m_scope m)) \<and>
     list_all (\<lambda>e. is_ustr (ce_path e) \<and> is_ustr (ce_blake3 e)) (m_contents m)"

lemma same_canon_map:
  assumes "same_canon (Array (map f as)) (Array (map f bs))" and "\<And>a b. same_canon (f a) (f b) \<Longrightarrow> a = b"
  shows "as = bs"
proof -
  have "list_all2 (\<lambda>a b. same_canon (f a) (f b)) as bs"
    using same_canon_Array [OF assms(1)] by (simp add: list_all2_map1 list_all2_map2)
  then have "list_all2 (=) as bs" by (rule list_all2_mono) (rule assms(2))
  then show ?thesis by (simp add: list.rel_eq)
qed

lemma stream_scope_json_inj: "same_canon (stream_scope_json a) (stream_scope_json b) \<Longrightarrow> a = b"
proof -
  assume "same_canon (stream_scope_json a) (stream_scope_json b)"
  note m = same_canon_members [OF this [unfolded stream_scope_json_def], unfolded lookup_append]
  show "a = b"
    using m [of "lit ''stream_id''"] m [of "lit ''seq_from''"] m [of "lit ''seq_to''"] m [of "lit ''record_count''"]
    by (intro StreamScope.equality) (auto dest!: same_canon_U64)
qed

lemma content_entry_json_inj: "same_canon (content_entry_json a) (content_entry_json b) \<Longrightarrow> a = b"
proof -
  assume "same_canon (content_entry_json a) (content_entry_json b)"
  note m = same_canon_members [OF this [unfolded content_entry_json_def], unfolded lookup_append]
  show "a = b"
    using m [of "lit ''path''"] m [of "lit ''blake3''"] m [of "lit ''bytes''"]
    by (intro ContentEntry.equality) (auto dest!: same_canon_U64)
qed

lemma tool_info_json_inj: "same_canon (tool_info_json a) (tool_info_json b) \<Longrightarrow> a = b"
proof -
  assume "same_canon (tool_info_json a) (tool_info_json b)"
  note m = same_canon_members [OF this [unfolded tool_info_json_def], unfolded lookup_append]
  show "a = b"
    using m [of "lit ''name''"] m [of "lit ''version''"] by (intro ToolInfo.equality) simp_all
qed

lemma bundle_scope_json_inj: "same_canon (bundle_scope_json a) (bundle_scope_json b) \<Longrightarrow> a = b"
proof -
  assume "same_canon (bundle_scope_json a) (bundle_scope_json b)"
  note m = same_canon_members [OF this [unfolded bundle_scope_json_def], unfolded lookup_append]
  have "bs_ts_from a = bs_ts_from b" "bs_ts_to a = bs_ts_to b"
    using m [of "lit ''ts_from''"] m [of "lit ''ts_to''"]
    by (intro same_canon_opt [where f = String]; simp)+
  moreover have "bs_streams a = bs_streams b"
    using m [of "lit ''streams''"] by (intro same_canon_map [OF _ stream_scope_json_inj]) simp_all
  moreover have "bs_resources a = bs_resources b"
    using m [of "lit ''resources''"] by (intro same_canon_list) simp
  moreover have "bs_level a = bs_level b"
    using m [of "lit ''level''"] by (cases "bs_level a"; cases "bs_level b") (auto simp: level_json_def)
  ultimately show "a = b" by (intro BundleScope.equality) simp_all
qed

lemma manifest_json_inj: "same_canon (manifest_json a) (manifest_json b) \<Longrightarrow> a = b"
proof -
  assume "same_canon (manifest_json a) (manifest_json b)"
  note m = same_canon_members [OF this [unfolded manifest_json_def], unfolded lookup_append]
  have "m_contents a = m_contents b"
    using m [of "lit ''contents''"] by (intro same_canon_map [OF _ content_entry_json_inj]) simp_all
  moreover have "m_scope a = m_scope b" using m [of "lit ''scope''"] by (auto dest: bundle_scope_json_inj)
  moreover have "m_tool a = m_tool b" using m [of "lit ''tool''"] by (auto dest: tool_info_json_inj)
  ultimately show "a = b"
    using m [of "lit ''schema_version''"] m [of "lit ''bundle_id''"] m [of "lit ''created_at''"]
    by (intro Manifest.equality) simp_all
qed

lemma parts_wf:
  "is_ustr (sco_stream_id s) \<Longrightarrow> wf_json (stream_scope_json s)"
  "is_ustr (ce_path e) \<Longrightarrow> is_ustr (ce_blake3 e) \<Longrightarrow> wf_json (content_entry_json e)"
  "is_ustr (ti_name t) \<Longrightarrow> is_ustr (ti_version t) \<Longrightarrow> wf_json (tool_info_json t)"
  by (simp_all add: stream_scope_json_def content_entry_json_def tool_info_json_def distinct_flds_append
    list_all_append del: map_append)

lemma wf_array: "list_all P xs \<Longrightarrow> (\<And>x. P x \<Longrightarrow> wf_json (f x)) \<Longrightarrow> list_all wf_json (map f xs)"
  by (auto simp: list_all_iff)

lemma bundle_scope_wf:
  assumes "pred_option is_ustr (bs_ts_from s)" and "pred_option is_ustr (bs_ts_to s)"
    and "list_all is_ustr (bs_resources s)" and "list_all (\<lambda>s. is_ustr (sco_stream_id s)) (bs_streams s)"
  shows "wf_json (bundle_scope_json s)"
proof -
  have "list_all wf_json (map stream_scope_json (bs_streams s))"
    by (rule wf_array [OF assms(4)]) (rule parts_wf)
  with assms(1-3) show ?thesis
    by (auto simp: bundle_scope_json_def level_json_def distinct_flds_append list_all_append
      split: option.splits ExportLevel.splits simp del: map_append list.pred_map)
qed

interpretation manifest_doc: signed_document manifest_json valid_manifest
proof
  show "wf_json (manifest_json m)" if m: "valid_manifest m" for m
  proof -
    have "list_all wf_json (map content_entry_json (m_contents m))"
      using m by (intro wf_array [where P = "\<lambda>e. is_ustr (ce_path e) \<and> is_ustr (ce_blake3 e)"])
        (simp_all add: valid_manifest_def parts_wf)
    with m show ?thesis
      by (simp add: valid_manifest_def manifest_json_def distinct_flds_append list_all_append
        parts_wf bundle_scope_wf del: map_append list.pred_map)
  qed
qed (rule manifest_json_inj)

lemma jcs_hash_Inr: "jcs_hash X m = Inr h \<longleftrightarrow> (\<exists>d. doc_digest X (manifest_json m) = Inr d \<and> h = hex_encode d)"
  by (auto simp: jcs_hash_def doc_digest_def rbind_eq_Inr blake3_hex_def blake3_raw_def)

section \<open>A concrete bundle library\<close>

text \<open>
  An instance of the external functions for the witnesses: a container is its list of entries,
  compression is the identity, and the parsers know one document of each kind.
\<close>

definition archive_of :: "(ustr \<times> bytes) list \<Rightarrow> zip_archive" where
  "archive_of es = \<lparr>za_index = map (Inr \<circ> fst) es,
     za_by_name = (\<lambda>name. case map_of es name of None \<Rightarrow> Inl FileNotFound
        | Some b \<Rightarrow> Inr \<lparr>zf_data = b, zf_error = None\<rparr>)\<rparr>"

definition entry_of :: "'x ext_scheme \<Rightarrow> ustr \<times> bytes \<Rightarrow> ContentEntry" where
  "entry_of X e = \<lparr>ce_path = fst e, ce_blake3 = blake3_hex X (snd e), ce_bytes = of_nat (length (snd e))\<rparr>"

lemma read_archive:
  "read_entry (archive_of es) name = (case map_of es name of
     None \<Rightarrow> Inl (MissingEntry [S name]) | Some b \<Rightarrow> Inr b)"
  by (simp add: read_entry_def archive_of_def split: option.splits)

lemma read_archive_entry: "distinct (map fst es) \<Longrightarrow> e \<in> set es \<Longrightarrow> read_entry (archive_of es) (fst e) = Inr (snd e)"
  by (cases e) (simp add: read_archive)

lemma check_archive:
  assumes "distinct (map fst (es @ others))"
  shows "check_contents X (archive_of (es @ others)) (map (entry_of X) es) = Inr ()"
proof -
  have "read_entry (archive_of (es @ others)) (fst e) = Inr (snd e)" if "e \<in> set es" for e
    using that assms by (intro read_archive_entry) auto
  then show ?thesis
    unfolding check_contents_Inr list_all_iff by (fastforce simp: entry_matches_def entry_of_def)
qed

definition demo_bundle :: "(bytes \<Rightarrow> ustr + json) \<Rightarrow> Manifest \<Rightarrow> RecordIndex \<Rightarrow> (ustr \<times> bytes) list bext" where
  "demo_bundle parse m ix = vext.extend (with_parser demo_ext parse)
     (bext.fields (Inr \<circ> archive_of)
        (\<lambda>names name. if name \<in> set names then Some (OtherZipError []) else None) (\<lambda>b. (b, None)) Inr (\<lambda>e. [])
        (\<lambda>file. Inr (zf_data file, zf_error file)) Inr (\<lambda>b. [])
        (\<lambda>b. Inr m) (\<lambda>b. Inr ix) (\<lambda>b. Inl []) (\<lambda>b. Inl []) (\<lambda>b. Inl []) (\<lambda>b. Inl [])
        (\<lambda>j. if j = ix then Inr [] else Inl []) (\<lambda>d. Inr []) (\<lambda>d. Inr []) (\<lambda>d. Inr []) (\<lambda>d. Inr []))"

lemma demo_bundle_simps [simp]:
  "x_blake3 (demo_bundle parse m ix) = demo_digest 257"
  "x_zip_open (demo_bundle parse m ix) = Inr \<circ> archive_of"
  "x_zip_start (demo_bundle parse m ix) = (\<lambda>names name. if name \<in> set names then Some (OtherZipError []) else None)"
  "x_zip_write (demo_bundle parse m ix) = (\<lambda>b. (b, None))"
  "x_zip_finish (demo_bundle parse m ix) = Inr"
  "x_zstd_decode (demo_bundle parse m ix) = (\<lambda>file. Inr (zf_data file, zf_error file))"
  "x_zstd_encode (demo_bundle parse m ix) = Inr"
  "x_json_parse (demo_bundle parse m ix) = parse"
  "x_parse_manifest (demo_bundle parse m ix) = (\<lambda>b. Inr m)"
  "x_parse_index (demo_bundle parse m ix) = (\<lambda>b. Inr ix)"
  "x_pretty_index (demo_bundle parse m ix) = (\<lambda>j. if j = ix then Inr [] else Inl [])"
  "x_pretty_checkpoints (demo_bundle parse m ix) = (\<lambda>d. Inr [])"
  by (simp_all add: demo_bundle_def with_parser_def with_certs_def ext.defs cext.defs vext.defs bext.defs
    demo_ext_def)

definition demo_manifest :: "ContentEntry list \<Rightarrow> Manifest" where
  "demo_manifest contents = \<lparr>m_schema_version = lit ''1'', m_bundle_id = [], m_created_at = [],
     m_tool = \<lparr>ti_name = [], ti_version = []\<rparr>,
     m_scope = \<lparr>bs_level = Metadata, bs_ts_from = None, bs_ts_to = None, bs_resources = [], bs_streams = []\<rparr>,
     m_contents = contents\<rparr>"

lemma demo_manifest_ok:
  "is_ok (to_jcs_bytes (manifest_json (demo_manifest [entry_of X (name, [b])])))"
  by (simp add: to_jcs_bytes_ok manifest_json_def demo_manifest_def tool_info_json_def bundle_scope_json_def
    level_json_def content_entry_json_def entry_of_def)

lemma blake3_distinguishes_one [simp]: "blake3_distinguishes X {a}"
  by (simp add: blake3_distinguishes_def)

lemma content_check_iff:
  "verify_content_hashes X r = Inr [] \<longleftrightarrow>
     (\<forall>e \<in> set (m_contents (br_manifest r)). \<exists>bytes. read_entry (br_zip r) (ce_path e) = Inr bytes \<and>
        blake3_hex X bytes = ce_blake3 e \<and> of_nat (length bytes) = ce_bytes e) \<and>
     (\<forall>i \<in> set (za_index (br_zip r)). \<exists>name. i = Inr name \<and>
        (name = lit ''manifest.json'' \<or> ends_with_slash name \<or>
         name \<in> ce_path ` set (m_contents (br_manifest r))))"
  (is "_ \<longleftrightarrow> ?entries \<and> ?names")
proof -
  let ?cs = "m_contents (br_manifest r)" and ?index = "za_index (br_zip r)"
  have "?names \<longleftrightarrow> (\<exists>names. ?index = map Inr names \<and> filter (is_unlisted ?cs) names = [])"
  proof
    assume n: ?names
    then have "?index = map Inr (map projr ?index)" by (force intro: map_idI [symmetric] simp: comp_def)
    moreover from n have "filter (is_unlisted ?cs) (map projr ?index) = []"
      by (fastforce simp: filter_empty_conv is_unlisted_def)
    ultimately show "\<exists>names. ?index = map Inr names \<and> filter (is_unlisted ?cs) names = []" by blast
  next
    assume "\<exists>names. ?index = map Inr names \<and> filter (is_unlisted ?cs) names = []"
    then show ?names by (fastforce simp: filter_empty_conv is_unlisted_def)
  qed
  then show ?thesis
    unfolding verify_content_hashes_def
    by (auto simp: rbind_eq_Inr check_contents_Inr collect_or_zip list_all_iff entry_matches_def)
qed

definition same_entry :: "BundleReader \<Rightarrow> BundleReader \<Rightarrow> ustr \<Rightarrow> bool" where
  "same_entry r r' name \<longleftrightarrow> (\<exists>bytes. read_entry (br_zip r) name = Inr bytes \<and> read_entry (br_zip r') name = Inr bytes)"

section \<open>Properties\<close>

text \<open>
  The container check accepts exactly the intact containers. It returns, with no unlisted
  entry, if and only if every entry of the manifest can be read and has the recorded hash and size,
  and every name of the archive can be read and is listed, is the manifest, or is a directory.
\<close>

theorem content_check_exact:
  "verify_content_hashes X r = Inr [] \<longleftrightarrow>
     (\<forall>e \<in> set (m_contents (br_manifest r)). \<exists>bytes. read_entry (br_zip r) (ce_path e) = Inr bytes \<and>
        blake3_hex X bytes = ce_blake3 e \<and> of_nat (length bytes) = ce_bytes e) \<and>
     (\<forall>i \<in> set (za_index (br_zip r)). \<exists>name. i = Inr name \<and>
        (name = lit ''manifest.json'' \<or> ends_with_slash name \<or>
         name \<in> ce_path ` set (m_contents (br_manifest r))))"
  by (rule content_check_iff)

theorem content_check_exact_witness:
  "let X = demo_bundle (\<lambda>b. Inl []) (demo_manifest []) \<lparr>ri_streams = []\<rparr>;
       arch = archive_of [(lit ''a'', [1]), (lit ''manifest.json'', [2])]
   in verify_content_hashes X
        \<lparr>br_zip = arch, br_manifest = demo_manifest [entry_of X (lit ''a'', [1])]\<rparr> = Inr []"
  unfolding content_check_exact Let_def
  by (auto simp: archive_of_def entry_of_def read_entry_def demo_manifest_def)

text \<open>
  C20: The manifest hash pins the whole bundle. If two bundles report the same manifest hash and
  both pass the container check with nothing unlisted, they have the same manifest and the same entries: every
  listed entry, and every name in either container other than \<open>manifest.json\<close> and directories, can
  be read in both and has the same bytes in both, unless BLAKE3 collides on the two manifests or on the entries read.
\<close>

theorem manifest_hash_pins_bundle:
  assumes "manifest_hash X r = Inr h" and "manifest_hash X r' = Inr h"
    and "valid_manifest (br_manifest r)" and "valid_manifest (br_manifest r')"
    and "verify_content_hashes X r = Inr []" and "verify_content_hashes X r' = Inr []"
    and "blake3_distinguishes X ({doc_input (manifest_json (br_manifest r)),
      doc_input (manifest_json (br_manifest r'))})"
    and "\<And>e. e \<in> set (m_contents (br_manifest r)) \<Longrightarrow> blake3_distinguishes X
      {projr (read_entry (br_zip r) (ce_path e)), projr (read_entry (br_zip r') (ce_path e))}"
  shows "br_manifest r' = br_manifest r \<and>
    (\<forall>e \<in> set (m_contents (br_manifest r)). same_entry r r' (ce_path e)) \<and>
    (\<forall>i \<in> set (za_index (br_zip r)) \<union> set (za_index (br_zip r')). \<exists>name. i = Inr name \<and>
       (name = lit ''manifest.json'' \<or> ends_with_slash name \<or> same_entry r r' name))"
proof -
  from assms(1,2) obtain d where "doc_digest X (manifest_json (br_manifest r)) = Inr d"
    "doc_digest X (manifest_json (br_manifest r')) = Inr d"
    by (auto simp: manifest_hash_def jcs_hash_Inr)
  from manifest_doc.digest_binds [OF assms(3,4) this assms(7)] have m: "br_manifest r' = br_manifest r" ..
  note exact = assms(5,6) [unfolded content_check_iff]
  have s: "same_entry r r' (ce_path e)" if e: "e \<in> set (m_contents (br_manifest r))" for e
  proof -
    from exact e m obtain b b' where b: "read_entry (br_zip r) (ce_path e) = Inr b"
      "read_entry (br_zip r') (ce_path e) = Inr b'" "blake3_hex X b = blake3_hex X b'" by metis
    from b have "x_blake3 X b = x_blake3 X b'" by (simp add: blake3_hex_def)
    then have "b = b'" by (rule blake3_distinguishesD [OF assms(8) [OF e], rotated -1]) (simp_all add: b)
    with b show ?thesis by (simp add: same_entry_def)
  qed
  with exact m show ?thesis by fastforce
qed

theorem manifest_hash_pins_bundle_witness:
  "let X = demo_bundle (\<lambda>b. Inl []) (demo_manifest []) \<lparr>ri_streams = []\<rparr>;
       m = demo_manifest [entry_of X (lit ''a'', [1])];
       r = \<lparr>br_zip = archive_of [(lit ''a'', [1]), (lit ''manifest.json'', [2])], br_manifest = m\<rparr>;
       r' = \<lparr>br_zip = archive_of [(lit ''manifest.json'', [3]), (lit ''a'', [1])], br_manifest = m\<rparr>
   in verify_content_hashes X r = Inr [] \<and> verify_content_hashes X r' = Inr [] \<and> same_entry r r' (lit ''a'')"
proof -
  let ?X = "demo_bundle (\<lambda>b. Inl []) (demo_manifest []) \<lparr>ri_streams = []\<rparr>"
  let ?m = "demo_manifest [entry_of ?X (lit ''a'', [1])]"
  let ?r = "\<lparr>br_zip = archive_of [(lit ''a'', [1]), (lit ''manifest.json'', [2])], br_manifest = ?m\<rparr>"
  let ?r' = "\<lparr>br_zip = archive_of [(lit ''manifest.json'', [3]), (lit ''a'', [1])], br_manifest = ?m\<rparr>"
  obtain h where h: "manifest_hash ?X ?r = Inr h" "manifest_hash ?X ?r' = Inr h"
    using demo_manifest_ok [of ?X "lit ''a''" 1]
    by (auto simp: manifest_hash_def jcs_hash_def or_evidence_def is_ok_iff)
  have v: "valid_manifest ?m"
    by (simp add: valid_manifest_def demo_manifest_def entry_of_def blake3_hex_def)
  have ok: "verify_content_hashes ?X ?r = Inr []" "verify_content_hashes ?X ?r' = Inr []"
    unfolding content_check_iff by (auto simp: archive_of_def entry_of_def read_entry_def demo_manifest_def)
  have "br_manifest ?r' = br_manifest ?r \<and>
    (\<forall>e \<in> set (m_contents (br_manifest ?r)). same_entry ?r ?r' (ce_path e)) \<and>
    (\<forall>i \<in> set (za_index (br_zip ?r)) \<union> set (za_index (br_zip ?r')). \<exists>name. i = Inr name \<and>
       (name = lit ''manifest.json'' \<or> ends_with_slash name \<or> same_entry ?r ?r' name))"
  proof (rule manifest_hash_pins_bundle [OF h _ _ ok])
    fix e assume "e \<in> set (m_contents (br_manifest ?r))"
    then have "ce_path e = lit ''a''" by (simp add: demo_manifest_def entry_of_def)
    then show "blake3_distinguishes ?X
        {projr (read_entry (br_zip ?r) (ce_path e)), projr (read_entry (br_zip ?r') (ce_path e))}"
      by (simp add: archive_of_def read_entry_def)
  qed (simp_all add: v)
  then have "same_entry ?r ?r' (lit ''a'')" by (simp add: demo_manifest_def entry_of_def)
  with ok show ?thesis by (simp add: Let_def)
qed

text \<open>
  Decoding inverts encoding, and nothing else decodes: a byte string is taken as text exactly
  when it is the UTF-8 form of a list of characters, and then that list is returned.
\<close>

theorem utf8_decode_exact:
  "utf8_decode bs = Some s \<longleftrightarrow> is_ustr s \<and> str_bytes s = bs"
  using utf8_decode_encode utf8_decode_Some by auto

end
