(* ===== verification/Tsa.thy ===== *)
theory Tsa
  imports Bundle
begin

text \<open>
  RFC 3161 timestamp tokens (\<open>verify/src/tsa.rs\<close>). Decoding ASN.1, the digests of the SHA-2 family,
  RSA and the rendering of times and names are third-party code: fields of \<open>tsext\<close>. What the program
  reads of a decoded value is a record. Object identifiers are their dotted text.
\<close>

section \<open>Decoded values\<close>

record content_info =
  ct_content_type :: ustr
  ct_content :: bytes

record cms_certificate =
  cc_serial_number :: bytes
  cc_issuer :: bytes
  cc_subject :: bytes
  cc_subject_public_key_info :: bytes

datatype certificate_choice = CertificateChoice cms_certificate | OtherChoice

datatype signer_identifier = IssuerAndSerialNumber bytes bytes | SubjectKeyIdentifier bytes

record attribute =
  at_oid :: ustr
  at_values :: "bytes list"

record signer_info =
  si_sid :: signer_identifier
  si_digest_alg :: ustr
  si_signed_attrs :: "attribute list option"
  si_signature_algorithm :: ustr
  si_signature :: bytes

record signed_data =
  sd_econtent :: "bytes option"
  sd_certificates :: "certificate_choice list option"
  sd_signer_infos :: "signer_info list"

record tst_info =
  tst_imprint_alg :: ustr
  tst_hashed_message :: bytes
  tst_gen_secs :: u64
  tst_gen_nanos :: u32

record 'w tsext = "'w bext" +
  x_time_stamp_resp :: "bytes \<Rightarrow> (u32 \<times> content_info option) option"
  x_content_info :: "bytes \<Rightarrow> ustr + content_info"
  x_signed_data :: "bytes \<Rightarrow> ustr + signed_data"
  x_octet_string :: "bytes \<Rightarrow> ustr + bytes"
  x_tst_info :: "bytes \<Rightarrow> ustr + tst_info"
  x_attributes_der :: "attribute list \<Rightarrow> ustr + bytes"
  x_spki_der :: "bytes \<Rightarrow> ustr + bytes"
  x_sha384 :: "bytes \<Rightarrow> bytes"
  x_sha512 :: "bytes \<Rightarrow> bytes"
  x_rsa_key :: "bytes \<Rightarrow> ustr + bytes"
  x_rsa_verify :: "bytes \<Rightarrow> ustr \<Rightarrow> bytes \<Rightarrow> bytes \<Rightarrow> ustr + unit"
  x_format_utc_millis :: "int \<Rightarrow> u32 \<Rightarrow> ustr option"
  x_name_text :: "bytes \<Rightarrow> ustr"

datatype TsaError =
    Parse msg
  | NotGranted u32
  | ImprintMismatch
  | UnsupportedAlgorithm msg
  | TsaSignatureInvalid msg
  | SignerCertMissing

fun display_tsa_error :: "TsaError \<Rightarrow> msg" where
  "display_tsa_error (Parse m) = T ''token parse error: '' # m"
| "display_tsa_error (NotGranted n) = [T ''timestamp not granted: PKIStatus '', N (unat n)]"
| "display_tsa_error ImprintMismatch = [T ''message imprint mismatch: token binds a different digest'']"
| "display_tsa_error (UnsupportedAlgorithm m) = T ''unsupported algorithm: '' # m"
| "display_tsa_error (TsaSignatureInvalid m) = T ''token signature invalid: '' # m"
| "display_tsa_error SignerCertMissing = [T ''signer certificate not found in token'']"

record VerifiedToken =
  vt_gen_time :: ustr
  vt_signer_subject :: ustr
  vt_signature_verified :: bool

definition OID_SIGNED_DATA :: ustr where "OID_SIGNED_DATA = lit ''1.2.840.113549.1.7.2''"
definition OID_SHA256 :: ustr where "OID_SHA256 = lit ''2.16.840.1.101.3.4.2.1''"
definition OID_SHA384 :: ustr where "OID_SHA384 = lit ''2.16.840.1.101.3.4.2.2''"
definition OID_SHA512 :: ustr where "OID_SHA512 = lit ''2.16.840.1.101.3.4.2.3''"
definition OID_MESSAGE_DIGEST :: ustr where "OID_MESSAGE_DIGEST = lit ''1.2.840.113549.1.9.4''"
definition OID_RSA_ENCRYPTION :: ustr where "OID_RSA_ENCRYPTION = lit ''1.2.840.113549.1.1.1''"
definition OID_SHA256_WITH_RSA :: ustr where "OID_SHA256_WITH_RSA = lit ''1.2.840.113549.1.1.11''"
definition OID_SHA384_WITH_RSA :: ustr where "OID_SHA384_WITH_RSA = lit ''1.2.840.113549.1.1.12''"
definition OID_SHA512_WITH_RSA :: ustr where "OID_SHA512_WITH_RSA = lit ''1.2.840.113549.1.1.13''"

section \<open>Operations\<close>

definition or_parse :: "string \<Rightarrow> ustr + 'a \<Rightarrow> TsaError + 'a" where
  "or_parse what r = (case r of Inl e \<Rightarrow> Inl (Parse [T what, T '': '', S e]) | Inr v \<Rightarrow> Inr v)"

definition parse_token :: "('w, 'x) tsext_scheme \<Rightarrow> bytes \<Rightarrow> TsaError + content_info" where
  "parse_token X token_der =
     (case x_time_stamp_resp X token_der of
        Some (status, time_stamp_token) \<Rightarrow>
          if status \<noteq> 0 \<and> status \<noteq> 1 then Inl (NotGranted status)
          else ok_or time_stamp_token (Parse [T ''granted response without token''])
      | None \<Rightarrow> or_parse ''ContentInfo'' (x_content_info X token_der))"

fun find_in_choices :: "signer_info \<Rightarrow> certificate_choice list \<Rightarrow> TsaError + cms_certificate" where
  "find_in_choices signer [] = Inl SignerCertMissing"
| "find_in_choices signer (OtherChoice # choices) = find_in_choices signer choices"
| "find_in_choices signer (CertificateChoice cert # choices) =
     (case si_sid signer of
        IssuerAndSerialNumber issuer serial \<Rightarrow>
          if cc_serial_number cert = serial \<and> cc_issuer cert = issuer then Inr cert
          else find_in_choices signer choices
      | SubjectKeyIdentifier i \<Rightarrow> Inr cert)"

definition find_signer_cert :: "signed_data \<Rightarrow> signer_info \<Rightarrow> TsaError + cms_certificate" where
  "find_signer_cert sd signer =
     (case sd_certificates sd of
        None \<Rightarrow> Inl SignerCertMissing
      | Some certs \<Rightarrow> find_in_choices signer certs)"

definition digest_bytes :: "('w, 'x) tsext_scheme \<Rightarrow> ustr \<Rightarrow> bytes \<Rightarrow> TsaError + bytes" where
  "digest_bytes X oid bytes =
     (if oid = OID_SHA256 then Inr (x_sha256 X bytes)
      else if oid = OID_SHA384 then Inr (x_sha384 X bytes)
      else if oid = OID_SHA512 then Inr (x_sha512 X bytes)
      else Inl (UnsupportedAlgorithm [T ''digest '', S oid]))"

definition rsa_key_from_spki :: "('w, 'x) tsext_scheme \<Rightarrow> bytes \<Rightarrow> TsaError + bytes" where
  "rsa_key_from_spki X spki_der = or_parse ''RSA SPKI'' (x_rsa_key X spki_der)"

text \<open>The loop over the attributes: the last \<open>messageDigest\<close> attribute with a value decides.\<close>

fun message_digest_ok ::
  "('w, 'x) tsext_scheme \<Rightarrow> bytes \<Rightarrow> bool \<Rightarrow> attribute list \<Rightarrow> TsaError + bool" where
  "message_digest_ok X digest md_ok [] = Inr md_ok"
| "message_digest_ok X digest md_ok (attr # attrs) =
     (if at_oid attr = OID_MESSAGE_DIGEST then
        (case at_values attr of
           [] \<Rightarrow> message_digest_ok X digest md_ok attrs
         | v # _ \<Rightarrow>
             rbind (or_parse ''messageDigest'' (x_octet_string X v)) (\<lambda>od.
               message_digest_ok X digest (od = digest) attrs))
      else message_digest_ok X digest md_ok attrs)"

definition retag_set :: "bytes \<Rightarrow> bytes" where
  "retag_set der = (case der of [] \<Rightarrow> [] | b # bs \<Rightarrow> if b = 0xA0 then 0x31 # bs else der)"

definition verify_cms_signature ::
  "('w, 'x) tsext_scheme \<Rightarrow> signer_info \<Rightarrow> cms_certificate \<Rightarrow> bytes \<Rightarrow> TsaError + unit" where
  "verify_cms_signature X signer cert econtent_bytes =
     (let digest_oid = si_digest_alg signer in
      rbind (ok_or (si_signed_attrs signer) (Parse [T ''missing signedAttrs''])) (\<lambda>signed_attrs.
      rbind (digest_bytes X digest_oid econtent_bytes) (\<lambda>econtent_digest.
      rbind (message_digest_ok X econtent_digest False signed_attrs) (\<lambda>md_ok.
      if \<not> md_ok then Inl (TsaSignatureInvalid [T ''messageDigest attribute mismatch''])
      else
      rbind (or_parse ''signedAttrs DER'' (x_attributes_der X signed_attrs)) (\<lambda>attrs_der.
      rbind (digest_bytes X digest_oid (retag_set attrs_der)) (\<lambda>signed_digest.
      let sig_alg = si_signature_algorithm signer in
      if sig_alg \<in> {OID_RSA_ENCRYPTION, OID_SHA256_WITH_RSA, OID_SHA384_WITH_RSA, OID_SHA512_WITH_RSA}
      then
        rbind (or_parse ''SPKI DER'' (x_spki_der X (cc_subject_public_key_info cert))) (\<lambda>spki_der.
        rbind (rsa_key_from_spki X spki_der) (\<lambda>public_key.
        if digest_oid \<notin> {OID_SHA256, OID_SHA384, OID_SHA512}
        then Inl (UnsupportedAlgorithm [T ''digest '', S digest_oid])
        else
          (case x_rsa_verify X public_key digest_oid signed_digest (si_signature signer) of
             Inl e \<Rightarrow> Inl (TsaSignatureInvalid [T ''RSA verify: '', S e])
           | Inr u \<Rightarrow> Inr ())))
      else Inl (UnsupportedAlgorithm [T ''signature '', S sig_alg])))))))"

definition gen_time_text :: "('w, 'x) tsext_scheme \<Rightarrow> tst_info \<Rightarrow> TsaError + ustr" where
  "gen_time_text X t =
     (if 2 ^ 63 \<le> unat (tst_gen_secs t) then Inl (Parse [T ''genTime overflow''])
      else ok_or (x_format_utc_millis X (uint (tst_gen_secs t)) (tst_gen_nanos t))
             (Parse [T ''genTime out of range'']))"

definition verify_token :: "('w, 'x) tsext_scheme \<Rightarrow> bytes \<Rightarrow> bytes \<Rightarrow> TsaError + VerifiedToken" where
  "verify_token X token_der expected_sha256_imprint =
     rbind (parse_token X token_der) (\<lambda>content_info.
     if ct_content_type content_info \<noteq> OID_SIGNED_DATA
     then Inl (Parse [T ''token content type '', S (ct_content_type content_info), T '' is not id-signedData''])
     else
     rbind (or_parse ''SignedData'' (x_signed_data X (ct_content content_info))) (\<lambda>signed_data.
     rbind (ok_or (sd_econtent signed_data) (Parse [T ''missing eContent''])) (\<lambda>econtent.
     rbind (or_parse ''eContent octet string'' (x_octet_string X econtent)) (\<lambda>tst_bytes.
     rbind (or_parse ''TSTInfo'' (x_tst_info X tst_bytes)) (\<lambda>tst_info.
     if tst_imprint_alg tst_info \<noteq> OID_SHA256
     then Inl (UnsupportedAlgorithm [T ''imprint digest '', S (tst_imprint_alg tst_info)])
     else if tst_hashed_message tst_info \<noteq> expected_sha256_imprint then Inl ImprintMismatch
     else
     rbind (gen_time_text X tst_info) (\<lambda>gen_time.
     rbind (case sd_signer_infos signed_data of
              [] \<Rightarrow> Inl (Parse [T ''no SignerInfo'']) | s # _ \<Rightarrow> Inr s) (\<lambda>signer_info.
     rbind (find_signer_cert signed_data signer_info) (\<lambda>signer_cert.
     rbind (verify_cms_signature X signer_info signer_cert tst_bytes) (\<lambda>_.
     Inr \<lparr>vt_gen_time = gen_time, vt_signer_subject = x_name_text X (cc_subject signer_cert),
          vt_signature_verified = True\<rparr>)))))))))"

section \<open>What an accepted token shows\<close>

lemma or_parse_Inr [simp]: "or_parse what r = Inr v \<longleftrightarrow> r = Inr v"
  by (auto simp: or_parse_def split: sum.splits)

lemma case_unit_Inr: "(case r of Inl e \<Rightarrow> Inl (f e) | Inr u \<Rightarrow> Inr ()) = Inr v \<longleftrightarrow> r = Inr ()"
  by (cases r) auto

lemma find_in_choices_Inr: "find_in_choices signer cs = Inr cert \<Longrightarrow> CertificateChoice cert \<in> set cs"
  by (induction signer cs rule: find_in_choices.induct) (auto split: signer_identifier.splits if_splits)

lemma message_digest_attr:
  "message_digest_ok X digest md_ok attrs = Inr True \<Longrightarrow>
   md_ok \<or> (\<exists>a v vs. a \<in> set attrs \<and> at_oid a = OID_MESSAGE_DIGEST \<and> at_values a = v # vs \<and>
     x_octet_string X v = Inr digest)"
proof (induction attrs arbitrary: md_ok)
  case (Cons attr attrs)
  show ?case
  proof (cases "at_oid attr = OID_MESSAGE_DIGEST \<and> at_values attr \<noteq> []")
    case True
    then obtain v vs where v: "at_values attr = v # vs" by (cases "at_values attr") auto
    with True Cons.prems obtain od where "x_octet_string X v = Inr od"
      "message_digest_ok X digest (od = digest) attrs = Inr True" by (auto simp: rbind_eq_Inr)
    with Cons.IH [of "od = digest"] True v show ?thesis by (metis list.set_intros(1,2))
  next
    case False
    with Cons.prems have "message_digest_ok X digest md_ok attrs = Inr True" by (auto split: if_splits)
    with Cons.IH [of md_ok] show ?thesis by auto
  qed
qed simp

lemma verify_cms_signature_Inr:
  assumes "verify_cms_signature X signer cert econtent = Inr u"
  shows "\<exists>attrs d der sd spki key. si_signed_attrs signer = Some attrs \<and>
    digest_bytes X (si_digest_alg signer) econtent = Inr d \<and> message_digest_ok X d False attrs = Inr True \<and>
    x_attributes_der X attrs = Inr der \<and> digest_bytes X (si_digest_alg signer) (retag_set der) = Inr sd \<and>
    x_spki_der X (cc_subject_public_key_info cert) = Inr spki \<and> x_rsa_key X spki = Inr key \<and>
    x_rsa_verify X key (si_digest_alg signer) sd (si_signature signer) = Inr ()"
  using assms
  by (auto simp: verify_cms_signature_def Let_def rbind_eq_Inr rsa_key_from_spki_def case_unit_Inr split: if_splits)

lemma verify_token_Inr:
  assumes "verify_token X token imprint = Inr vt"
  shows "\<exists>ci sd ec tst_bytes tst signer rest cert u. parse_token X token = Inr ci \<and> ct_content_type ci = OID_SIGNED_DATA \<and>
    x_signed_data X (ct_content ci) = Inr sd \<and> sd_econtent sd = Some ec \<and> x_octet_string X ec = Inr tst_bytes \<and>
    x_tst_info X tst_bytes = Inr tst \<and> tst_imprint_alg tst = OID_SHA256 \<and> tst_hashed_message tst = imprint \<and>
    gen_time_text X tst = Inr (vt_gen_time vt) \<and> sd_signer_infos sd = signer # rest \<and>
    find_signer_cert sd signer = Inr cert \<and> verify_cms_signature X signer cert tst_bytes = Inr u"
  using assms
  by (auto simp: verify_token_def rbind_eq_Inr split: if_splits list.splits)

section \<open>A concrete token\<close>

text \<open>A token that is its own content; every certificate and signature in it is accepted.\<close>

definition demo_signed_data :: "bytes \<Rightarrow> signed_data" where
  "demo_signed_data b = \<lparr>sd_econtent = Some b,
     sd_certificates = Some [OtherChoice, CertificateChoice \<lparr>cc_serial_number = [1], cc_issuer = [2],
       cc_subject = [3], cc_subject_public_key_info = [4]\<rparr>],
     sd_signer_infos = [\<lparr>si_sid = IssuerAndSerialNumber [2] [1], si_digest_alg = OID_SHA256,
       si_signed_attrs = Some [\<lparr>at_oid = OID_MESSAGE_DIGEST, at_values = [x_sha256 demo_ext b]\<rparr>],
       si_signature_algorithm = OID_RSA_ENCRYPTION, si_signature = [5]\<rparr>]\<rparr>"

definition with_tokens :: "'w bext \<Rightarrow> 'w tsext" where
  "with_tokens X = bext.extend X (tsext.fields (\<lambda>b. None) (\<lambda>b. Inr \<lparr>ct_content_type = OID_SIGNED_DATA, ct_content = b\<rparr>)
     (\<lambda>b. Inr (demo_signed_data b)) Inr
     (\<lambda>b. Inr \<lparr>tst_imprint_alg = OID_SHA256, tst_hashed_message = b, tst_gen_secs = 7, tst_gen_nanos = 0\<rparr>)
     (\<lambda>a. Inr [0xA0]) Inr (\<lambda>b. b) (\<lambda>b. b) Inr (\<lambda>k oid d sig. Inr ()) (\<lambda>s n. Some (lit ''7'')) (\<lambda>n. lit ''tsa''))"

lemma with_tokens_simps [simp]:
  "x_sha256 (with_tokens X) = x_sha256 X"
  "x_time_stamp_resp (with_tokens X) = (\<lambda>b. None)"
  "x_content_info (with_tokens X) = (\<lambda>b. Inr \<lparr>ct_content_type = OID_SIGNED_DATA, ct_content = b\<rparr>)"
  "x_signed_data (with_tokens X) = (\<lambda>b. Inr (demo_signed_data b))"
  "x_octet_string (with_tokens X) = Inr"
  "x_tst_info (with_tokens X) = (\<lambda>b. Inr \<lparr>tst_imprint_alg = OID_SHA256, tst_hashed_message = b,
     tst_gen_secs = 7, tst_gen_nanos = 0\<rparr>)"
  "x_attributes_der (with_tokens X) = (\<lambda>a. Inr [0xA0])"
  "x_spki_der (with_tokens X) = Inr"
  "x_rsa_key (with_tokens X) = Inr"
  "x_rsa_verify (with_tokens X) = (\<lambda>k oid d sig. Inr ())"
  "x_format_utc_millis (with_tokens X) = (\<lambda>s n. Some (lit ''7''))"
  "x_name_text (with_tokens X) = (\<lambda>n. lit ''tsa'')"
  by (simp_all add: with_tokens_def bext.defs tsext.defs ext.defs cext.defs vext.defs)

lemma demo_token: "verify_token (with_tokens X) b b =
    (if x_sha256 X b = x_sha256 demo_ext b
     then Inr \<lparr>vt_gen_time = lit ''7'', vt_signer_subject = lit ''tsa'', vt_signature_verified = True\<rparr>
     else Inl (TsaSignatureInvalid [T ''messageDigest attribute mismatch'']))"
  by (auto simp: verify_token_def parse_token_def or_parse_def demo_signed_data_def gen_time_text_def
    find_signer_cert_def verify_cms_signature_def digest_bytes_def rsa_key_from_spki_def)

section \<open>Properties\<close>

text \<open>
  C25: An accepted token is a signed statement about the expected digest. The token carries a TSTInfo
  whose imprint is the expected SHA-256 digest; a \<open>messageDigest\<close> attribute has the digest of that
  TSTInfo; and the RSA signature over the attributes verifies under the key of a certificate that
  the token itself contains. No other certificate takes part.
\<close>

theorem accepted_token_is_signed:
  assumes "verify_token X token_der imprint = Inr vt"
  shows "\<exists>ci sd ec tst_bytes tst signer cert attrs a v vs d spki key.
    parse_token X token_der = Inr ci \<and> x_signed_data X (ct_content ci) = Inr sd \<and>
    sd_econtent sd = Some ec \<and> x_octet_string X ec = Inr tst_bytes \<and> x_tst_info X tst_bytes = Inr tst \<and> tst_imprint_alg tst = OID_SHA256 \<and> tst_hashed_message tst = imprint \<and>
    signer \<in> set (sd_signer_infos sd) \<and> CertificateChoice cert \<in> set (the (sd_certificates sd)) \<and>
    si_signed_attrs signer = Some attrs \<and> digest_bytes X (si_digest_alg signer) tst_bytes = Inr d \<and>
    a \<in> set attrs \<and> at_oid a = OID_MESSAGE_DIGEST \<and> at_values a = v # vs \<and> x_octet_string X v = Inr d \<and>
    x_spki_der X (cc_subject_public_key_info cert) = Inr spki \<and> x_rsa_key X spki = Inr key \<and>
    (\<exists>der s. x_attributes_der X attrs = Inr der \<and> digest_bytes X (si_digest_alg signer) (retag_set der) = Inr s \<and>
       x_rsa_verify X key (si_digest_alg signer) s (si_signature signer) = Inr ())"
proof -
  from verify_token_Inr [OF assms] obtain ci sd ec tst_bytes tst signer rest cert u where
    p: "parse_token X token_der = Inr ci" "x_signed_data X (ct_content ci) = Inr sd"
      "sd_econtent sd = Some ec" "x_octet_string X ec = Inr tst_bytes"
    and t: "x_tst_info X tst_bytes = Inr tst" "tst_imprint_alg tst = OID_SHA256" "tst_hashed_message tst = imprint"
      "sd_signer_infos sd = signer # rest" "find_signer_cert sd signer = Inr cert"
    and c: "verify_cms_signature X signer cert tst_bytes = Inr u" by blast
  from t(5) have "CertificateChoice cert \<in> set (the (sd_certificates sd))"
    by (auto simp: find_signer_cert_def split: option.splits dest: find_in_choices_Inr)
  moreover from t(4) have "signer \<in> set (sd_signer_infos sd)" by simp
  moreover from verify_cms_signature_Inr [OF c] obtain attrs d der s spki key where
    v: "si_signed_attrs signer = Some attrs" "digest_bytes X (si_digest_alg signer) tst_bytes = Inr d"
      "message_digest_ok X d False attrs = Inr True" "x_attributes_der X attrs = Inr der"
      "digest_bytes X (si_digest_alg signer) (retag_set der) = Inr s"
      "x_spki_der X (cc_subject_public_key_info cert) = Inr spki" "x_rsa_key X spki = Inr key"
      "x_rsa_verify X key (si_digest_alg signer) s (si_signature signer) = Inr ()" by blast
  moreover from message_digest_attr [OF v(3)] obtain a w ws where "a \<in> set attrs"
    "at_oid a = OID_MESSAGE_DIGEST" "at_values a = w # ws" "x_octet_string X w = Inr d" by blast
  ultimately show ?thesis using p t(1-3) by blast
qed

theorem accepted_token_is_signed_witness:
  "\<exists>X :: (ustr \<times> bytes) list tsext. \<exists>vt tst_bytes tst. verify_token X [1, 2] [1, 2] = Inr vt \<and>
     x_tst_info X tst_bytes = Inr tst \<and> tst_hashed_message tst = [1, 2]"
proof -
  let ?X = "with_tokens (demo_bundle (\<lambda>b. Inl []) (demo_manifest []) \<lparr>ri_streams = []\<rparr>)"
  have "x_sha256 (demo_bundle (\<lambda>b. Inl []) (demo_manifest []) \<lparr>ri_streams = []\<rparr>) = x_sha256 demo_ext"
    by (simp add: demo_bundle_def with_parser_def with_certs_def ext.defs cext.defs vext.defs bext.defs)
  then obtain vt where vt: "verify_token ?X [1, 2] [1, 2] = Inr vt" by (simp add: demo_token)
  from accepted_token_is_signed [OF vt] vt show ?thesis by blast
qed

text \<open>
  A token is good for one digest only: if the same token is accepted for two digests, they are
  equal, so the token of one batch cannot serve another.
\<close>

theorem token_binds_one_digest:
  assumes "verify_token X token_der d = Inr vt" and "verify_token X token_der d' = Inr vt'"
  shows "d = d' \<and> vt = vt'"
proof -
  from verify_token_Inr [OF assms(1)] verify_token_Inr [OF assms(2)] have "d = d'" by force
  with assms show ?thesis by simp
qed

theorem token_binds_one_digest_witness:
  "\<exists>X :: (ustr \<times> bytes) list tsext. \<exists>vt. verify_token X [1, 2] [1, 2] = Inr vt \<and>
     (\<forall>d vt'. verify_token X [1, 2] d = Inr vt' \<longrightarrow> d = [1, 2])"
proof -
  let ?X = "with_tokens (demo_bundle (\<lambda>b. Inl []) (demo_manifest []) \<lparr>ri_streams = []\<rparr>)"
  have "x_sha256 (demo_bundle (\<lambda>b. Inl []) (demo_manifest []) \<lparr>ri_streams = []\<rparr>) = x_sha256 demo_ext"
    by (simp add: demo_bundle_def with_parser_def with_certs_def ext.defs cext.defs vext.defs bext.defs)
  then obtain vt where vt: "verify_token ?X [1, 2] [1, 2] = Inr vt" by (simp add: demo_token)
  with token_binds_one_digest [OF vt] show ?thesis by blast
qed

end
