(* ===== verification/Checkpoint_Check.thy ===== *)
theory Checkpoint_Check
  imports Stream_Check
begin

text \<open>
  Stage 5 of the engine (\<open>verify_checkpoints\<close> of \<open>verify/src/engine.rs\<close>): the checkpoints of one
  stream, one after the other. A \<open>continue\<close> of the loop ends the function of one checkpoint. The
  ranges that the loop remembers for the fork check are part of the state it threads.
\<close>

section \<open>Ranges of sequence numbers\<close>

definition seq_range :: "u64 \<Rightarrow> u64 \<Rightarrow> u64 list" where
  "seq_range a b = map of_nat [unat a ..< Suc (unat b)]"

fun map_while :: "('a \<Rightarrow> 'b option) \<Rightarrow> 'a list \<Rightarrow> 'b list" where
  "map_while f [] = []"
| "map_while f (x # xs) = (case f x of None \<Rightarrow> [] | Some y \<Rightarrow> y # map_while f xs)"

lemma u64_less: "unat (a :: u64) < 2 ^ 64"
proof -
  have "unat a < 2 ^ LENGTH(64)" by (rule unsigned_less)
  then show ?thesis by simp
qed

lemma set_seq_range: "set (seq_range a b) = {a..b}"
proof -
  have "x \<in> (of_nat ` {unat a..unat b} :: u64 set)" if "a \<le> x" "x \<le> b" for x
    using that by (intro image_eqI [of _ _ "unat x"]) (simp_all add: word_le_nat_alt)
  moreover have "a \<le> of_nat n \<and> of_nat n \<le> b" if "unat a \<le> n" "n \<le> unat b" for n
  proof -
    have "n < 2 ^ 64" using that(2) u64_less [of b] by simp
    then have "unat (of_nat n :: u64) = n" by (simp add: unat_of_nat)
    with that show ?thesis by (simp add: word_le_nat_alt)
  qed
  moreover have "set (seq_range a b) = of_nat ` {unat a..unat b}"
    by (simp add: seq_range_def atLeastLessThanSuc_atLeastAtMost del: upt_Suc)
  ultimately show ?thesis by auto
qed

lemma length_seq_range: "a \<le> b \<Longrightarrow> length (seq_range a b) = unat b - unat a + 1"
  by (simp add: seq_range_def word_le_nat_alt)

lemma map_while_prefix: "length (map_while f xs) \<le> length xs"
  by (induction xs) (auto split: option.splits)

lemma map_while_full: "length (map_while f xs) = length xs \<longleftrightarrow> map f xs = map Some (map_while f xs)"
proof (induction xs)
  case (Cons x xs)
  then show ?case by (cases "f x") auto
qed simp

text \<open>The length test of the code, which compares 64-bit numbers, says that the range is complete.\<close>

lemma covered_complete:
  assumes "of_nat (length (map_while f (seq_range a b))) = b - a + 1" and "map_while f (seq_range a b) \<noteq> []"
  shows "a \<le> b \<and> map f (seq_range a b) = map Some (map_while f (seq_range a b))"
proof -
  let ?n = "length (map_while f (seq_range a b))"
  have "seq_range a b \<noteq> []" using assms(2) by auto
  then have le: "a \<le> b" by (simp add: seq_range_def word_le_nat_alt split: if_splits)
  then have len: "length (seq_range a b) = unat b - unat a + 1" by (rule length_seq_range)
  have "?n \<le> unat b - unat a + 1" using map_while_prefix [of f "seq_range a b"] len by simp
  moreover have "unat b - unat a + 1 \<le> 2 ^ 64" using u64_less [of b] by simp
  moreover have "?n > 0" using assms(2) by simp
  moreover have "(of_nat ?n :: u64) = of_nat (unat b - unat a + 1)"
    using assms(1) le by (simp add: word_le_nat_alt)
  then have "?n mod 2 ^ 64 = (unat b - unat a + 1) mod 2 ^ 64"
    by (simp add: word_of_nat_eq_iff take_bit_eq_mod del: of_nat_add of_nat_Suc)
  ultimately have "?n = unat b - unat a + 1"
    by (cases "unat b - unat a + 1 = 2 ^ 64"; cases "?n = 2 ^ 64") (auto simp: mod_if split: if_splits)
  with len le show ?thesis by (simp add: map_while_full [symmetric])
qed

section \<open>One checkpoint\<close>

type_synonym CertMap = "(ustr \<times> ValidatedCert) list"
type_synonym ConsoleKeys = "(ustr \<times> VerifyingKey) list"

record CheckpointPass =
  cp_data :: StreamData
  cp_ranges :: "(u64 \<times> u64 \<times> ustr \<times> ustr) list"

definition signed_after_revocation ::
  "'x ext_scheme \<Rightarrow> SignedRevocationList option \<Rightarrow> CheckpointNote \<Rightarrow> bool" where
  "signed_after_revocation X revocations note =
     (case (revocations, parse_wall X (n_ts_wall note)) of
        (Some revoked, Inr ts) \<Rightarrow> is_revoked_at X revoked (n_recorder_cert_fingerprint note) ts
      | _ \<Rightarrow> False)"

definition fork_findings ::
  "ustr \<Rightarrow> CheckpointNote \<Rightarrow> (u64 \<times> u64 \<times> ustr \<times> ustr) list \<Rightarrow> Finding list" where
  "fork_findings stream_id note ranges = concat (map (\<lambda>(from, to, root_hex, other_id).
     let overlaps = n_seq_from note \<le> to \<and> from \<le> n_seq_to note in
     if overlaps \<and> (from, to) = (n_seq_from note, n_seq_to note) \<and> root_hex \<noteq> n_merkle_root note
     then [add_at Error ''chain_fork_detected''
             [T ''checkpoints '', S other_id, T '' and '', S (n_checkpoint_id note), T '' cover ['',
              N (unat from), T '', '', N (unat to), T ''] with different roots''] stream_id None]
     else []) ranges)"

definition covered_hashes :: "StreamData \<Rightarrow> CheckpointNote \<Rightarrow> ustr list" where
  "covered_hashes d note =
     map_while (map_of (d_hashes_by_seq d)) (seq_range (n_seq_from note) (n_seq_to note))"

text \<open>The Merkle check: the new data, the findings, and whether the loop goes on with this checkpoint.\<close>

definition check_root ::
  "'x ext_scheme \<Rightarrow> ustr \<Rightarrow> SignedCheckpoint \<Rightarrow> StreamData \<Rightarrow> StreamData \<times> Finding list \<times> bool" where
  "check_root X stream_id cp d =
     (let note = sc_note cp; covered = covered_hashes d note in
      if of_nat (length covered) = n_seq_to note - n_seq_from note + 1
      then case verify_root X cp covered of
             Inl e \<Rightarrow> (d, [add_at Error ''checkpoint_root_mismatch'' (display_error e) stream_id None], False)
           | Inr u \<Rightarrow>
               (d\<lparr>d_attested_seqs := d_attested_seqs d \<union> set (seq_range (n_seq_from note) (n_seq_to note))\<rparr>,
                [], True)
      else (d, [add_at Info ''checkpoint_range_not_fully_exported''
                 [T ''checkpoint '', S (n_checkpoint_id note), T '' covers ['',
                  N (unat (n_seq_from note)), T '', '', N (unat (n_seq_to note)),
                  T ''] but the export does not contain the full range; root not recomputed'']
                 stream_id None], True))"

definition note_high_water :: "u64 option \<Rightarrow> StreamData \<Rightarrow> StreamData" where
  "note_high_water asserted d =
     (case asserted of
        None \<Rightarrow> d
      | Some hw \<Rightarrow>
          if (case d_countersigned_high_water d of None \<Rightarrow> True | Some c \<Rightarrow> c < hw)
          then d\<lparr>d_countersigned_high_water := Some hw\<rparr> else d)"

definition check_countersignature ::
  "'x ext_scheme \<Rightarrow> ustr \<Rightarrow> ConsoleKeys \<Rightarrow> ustr \<Rightarrow> Countersignature option \<Rightarrow> StreamData \<Rightarrow>
   StreamData \<times> Finding list \<times> bool" where
  "check_countersignature X stream_id console_keys cp_id countersignature d =
     (case countersignature of
        Some cs \<Rightarrow>
          if list_ex (\<lambda>(key_id, k). is_ok (countersignature_verify X cs k)) console_keys
          then (note_high_water (cn_stream_high_water_seq (cs_note cs))
                 (d\<lparr>d_countersigned_checkpoints := insert cp_id (d_countersigned_checkpoints d)\<rparr>), [], True)
          else if console_keys = []
          then (d, [add_at Warning ''countersignature_unverifiable''
                     [T ''checkpoint '', S cp_id,
                      T '': countersignature present but no console key available''] stream_id None], True)
          else (d, [add_at Error ''countersignature_invalid''
                     [T ''checkpoint '', S cp_id, T '': console countersignature does not verify'']
                     stream_id None], False)
      | None \<Rightarrow>
          (d, [add_at Info ''not_countersigned''
                [T ''checkpoint '', S cp_id, T '' has no console countersignature''] stream_id None], True))"

definition keep_books :: "'x ext_scheme \<Rightarrow> CheckpointNote \<Rightarrow> StreamData \<Rightarrow> StreamData" where
  "keep_books X note d =
     (let cp_id = n_checkpoint_id note;
          d1 = (case to_jcs_bytes (note_json note) of
                  Inr jcs \<Rightarrow> d\<lparr>d_checkpoint_digests := hash_insert cp_id (blake3_raw X jcs) (d_checkpoint_digests d)\<rparr>
                | Inl e \<Rightarrow> d);
          d2 = (case note_hash X note of
                  Inr h \<Rightarrow> d1\<lparr>d_checkpoint_note_hashes := insert h (d_checkpoint_note_hashes d1)\<rparr>
                | Inl e \<Rightarrow> d1);
          d3 = (case n_prev_checkpoint_hash note of
                  Some prev \<Rightarrow> d2\<lparr>d_checkpoint_links := d_checkpoint_links d2 @ [(cp_id, prev)]\<rparr>
                | None \<Rightarrow> d2);
          d4 = (if (case d_top_checkpoint d3 of None \<Rightarrow> True | Some (i, s) \<Rightarrow> s < n_seq_to note)
                then d3\<lparr>d_top_checkpoint := Some (cp_id, n_seq_to note)\<rparr> else d3)
      in d4\<lparr>d_valid_checkpoint_ranges :=
              hash_insert cp_id (n_seq_from note, n_seq_to note) (d_valid_checkpoint_ranges d4)\<rparr>)"

definition verify_checkpoint ::
  "'x ext_scheme \<Rightarrow> ustr \<Rightarrow> CertMap \<Rightarrow> SignedRevocationList option \<Rightarrow> ConsoleKeys \<Rightarrow>
   CheckpointPass \<Rightarrow> BundleCheckpoint \<Rightarrow> CheckpointPass \<times> Finding list" where
  "verify_checkpoint X stream_id cert_map revocations console_keys p bc =
     (let note = sc_note (bc_checkpoint bc); cp_id = n_checkpoint_id note in
      if n_stream_id note \<noteq> stream_id
      then (p, [add_at Error ''checkpoint_stream_mismatch''
                 [T ''checkpoint '', S cp_id, T '' is for stream '', S (n_stream_id note)] stream_id None])
      else case map_of cert_map (n_recorder_cert_fingerprint note) of
        None \<Rightarrow>
          (p, [add_at Error ''checkpoint_cert_unknown''
                [T ''checkpoint '', S cp_id, T '': recorder certificate '',
                 S (n_recorder_cert_fingerprint note), T '' not in validated identity set''] stream_id None])
      | Some cert \<Rightarrow>
          if \<not> is_ok (checkpoint_verify X (bc_checkpoint bc) (vc_public_key cert))
          then (p, [add_at Error ''checkpoint_signature_invalid''
                     [T ''checkpoint '', S cp_id, T '': recorder signature does not verify''] stream_id None])
          else if signed_after_revocation X revocations note
          then (p, [add_at Error ''checkpoint_after_revocation''
                     [T ''checkpoint '', S cp_id, T '' signed at '', S (n_ts_wall note),
                      T '' after certificate revocation''] stream_id None])
          else
            let forks = fork_findings stream_id note (cp_ranges p);
                ranges = cp_ranges p @ [(n_seq_from note, n_seq_to note, n_merkle_root note, cp_id)];
                (d1, f1, go1) = check_root X stream_id (bc_checkpoint bc) (cp_data p) in
            if \<not> go1 then (\<lparr>cp_data = d1, cp_ranges = ranges\<rparr>, forks @ f1)
            else
              let (d2, f2, go2) =
                    check_countersignature X stream_id console_keys cp_id (bc_countersignature bc) d1 in
              if \<not> go2 then (\<lparr>cp_data = d2, cp_ranges = ranges\<rparr>, forks @ f1 @ f2)
              else (\<lparr>cp_data = keep_books X note d2, cp_ranges = ranges\<rparr>, forks @ f1 @ f2))"

fun checkpoint_loop ::
  "'x ext_scheme \<Rightarrow> ustr \<Rightarrow> CertMap \<Rightarrow> SignedRevocationList option \<Rightarrow> ConsoleKeys \<Rightarrow>
   CheckpointPass \<Rightarrow> BundleCheckpoint list \<Rightarrow> CheckpointPass \<times> Finding list" where
  "checkpoint_loop X stream_id cert_map revocations console_keys p [] = (p, [])"
| "checkpoint_loop X stream_id cert_map revocations console_keys p (bc # bcs) =
     (let (p1, f1) = verify_checkpoint X stream_id cert_map revocations console_keys p bc;
          (p2, f2) = checkpoint_loop X stream_id cert_map revocations console_keys p1 bcs
      in (p2, f1 @ f2))"

definition verify_checkpoints ::
  "'x ext_scheme \<Rightarrow> ustr \<Rightarrow> StreamData \<Rightarrow> BundleCheckpoint list \<Rightarrow> CertMap \<Rightarrow>
   SignedRevocationList option \<Rightarrow> ConsoleKeys \<Rightarrow> StreamData \<times> Finding list" where
  "verify_checkpoints X stream_id d checkpoints cert_map revocations console_keys =
     (let (p, fs) = checkpoint_loop X stream_id cert_map revocations console_keys
                      \<lparr>cp_data = d, cp_ranges = []\<rparr> checkpoints
      in (cp_data p, fs))"

section \<open>What the checks establish\<close>

definition vouched ::
  "'x ext_scheme \<Rightarrow> ustr \<Rightarrow> CertMap \<Rightarrow> SignedRevocationList option \<Rightarrow> SignedCheckpoint \<Rightarrow> bool" where
  "vouched X stream_id cert_map revocations cp \<longleftrightarrow> n_stream_id (sc_note cp) = stream_id \<and>
     (\<exists>cert. map_of cert_map (n_recorder_cert_fingerprint (sc_note cp)) = Some cert \<and>
        is_ok (checkpoint_verify X cp (vc_public_key cert))) \<and>
     \<not> signed_after_revocation X revocations (sc_note cp)"

definition root_checked :: "'x ext_scheme \<Rightarrow> (u64 \<times> ustr) list \<Rightarrow> SignedCheckpoint \<Rightarrow> bool" where
  "root_checked X hashes cp \<longleftrightarrow> (\<exists>hs.
     map (map_of hashes) (seq_range (n_seq_from (sc_note cp)) (n_seq_to (sc_note cp))) = map Some hs \<and>
     is_ok (verify_root X cp hs))"

definition check_books :: "'x ext_scheme \<Rightarrow> ustr \<Rightarrow> ConsoleKeys \<Rightarrow> BundleCheckpoint \<Rightarrow> StreamData \<Rightarrow>
    StreamData \<times> Finding list" where
  "check_books X stream_id console_keys bc d =
     (let note = sc_note (bc_checkpoint bc);
          (d1, f1, go1) = check_root X stream_id (bc_checkpoint bc) d;
          (d2, f2, go2) = check_countersignature X stream_id console_keys (n_checkpoint_id note)
                            (bc_countersignature bc) d1
      in if \<not> go1 then (d1, f1) else if \<not> go2 then (d2, f1 @ f2) else (keep_books X note d2, f1 @ f2))"

lemma verify_checkpoint_cases:
  "verify_checkpoint X st cm rv ks p bc = (p', fs) \<Longrightarrow>
   (if vouched X st cm rv (bc_checkpoint bc)
    then let note = sc_note (bc_checkpoint bc); (d', gs) = check_books X st ks bc (cp_data p) in
      cp_data p' = d' \<and> fs = fork_findings st note (cp_ranges p) @ gs \<and>
      cp_ranges p' = cp_ranges p @ [(n_seq_from note, n_seq_to note, n_merkle_root note, n_checkpoint_id note)]
    else p' = p \<and> \<not> no_errors fs)"
  by (auto simp: verify_checkpoint_def vouched_def check_books_def Let_def split: if_splits option.splits prod.splits)

lemma keep_books_keeps [simp]:
  "d_hashes_by_seq (keep_books X n d) = d_hashes_by_seq d"
  "d_attested_seqs (keep_books X n d) = d_attested_seqs d"
  "d_anchored_seqs (keep_books X n d) = d_anchored_seqs d"
  "d_countersigned_high_water (keep_books X n d) = d_countersigned_high_water d"
  by (simp_all add: keep_books_def Let_def split: sum.splits option.splits)

lemma note_high_water_keeps [simp]:
  "d_hashes_by_seq (note_high_water hw d) = d_hashes_by_seq d"
  "d_attested_seqs (note_high_water hw d) = d_attested_seqs d"
  "d_anchored_seqs (note_high_water hw d) = d_anchored_seqs d"
  by (simp_all add: note_high_water_def split: option.splits)

lemma check_countersignature_keeps:
  assumes "check_countersignature X st ks cp_id cs d = (d', fs, go)"
  shows "d_hashes_by_seq d' = d_hashes_by_seq d" "d_attested_seqs d' = d_attested_seqs d"
    "d_anchored_seqs d' = d_anchored_seqs d"
  using assms by (auto simp: check_countersignature_def split: option.splits if_splits)

lemma check_root_attests:
  assumes "check_root X st cp d = (d', fs, go)"
  shows "d_hashes_by_seq d' = d_hashes_by_seq d" "d_anchored_seqs d' = d_anchored_seqs d"
    "d_countersigned_high_water d' = d_countersigned_high_water d"
    "d_attested_seqs d' = d_attested_seqs d \<or>
     root_checked X (d_hashes_by_seq d) cp \<and>
     d_attested_seqs d' = d_attested_seqs d \<union> {n_seq_from (sc_note cp) .. n_seq_to (sc_note cp)}"
proof -
  show "d_hashes_by_seq d' = d_hashes_by_seq d" "d_anchored_seqs d' = d_anchored_seqs d"
    "d_countersigned_high_water d' = d_countersigned_high_water d"
    using assms by (auto simp: check_root_def Let_def split: if_splits sum.splits)
  have "root_checked X (d_hashes_by_seq d) cp"
    if "of_nat (length (covered_hashes d (sc_note cp))) = n_seq_to (sc_note cp) - n_seq_from (sc_note cp) + 1"
      and r: "verify_root X cp (covered_hashes d (sc_note cp)) = Inr u" for u
  proof -
    have "covered_hashes d (sc_note cp) \<noteq> []" using r by (auto simp: verify_root_def Let_def rbind_eq_Inr split: if_splits)
    with covered_complete [of "map_of (d_hashes_by_seq d)"] that show ?thesis
      by (auto simp: root_checked_def covered_hashes_def)
  qed
  with assms show "d_attested_seqs d' = d_attested_seqs d \<or>
     root_checked X (d_hashes_by_seq d) cp \<and>
     d_attested_seqs d' = d_attested_seqs d \<union> {n_seq_from (sc_note cp) .. n_seq_to (sc_note cp)}"
    by (auto simp: check_root_def Let_def set_seq_range split: if_splits sum.splits)
qed

lemma check_books_attests:
  assumes "check_books X st ks bc d = (d', fs)"
  shows "d_hashes_by_seq d' = d_hashes_by_seq d" "d_anchored_seqs d' = d_anchored_seqs d"
    "d_attested_seqs d' = d_attested_seqs d \<or>
     root_checked X (d_hashes_by_seq d) (bc_checkpoint bc) \<and> d_attested_seqs d' = d_attested_seqs d \<union>
       {n_seq_from (sc_note (bc_checkpoint bc)) .. n_seq_to (sc_note (bc_checkpoint bc))}"
proof -
  obtain d1 f1 go1 where 1: "check_root X st (bc_checkpoint bc) d = (d1, f1, go1)" by (metis prod.exhaust)
  obtain d2 f2 go2 where 2: "check_countersignature X st ks (n_checkpoint_id (sc_note (bc_checkpoint bc)))
      (bc_countersignature bc) d1 = (d2, f2, go2)" by (metis prod.exhaust)
  note facts = check_root_attests [OF 1] check_countersignature_keeps [OF 2]
  show "d_hashes_by_seq d' = d_hashes_by_seq d" "d_anchored_seqs d' = d_anchored_seqs d"
    "d_attested_seqs d' = d_attested_seqs d \<or>
     root_checked X (d_hashes_by_seq d) (bc_checkpoint bc) \<and> d_attested_seqs d' = d_attested_seqs d \<union>
       {n_seq_from (sc_note (bc_checkpoint bc)) .. n_seq_to (sc_note (bc_checkpoint bc))}"
    using assms 1 2 facts by (auto simp: check_books_def split: if_splits)
qed

lemma checkpoint_loop_attests:
  assumes "checkpoint_loop X st cm rv ks p bcs = (p', fs)"
  shows "d_hashes_by_seq (cp_data p') = d_hashes_by_seq (cp_data p) \<and>
    d_anchored_seqs (cp_data p') = d_anchored_seqs (cp_data p) \<and>
    d_attested_seqs (cp_data p) \<subseteq> d_attested_seqs (cp_data p') \<and>
    (\<forall>s \<in> d_attested_seqs (cp_data p') - d_attested_seqs (cp_data p). \<exists>cp \<in> bc_checkpoint ` set bcs.
       vouched X st cm rv cp \<and> root_checked X (d_hashes_by_seq (cp_data p)) cp \<and>
       n_seq_from (sc_note cp) \<le> s \<and> s \<le> n_seq_to (sc_note cp))"
  using assms
proof (induction bcs arbitrary: p fs)
  case (Cons bc bcs)
  obtain p1 f1 f2 where 1: "verify_checkpoint X st cm rv ks p bc = (p1, f1)"
    and 2: "checkpoint_loop X st cm rv ks p1 bcs = (p', f2)"
    using Cons.prems by (auto split: prod.splits)
  obtain d' gs where b: "check_books X st ks bc (cp_data p) = (d', gs)" by fastforce
  note step = verify_checkpoint_cases [OF 1, unfolded b] check_books_attests [OF b]
  show ?case
  proof (cases "vouched X st cm rv (bc_checkpoint bc)")
    case True
    with Cons.IH [OF 2] step show ?thesis by (auto simp: Let_def)
  next
    case False
    with Cons.IH [OF 2] step show ?thesis by auto
  qed
qed simp

section \<open>Error-free passes\<close>

definition range_of :: "BundleCheckpoint \<Rightarrow> u64 \<times> u64 \<times> ustr \<times> ustr" where
  "range_of bc = (let note = sc_note (bc_checkpoint bc)
     in (n_seq_from note, n_seq_to note, n_merkle_root note, n_checkpoint_id note))"

definition fork_free :: "(u64 \<times> u64 \<times> ustr \<times> ustr) list \<Rightarrow> bool" where
  "fork_free ranges \<longleftrightarrow> (\<forall>(f, t, r, i) \<in> set ranges. \<forall>(f', t', r', i') \<in> set ranges.
     f = f' \<and> t = t' \<and> f \<le> t \<longrightarrow> r = r')"

lemma no_errors_fork_findings:
  "no_errors (fork_findings st note ranges) \<longleftrightarrow> (\<forall>(f, t, r, i) \<in> set ranges.
     f = n_seq_from note \<and> t = n_seq_to note \<and> f \<le> t \<longrightarrow> r = n_merkle_root note)"
  by (auto simp: fork_findings_def no_errors_concat Let_def split: prod.splits)

lemma checkpoint_loop_clean:
  assumes "checkpoint_loop X st cm rv ks p bcs = (p', fs)" and "no_errors fs" and "fork_free (cp_ranges p)"
  shows "(\<forall>bc \<in> set bcs. vouched X st cm rv (bc_checkpoint bc)) \<and>
    cp_ranges p' = cp_ranges p @ map range_of bcs \<and> fork_free (cp_ranges p')"
  using assms
proof (induction bcs arbitrary: p fs)
  case (Cons bc bcs)
  obtain p1 f1 f2 where 1: "verify_checkpoint X st cm rv ks p bc = (p1, f1)"
    and 2: "checkpoint_loop X st cm rv ks p1 bcs = (p', f2)" and fs: "fs = f1 @ f2"
    using Cons.prems(1) by (auto split: prod.splits)
  obtain d' gs where b: "check_books X st ks bc (cp_data p) = (d', gs)" by fastforce
  from verify_checkpoint_cases [OF 1, unfolded b] Cons.prems(2) fs
  have v: "vouched X st cm rv (bc_checkpoint bc)" and r: "cp_ranges p1 = cp_ranges p @ [range_of bc]"
    and f: "no_errors (fork_findings st (sc_note (bc_checkpoint bc)) (cp_ranges p))"
    by (auto simp: range_of_def Let_def split: if_splits)
  have "fork_free (cp_ranges p1)"
    using f Cons.prems(3) unfolding r no_errors_fork_findings
    by (auto simp: fork_free_def range_of_def Let_def)
  with Cons.IH [OF 2] Cons.prems(2) fs v r show ?case by auto
qed simp

section \<open>The countersigned high-water mark\<close>

definition asserted_high_water :: "'x ext_scheme \<Rightarrow> ConsoleKeys \<Rightarrow> BundleCheckpoint \<Rightarrow> u64 option" where
  "asserted_high_water X console_keys bc = Option.bind (bc_countersignature bc) (\<lambda>cs.
     if list_ex (\<lambda>(key_id, k). is_ok (countersignature_verify X cs k)) console_keys
     then cn_stream_high_water_seq (cs_note cs) else None)"

definition opt_max :: "u64 option \<Rightarrow> u64 option \<Rightarrow> u64 option" where
  "opt_max a b = (case (a, b) of (None, _) \<Rightarrow> b | (_, None) \<Rightarrow> a | (Some x, Some y) \<Rightarrow> Some (max x y))"

lemma note_high_water_max:
  "d_countersigned_high_water (note_high_water hw d) = opt_max (d_countersigned_high_water d) hw"
  by (auto simp: note_high_water_def opt_max_def max_def split: option.splits)

lemma opt_max_None [simp]: "opt_max a None = a"
  by (auto simp: opt_max_def split: option.splits)

lemma check_books_high_water:
  assumes "check_books X st ks bc d = (d', fs)" and "no_errors fs"
  shows "d_countersigned_high_water d' = opt_max (d_countersigned_high_water d) (asserted_high_water X ks bc)"
proof -
  obtain d1 f1 go1 where 1: "check_root X st (bc_checkpoint bc) d = (d1, f1, go1)" by (metis prod.exhaust)
  obtain d2 f2 go2 where 2: "check_countersignature X st ks (n_checkpoint_id (sc_note (bc_checkpoint bc)))
      (bc_countersignature bc) d1 = (d2, f2, go2)" by (metis prod.exhaust)
  have "go1 \<or> \<not> no_errors f1" "go2 \<or> \<not> no_errors f2"
    using 1 2 by (auto simp: check_root_def check_countersignature_def Let_def split: if_splits sum.splits option.splits)
  with assms 1 2 have "d' = keep_books X (sc_note (bc_checkpoint bc)) d2"
    by (auto simp: check_books_def split: if_splits)
  moreover have "d_countersigned_high_water d2 =
      opt_max (d_countersigned_high_water d1) (asserted_high_water X ks bc)"
    using 2 by (auto simp: check_countersignature_def asserted_high_water_def note_high_water_max
      split: option.splits if_splits)
  ultimately show ?thesis using check_root_attests(3) [OF 1] by simp
qed

lemma checkpoint_loop_high_water:
  "checkpoint_loop X st cm rv ks p bcs = (p', fs) \<Longrightarrow> no_errors fs \<Longrightarrow>
   d_countersigned_high_water (cp_data p') =
     foldl opt_max (d_countersigned_high_water (cp_data p)) (map (asserted_high_water X ks) bcs)"
proof (induction bcs arbitrary: p fs)
  case (Cons bc bcs)
  obtain p1 f1 f2 where 1: "verify_checkpoint X st cm rv ks p bc = (p1, f1)"
    and 2: "checkpoint_loop X st cm rv ks p1 bcs = (p', f2)" and fs: "fs = f1 @ f2"
    using Cons.prems(1) by (auto split: prod.splits)
  obtain d' gs where b: "check_books X st ks bc (cp_data p) = (d', gs)" by fastforce
  from verify_checkpoint_cases [OF 1, unfolded b] Cons.prems(2) fs
  have "cp_data p1 = d'" "no_errors gs" by (auto simp: Let_def split: if_splits)
  with Cons.IH [OF 2] check_books_high_water [OF b] Cons.prems(2) fs show ?case by simp
qed simp

lemma foldl_opt_max:
  "foldl opt_max a ms = r \<Longrightarrow>
   (\<forall>h. (a = Some h \<or> Some h \<in> set ms) \<longrightarrow> (\<exists>m. r = Some m \<and> h \<le> m)) \<and>
   (\<forall>m. r = Some m \<longrightarrow> a = Some m \<or> Some m \<in> set ms)"
proof (induction ms arbitrary: a)
  case (Cons b ms)
  from Cons.IH [of "opt_max a b"] Cons.prems show ?case
    by (cases a; cases b) (auto simp: opt_max_def max_def split: if_splits intro: order_trans)
qed auto

section \<open>A concrete pass\<close>

definition demo_data :: StreamData where
  "demo_data = stream_data_default\<lparr>d_hashes_by_seq := [(0, blake3_hex demo_ext [])]\<rparr>"

definition demo_signer :: SigningKey where
  "demo_signer = \<lparr>sk_inner = replicate 32 7\<rparr>"

definition demo_cert :: ValidatedCert where
  "demo_cert = \<lparr>vc_subject_common_name = [], vc_public_key = verifying_key demo_ext demo_signer,
     vc_fingerprint = lit ''f'', vc_not_before_unix = 0, vc_not_after_unix = 9\<rparr>"

definition demo_console :: ConsoleKeys where
  "demo_console = [(lit ''k'', verifying_key demo_ext demo_signer)]"

lemma demo_checkpoint:
  obtains sc where "sc_note sc = demo_note cid prev"
    "checkpoint_verify demo_ext sc (verifying_key demo_ext demo_signer) = Inr ()"
    "verify_root demo_ext sc [blake3_hex demo_ext []] = Inr ()"
proof -
  obtain sc where sc: "sign_note demo_ext (demo_note cid prev) demo_signer = Inr sc"
    using demo_note_ok [of cid prev] by (auto simp: sign_note_def sign_jcs_def is_ok_iff)
  then have "sc_note sc = demo_note cid prev"
    and v: "checkpoint_verify demo_ext sc (verifying_key demo_ext demo_signer) = Inr ()"
    by (auto simp: sign_note_def rbind_eq_Inr checkpoint_verify_def
      intro: verify_sign_jcs [OF demo_ed25519_law])
  then show ?thesis
    by (intro that [of sc]) (simp_all add: verify_root_Inr merkle_root_of_record_hashes_def demo_note_def
      blake3_hex_def hex_decode_digest_encode)
qed

lemma demo_countersignature:
  obtains cs where "cn_checkpoint_id (cs_note cs) = lit ''other''" "cn_stream_high_water_seq (cs_note cs) = Some 3"
    "countersignature_verify demo_ext cs (verifying_key demo_ext demo_signer) = Inr ()"
proof -
  let ?n = "\<lparr>cn_checkpoint_id = lit ''other'', cn_received_at = [], cn_console_key_id = [],
    cn_stream_high_water_seq = Some 3\<rparr>"
  have "is_ok (to_jcs_bytes (countersignature_note_json ?n))"
    by (simp add: to_jcs_bytes_ok countersignature_note_json_def)
  then obtain sig where "sign_jcs demo_ext demo_signer (countersignature_note_json ?n) = Inr sig"
    by (auto simp: sign_jcs_def is_ok_iff)
  from verify_sign_jcs [OF demo_ed25519_law this] show ?thesis
    by (intro that [of "\<lparr>cs_note = ?n, cs_signature = sig\<rparr>"]) (simp_all add: countersignature_verify_def)
qed

lemma demo_checkpoint_pass:
  obtains bc d' where "sc_note (bc_checkpoint bc) = demo_note (lit ''c'') None"
    "verify_checkpoints demo_ext (lit ''5'') demo_data [bc] [(lit ''f'', demo_cert)] None demo_console = (d', [])"
    "d_attested_seqs d' = {0}" "d_countersigned_high_water d' = Some 3"
    "asserted_high_water demo_ext demo_console bc = Some 3"
proof -
  obtain sc where sc: "sc_note sc = demo_note (lit ''c'') None"
    "checkpoint_verify demo_ext sc (verifying_key demo_ext demo_signer) = Inr ()"
    "verify_root demo_ext sc [blake3_hex demo_ext []] = Inr ()" by (rule demo_checkpoint)
  obtain cs where cs: "cn_stream_high_water_seq (cs_note cs) = Some 3"
    "countersignature_verify demo_ext cs (verifying_key demo_ext demo_signer) = Inr ()"
    by (rule demo_countersignature)
  let ?bc = "\<lparr>bc_checkpoint = sc, bc_countersignature = Some cs\<rparr>"
  let ?note = "demo_note (lit ''c'') None"
  have n: "n_stream_id ?note = lit ''5''" "n_recorder_cert_fingerprint ?note = lit ''f''"
    "n_seq_from ?note = 0" "n_seq_to ?note = 0" by (simp_all add: demo_note_def)
  have "covered_hashes demo_data ?note = [blake3_hex demo_ext []]"
    by (simp add: covered_hashes_def seq_range_def n demo_data_def)
  with sc have r: "check_root demo_ext (lit ''5'') sc demo_data = (demo_data\<lparr>d_attested_seqs := {0}\<rparr>, [], True)"
    by (simp add: check_root_def seq_range_def n) (simp add: demo_data_def stream_data_default_def)
  obtain d2 where c: "check_countersignature demo_ext (lit ''5'') demo_console (n_checkpoint_id ?note) (Some cs)
      (demo_data\<lparr>d_attested_seqs := {0}\<rparr>) = (d2, [], True)" "d_countersigned_high_water d2 = Some 3"
      "d_attested_seqs d2 = {0}"
    using cs by (simp add: check_countersignature_def demo_console_def note_high_water_def demo_data_def
      stream_data_default_def)
  show ?thesis
    using sc r c n
    by (intro that [of ?bc "keep_books demo_ext ?note d2"])
      (simp_all add: verify_checkpoints_def verify_checkpoint_def signed_after_revocation_def
        fork_findings_def demo_cert_def asserted_high_water_def cs demo_console_def Let_def)
qed

section \<open>Properties\<close>

text \<open>
  C14: What the verifier counts as attested is attested. Whatever else the checkpoints file holds,
  every sequence number that the pass adds lies in the range of a checkpoint of the file that is
  for this stream, is signed by the key of a validated recorder certificate and not after that
  certificate's revocation; the export has a record hash for every number of that range, and the
  checkpoint's Merkle root and chain head are those of exactly these hashes.
\<close>

theorem attested_records_are_vouched:
  assumes "verify_checkpoints X stream_id d checkpoints cert_map revocations console_keys = (d', fs)"
    and "s \<in> d_attested_seqs d'" and "s \<notin> d_attested_seqs d"
  shows "\<exists>bc \<in> set checkpoints. \<exists>cert hs. let cp = bc_checkpoint bc; note = sc_note cp in
    n_stream_id note = stream_id \<and> map_of cert_map (n_recorder_cert_fingerprint note) = Some cert \<and>
    checkpoint_verify X cp (vc_public_key cert) = Inr () \<and> \<not> signed_after_revocation X revocations note \<and>
    n_seq_from note \<le> s \<and> s \<le> n_seq_to note \<and>
    map (map_of (d_hashes_by_seq d)) (seq_range (n_seq_from note) (n_seq_to note)) = map Some hs \<and>
    verify_root X cp hs = Inr ()"
proof -
  obtain p gs where l: "checkpoint_loop X stream_id cert_map revocations console_keys
      \<lparr>cp_data = d, cp_ranges = []\<rparr> checkpoints = (p, gs)" by fastforce
  with assms(1) have "d' = cp_data p" by (simp add: verify_checkpoints_def)
  with checkpoint_loop_attests [OF l] assms(2,3) have "\<exists>bc \<in> set checkpoints.
      vouched X stream_id cert_map revocations (bc_checkpoint bc) \<and>
      root_checked X (d_hashes_by_seq d) (bc_checkpoint bc) \<and>
      n_seq_from (sc_note (bc_checkpoint bc)) \<le> s \<and> s \<le> n_seq_to (sc_note (bc_checkpoint bc))"
    by fastforce
  then obtain bc where "bc \<in> set checkpoints" "vouched X stream_id cert_map revocations (bc_checkpoint bc)"
      "root_checked X (d_hashes_by_seq d) (bc_checkpoint bc)"
      "n_seq_from (sc_note (bc_checkpoint bc)) \<le> s" "s \<le> n_seq_to (sc_note (bc_checkpoint bc))"
    by blast
  then show ?thesis
    by (intro bexI [of _ bc]) (auto simp: vouched_def root_checked_def is_ok_iff Let_def)
qed

theorem attested_records_are_vouched_witness:
  "\<exists>bc (cert :: ValidatedCert) hs d'.
     verify_checkpoints demo_ext (lit ''5'') demo_data [bc] [(lit ''f'', demo_cert)] None demo_console = (d', []) \<and>
     d_attested_seqs d' = {0} \<and> checkpoint_verify demo_ext (bc_checkpoint bc) (vc_public_key cert) = Inr () \<and>
     verify_root demo_ext (bc_checkpoint bc) hs = Inr ()"
proof -
  obtain bc d' where c: "verify_checkpoints demo_ext (lit ''5'') demo_data [bc] [(lit ''f'', demo_cert)] None
      demo_console = (d', [])" "d_attested_seqs d' = {0}" by (rule demo_checkpoint_pass)
  have "0 \<in> d_attested_seqs d'" "0 \<notin> d_attested_seqs demo_data"
    using c(2) by (simp_all add: demo_data_def stream_data_default_def)
  from attested_records_are_vouched [OF c(1) this] c show ?thesis by (simp add: Let_def) blast
qed

text \<open>
  C27: A pass over the checkpoints that reports no error leaves no fork: every checkpoint of the file
  was accepted for this stream under a validated, unrevoked certificate, and two checkpoints over
  the same non-empty range carry the same Merkle root.
\<close>

theorem error_free_checkpoints_have_no_fork:
  assumes "verify_checkpoints X stream_id d checkpoints cert_map revocations console_keys = (d', fs)"
    and "no_errors fs" and "a \<in> set checkpoints" and "b \<in> set checkpoints"
  shows "vouched X stream_id cert_map revocations (bc_checkpoint a) \<and>
    (let m = sc_note (bc_checkpoint a); n = sc_note (bc_checkpoint b) in
       n_seq_from m = n_seq_from n \<and> n_seq_to m = n_seq_to n \<and> n_seq_from m \<le> n_seq_to m \<longrightarrow>
       n_merkle_root m = n_merkle_root n)"
proof -
  obtain p gs where l: "checkpoint_loop X stream_id cert_map revocations console_keys
      \<lparr>cp_data = d, cp_ranges = []\<rparr> checkpoints = (p, gs)" by fastforce
  with assms(1,2) have "no_errors gs" by (simp add: verify_checkpoints_def)
  moreover have "fork_free []" by (simp add: fork_free_def)
  ultimately have v: "\<forall>bc \<in> set checkpoints. vouched X stream_id cert_map revocations (bc_checkpoint bc)"
    and f: "fork_free (map range_of checkpoints)" using checkpoint_loop_clean [OF l] by auto
  from assms(3,4) have "range_of a \<in> set (map range_of checkpoints)" "range_of b \<in> set (map range_of checkpoints)"
    by auto
  with f have "n_seq_from (sc_note (bc_checkpoint a)) = n_seq_from (sc_note (bc_checkpoint b)) \<and>
      n_seq_to (sc_note (bc_checkpoint a)) = n_seq_to (sc_note (bc_checkpoint b)) \<and>
      n_seq_from (sc_note (bc_checkpoint a)) \<le> n_seq_to (sc_note (bc_checkpoint a)) \<longrightarrow>
      n_merkle_root (sc_note (bc_checkpoint a)) = n_merkle_root (sc_note (bc_checkpoint b))"
    unfolding fork_free_def by (fastforce simp: range_of_def Let_def)
  with v assms(3) show ?thesis by (simp add: Let_def)
qed

theorem error_free_checkpoints_have_no_fork_witness:
  "\<exists>bc d'. verify_checkpoints demo_ext (lit ''5'') demo_data [bc] [(lit ''f'', demo_cert)] None demo_console =
       (d', []) \<and> vouched demo_ext (lit ''5'') [(lit ''f'', demo_cert)] None (bc_checkpoint bc)"
proof -
  obtain bc d' where c: "verify_checkpoints demo_ext (lit ''5'') demo_data [bc] [(lit ''f'', demo_cert)] None
      demo_console = (d', [])" by (rule demo_checkpoint_pass)
  from error_free_checkpoints_have_no_fork [OF c, of bc bc] c show ?thesis by auto
qed

text \<open>
  C28: The high-water mark that survives an error-free pass is the greatest one: it is at least every
  mark asserted by a countersignature that verifies under a console key, and it is itself one of
  them or the one the stream had before.
\<close>

theorem high_water_is_greatest:
  assumes "verify_checkpoints X stream_id d checkpoints cert_map revocations console_keys = (d', fs)"
    and "no_errors fs"
  shows "(\<forall>bc \<in> set checkpoints. \<forall>h. asserted_high_water X console_keys bc = Some h \<longrightarrow>
      (\<exists>m. d_countersigned_high_water d' = Some m \<and> h \<le> m)) \<and>
    (\<forall>m. d_countersigned_high_water d' = Some m \<longrightarrow> d_countersigned_high_water d = Some m \<or>
      (\<exists>bc \<in> set checkpoints. asserted_high_water X console_keys bc = Some m))"
proof -
  obtain p gs where l: "checkpoint_loop X stream_id cert_map revocations console_keys
      \<lparr>cp_data = d, cp_ranges = []\<rparr> checkpoints = (p, gs)" by fastforce
  with assms have "d' = cp_data p" "no_errors gs" by (simp_all add: verify_checkpoints_def)
  with checkpoint_loop_high_water [OF l]
  have "foldl opt_max (d_countersigned_high_water d) (map (asserted_high_water X console_keys) checkpoints) =
      d_countersigned_high_water d'" by simp
  from foldl_opt_max [OF this] show ?thesis unfolding set_map image_iff by metis
qed

theorem high_water_is_greatest_witness:
  "\<exists>bc d' m. verify_checkpoints demo_ext (lit ''5'') demo_data [bc] [(lit ''f'', demo_cert)] None demo_console =
       (d', []) \<and> d_countersigned_high_water d' = Some m \<and> 3 \<le> m"
proof -
  obtain bc d' where c: "verify_checkpoints demo_ext (lit ''5'') demo_data [bc] [(lit ''f'', demo_cert)] None
      demo_console = (d', [])" "asserted_high_water demo_ext demo_console bc = Some 3"
    by (rule demo_checkpoint_pass)
  from high_water_is_greatest [OF c(1)] c show ?thesis by auto
qed

text \<open>
  A countersignature need not be for the checkpoint it comes with. Any countersignature that
  verifies under a console key marks the checkpoint as countersigned and is not reported, whatever
  checkpoint its note names.
\<close>

theorem countersignature_checkpoint_unbound:
  assumes "list_ex (\<lambda>(key_id, k). is_ok (countersignature_verify X cs k)) console_keys"
  shows "\<exists>d'. check_countersignature X stream_id console_keys cp_id (Some cs) d = (d', [], True) \<and>
    cp_id \<in> d_countersigned_checkpoints d'"
  using assms
  by (auto simp: check_countersignature_def note_high_water_def split: option.splits)

theorem countersignature_checkpoint_unbound_witness:
  "\<exists>cs d'. cn_checkpoint_id (cs_note cs) = lit ''other'' \<and>
     check_countersignature demo_ext (lit ''5'') demo_console (lit ''c'') (Some cs) demo_data = (d', [], True) \<and>
     lit ''c'' \<in> d_countersigned_checkpoints d'"
proof -
  obtain cs where cs: "cn_checkpoint_id (cs_note cs) = lit ''other''"
    "countersignature_verify demo_ext cs (verifying_key demo_ext demo_signer) = Inr ()"
    by (rule demo_countersignature)
  then have "list_ex (\<lambda>(key_id, k). is_ok (countersignature_verify demo_ext cs k)) demo_console"
    by (simp add: demo_console_def)
  from countersignature_checkpoint_unbound [OF this] cs show ?thesis by blast
qed

text \<open>
  A checkpoint whose own time cannot be parsed is never taken to be signed after a revocation,
  even if its certificate was revoked from the beginning of time.
\<close>

theorem unreadable_checkpoint_time_escapes_revocation:
  assumes "parse_wall X (n_ts_wall note) = Inl e"
  shows "\<not> signed_after_revocation X revocations note"
  using assms by (simp add: signed_after_revocation_def split: option.splits)

theorem unreadable_checkpoint_time_escapes_revocation_witness:
  "let note = (demo_note (lit ''c'') None)\<lparr>n_ts_wall := lit ''soon''\<rparr>;
       revoked = \<lparr>sr_list = \<lparr>rl_updated_at = [], rl_revocations =
         [\<lparr>re_cert_fingerprint = lit ''f'', re_effective_at = lit ''0'', re_reason = []\<rparr>]\<rparr>,
         sr_console_key_id = [], sr_signature = []\<rparr>
   in is_revoked_at demo_ext revoked (n_recorder_cert_fingerprint note) 0 \<and>
     \<not> signed_after_revocation demo_ext (Some revoked) note"
proof -
  have "\<exists>e. parse_wall demo_ext (lit ''soon'') = Inl e" by (simp add: parse_wall_def demo_eval)
  then show ?thesis
    using unreadable_checkpoint_time_escapes_revocation
      [of demo_ext "(demo_note (lit ''c'') None)\<lparr>n_ts_wall := lit ''soon''\<rparr>"]
    by (auto simp: Let_def demo_note_def is_revoked_at_def parse_wall_def demo_eval)
qed

end
