(* ===== verification/Identity_Check.thy ===== *)
theory Identity_Check
  imports Tsa Checkpoint_Check
begin

text \<open>
  Stage 2 of the engine (\<open>verify/src/engine.rs\<close>): which roots are trusted, which certificates of the
  bundle chain to them, and which console keys they attest. The roots that the build embeds, the
  package version and the clock are fields of \<open>eext\<close>.
\<close>

section \<open>Options\<close>

record VerifyOptions =
  vo_root_pem_override :: "ustr option"
  vo_console_key_override :: "ustr option"
  vo_now_unix :: "int option"
  vo_expected_high_water :: "(ustr \<times> u64) list"

record 'w eext = "'w tsext" +
  x_embedded_roots :: ustr
  x_version :: ustr
  x_now :: int

section \<open>Trusted roots\<close>

definition is_whitespace :: "uchar \<Rightarrow> bool" where
  "is_whitespace c \<longleftrightarrow> (9 \<le> c \<and> c \<le> 13) \<or> c \<in> {32, 0x85, 0xA0, 0x1680, 0x2028, 0x2029, 0x202F, 0x205F, 0x3000} \<or>
     (0x2000 \<le> c \<and> c \<le> 0x200A)"

fun contains_text :: "ustr \<Rightarrow> ustr \<Rightarrow> bool" where
  "contains_text pat [] = (pat = [])"
| "contains_text pat (c # s) = (take (length pat) (c # s) = pat \<or> contains_text pat s)"

definition has_embedded_roots :: "('w, 'x) eext_scheme \<Rightarrow> bool" where
  "has_embedded_roots X \<longleftrightarrow> \<not> list_all is_whitespace (x_embedded_roots X) \<and>
     contains_text (lit ''BEGIN CERTIFICATE'') (x_embedded_roots X)"

definition select_roots ::
  "('w, 'x) eext_scheme \<Rightarrow> VerifyOptions \<Rightarrow> RootsFile option \<Rightarrow> (ustr list \<times> ustr) \<times> Finding list" where
  "select_roots X opts bundle_roots =
     (case vo_root_pem_override opts of
        Some pem \<Rightarrow> (([pem], lit ''root source: --root override''), [])
      | None \<Rightarrow>
          if has_embedded_roots X
          then (([x_embedded_roots X], lit ''root source: embedded release roots''), [])
          else
            (case bundle_roots of
               Some roots \<Rightarrow>
                 if rf_roots roots \<noteq> []
                 then ((map tr_cert_pem (rf_roots roots),
                        lit ''root source: bundle-pinned (see root_bundle_pinned finding)''),
                       [add Warning ''root_bundle_pinned''
                         [T ''no embedded or supplied root; trusting the bundle's own roots.json (a forged bundle could pin its own root '',
                          S [0x2014], T '' pass --root to pin an out-of-band root)'']])
                 else (([], []), [add Error ''no_trust_root''
                   [T ''no trusted root available (bundle has none, none embedded, none supplied)'']])
             | None \<Rightarrow> (([], []), [add Error ''no_trust_root''
                 [T ''no trusted root available (bundle has none, none embedded, none supplied)'']])))"

section \<open>PEM\<close>

definition BASE64_TABLE :: ustr where
  "BASE64_TABLE = lit ''ABCDEFGHIJKLMNOPQRSTUVWXYZabcdefghijklmnopqrstuvwxyz0123456789+/''"

definition sextet :: "nat \<Rightarrow> u32 \<Rightarrow> uchar" where
  "sextet k n = BASE64_TABLE ! unat (drop_bit k n AND 63)"

definition triple :: "byte \<Rightarrow> byte \<Rightarrow> byte \<Rightarrow> u32" where
  "triple a b c = (push_bit 16 (ucast a) OR push_bit 8 (ucast b)) OR ucast c"

fun base64_encode :: "bytes \<Rightarrow> ustr" where
  "base64_encode [] = []"
| "base64_encode [a] = (let n = triple a 0 0 in [sextet 18 n, sextet 12 n, 61, 61])"
| "base64_encode [a, b] = (let n = triple a b 0 in [sextet 18 n, sextet 12 n, sextet 6 n, 61])"
| "base64_encode (a # b # c # rest) =
     (let n = triple a b c in [sextet 18 n, sextet 12 n, sextet 6 n, sextet 0 n] @ base64_encode rest)"

function chunks :: "nat \<Rightarrow> 'a list \<Rightarrow> 'a list list" where
  "chunks k xs = (if xs = [] \<or> k = 0 then [] else take k xs # chunks k (drop k xs))"
  by pat_completeness auto
termination by (relation "measure (\<lambda>(k, xs). length xs)") auto

declare chunks.simps [simp del]

definition der_to_pem :: "bytes \<Rightarrow> ustr" where
  "der_to_pem der = lit ''-----BEGIN CERTIFICATE-----'' @ [10] @
     concat (map (\<lambda>l. l @ [10]) (chunks 64 (base64_encode der))) @
     lit ''-----END CERTIFICATE-----'' @ [10]"

section \<open>Certificates\<close>

fun join_lines :: "ustr list \<Rightarrow> ustr" where
  "join_lines [] = []"
| "join_lines [s] = s"
| "join_lines (s # ss) = s @ 10 # join_lines ss"

definition add_cert ::
  "('w, 'x) eext_scheme \<Rightarrow> ustr list \<Rightarrow> ustr \<Rightarrow> int \<Rightarrow> ustr \<Rightarrow> CertMap \<Rightarrow> CertMap \<times> Finding list" where
  "add_cert X single_pems root_pem now_unix pem cert_map =
     (let intermediates = filter (\<lambda>p. p \<noteq> pem) single_pems in
      case validate_chain X pem intermediates root_pem now_unix of
        Inr validated \<Rightarrow> (hash_insert (vc_fingerprint validated) validated cert_map, [])
      | Inl e \<Rightarrow> (cert_map, [add Warning ''cert_unvalidated''
          (T ''a certificate in identity/certs.pem did not validate: '' # display_error e)]))"

fun add_certs ::
  "('w, 'x) eext_scheme \<Rightarrow> ustr list \<Rightarrow> ustr \<Rightarrow> int \<Rightarrow> ustr list \<Rightarrow> CertMap \<Rightarrow> CertMap \<times> Finding list" where
  "add_certs X single_pems root_pem now_unix [] cert_map = (cert_map, [])"
| "add_certs X single_pems root_pem now_unix (pem # pems) cert_map =
     (let (m1, f1) = add_cert X single_pems root_pem now_unix pem cert_map;
          (m2, f2) = add_certs X single_pems root_pem now_unix pems m1
      in (m2, f1 @ f2))"

definition build_cert_map ::
  "('w, 'x) eext_scheme \<Rightarrow> ustr option \<Rightarrow> ustr list \<Rightarrow> int \<Rightarrow> CertMap \<times> Finding list" where
  "build_cert_map X certs_pem root_pems now_unix =
     (case certs_pem of
        None \<Rightarrow> ([], [add Warning ''identity_missing'' [T ''bundle has no identity/certs.pem'']])
      | Some pem \<Rightarrow>
          if root_pems = [] then ([], [])
          else
            (case parse_pem_chain X pem of
               Inl e \<Rightarrow> ([], [add Error ''identity_unparseable''
                 [T ''identity/certs.pem could not be parsed'']])
             | Inr ders \<Rightarrow>
                 let single_pems = map der_to_pem ders
                 in add_certs X single_pems (join_lines root_pems) now_unix single_pems []))"

section \<open>Console keys\<close>

definition root_keys_of_pem :: "('w, 'x) eext_scheme \<Rightarrow> ustr \<Rightarrow> VerifyingKey list" where
  "root_keys_of_pem X pem =
     (case parse_pem_chain X pem of
        Inl e \<Rightarrow> []
      | Inr ders \<Rightarrow> List.map_filter (\<lambda>der.
          case x_x509_parse X der of
            Inl e \<Rightarrow> None
          | Inr cert \<Rightarrow>
              (case key_from_bytes X (c_subject_public_key cert) of Inl e \<Rightarrow> None | Inr k \<Rightarrow> Some k)) ders)"

definition add_console_key ::
  "('w, 'x) eext_scheme \<Rightarrow> VerifyingKey list \<Rightarrow> AttestedConsoleKey \<Rightarrow> ConsoleKeys \<Rightarrow>
   ConsoleKeys \<times> Finding list" where
  "add_console_key X root_keys entry keys =
     (let statement = ak_statement entry in
      case from_spki_pem X (ck_public_key_pem statement) of
        Inl e \<Rightarrow> (keys, [add Warning ''console_key_unparseable''
          ([T ''console key '', S (ck_key_id statement), T '': ''] @ display_error e)])
      | Inr key \<Rightarrow>
          (case ak_signature entry of
             Some sig \<Rightarrow>
               if list_ex (\<lambda>rk. is_ok (verify_jcs X rk (console_key_statement_json statement) sig
                    [T ''console key statement''])) root_keys
               then (hash_insert (ck_key_id statement) key keys, [])
               else (keys, [add Error ''console_key_attestation_invalid''
                 [T ''console key '', S (ck_key_id statement),
                  T '' statement signature does not verify with any trusted root'']])
           | None \<Rightarrow>
               (hash_insert (ck_key_id statement) key keys,
                [add Warning ''console_key_unattested''
                  [T ''console key '', S (ck_key_id statement),
                   T '' is bundle-pinned without root attestation'']])))"

fun add_console_keys ::
  "('w, 'x) eext_scheme \<Rightarrow> VerifyingKey list \<Rightarrow> AttestedConsoleKey list \<Rightarrow> ConsoleKeys \<Rightarrow>
   ConsoleKeys \<times> Finding list" where
  "add_console_keys X root_keys [] keys = (keys, [])"
| "add_console_keys X root_keys (entry # entries) keys =
     (let (k1, f1) = add_console_key X root_keys entry keys;
          (k2, f2) = add_console_keys X root_keys entries k1
      in (k2, f1 @ f2))"

definition resolve_console_keys ::
  "('w, 'x) eext_scheme \<Rightarrow> VerifyOptions \<Rightarrow> RootsFile option \<Rightarrow> ustr list \<Rightarrow> ConsoleKeys \<times> Finding list" where
  "resolve_console_keys X opts bundle_roots root_pems =
     (case vo_console_key_override opts of
        Some pem \<Rightarrow>
          (case from_spki_pem X pem of
             Inr k \<Rightarrow> ([(lit ''override'', k)], [])
           | Inl e \<Rightarrow> ([], [add Error ''console_key_invalid'' (T ''--console-key: '' # display_error e)]))
      | None \<Rightarrow>
          (case bundle_roots of
             None \<Rightarrow> ([], [])
           | Some roots \<Rightarrow>
               add_console_keys X (concat (map (root_keys_of_pem X) root_pems)) (rf_console_keys roots) []))"

definition check_revocation_list ::
  "('w, 'x) eext_scheme \<Rightarrow> SignedRevocationList option \<Rightarrow> ConsoleKeys \<Rightarrow> Finding list" where
  "check_revocation_list X revocations console_keys =
     (case revocations of
        None \<Rightarrow> []
      | Some l \<Rightarrow>
          if \<not> list_ex (\<lambda>(key_id, k). is_ok (revocation_list_verify X l k)) console_keys \<and> console_keys \<noteq> []
          then [add Error ''revocation_list_signature_invalid''
                 [T ''revocation list signature does not verify with any known console key'']]
          else if console_keys = []
          then [add Warning ''revocation_list_unverifiable''
                 [T ''revocation list present but no console key available to verify it'']]
          else [])"

section \<open>Base64 is decodable\<close>

definition sextet_value :: "uchar \<Rightarrow> nat" where
  "sextet_value c = (if 65 \<le> c \<and> c \<le> 90 then c - 65 else if 97 \<le> c \<and> c \<le> 122 then c - 71
     else if 48 \<le> c \<and> c \<le> 57 then c + 4 else if c = 43 then 62 else 63)"

definition untriple :: "uchar \<Rightarrow> uchar \<Rightarrow> uchar \<Rightarrow> uchar \<Rightarrow> byte \<times> byte \<times> byte" where
  "untriple a b c d =
     (let n = sextet_value a * 2 ^ 18 + sextet_value b * 2 ^ 12 + sextet_value c * 2 ^ 6 + sextet_value d
      in (of_nat (n div 2 ^ 16), of_nat (n div 2 ^ 8 mod 256), of_nat (n mod 256)))"

fun base64_decode :: "ustr \<Rightarrow> bytes" where
  "base64_decode (a # b # c # d # rest) =
     (if c = 61 then [fst (untriple a b 65 65)]
      else if d = 61 then (let (x, y, z) = untriple a b c 65 in [x, y])
      else (let (x, y, z) = untriple a b c d in [x, y, z] @ base64_decode rest))"
| "base64_decode _ = []"

lemma sextet_index: "unat (drop_bit k n AND 63) = unat n div 2 ^ k mod 64" for n :: u32
proof -
  have "drop_bit k n AND 63 = take_bit 6 (drop_bit k n)"
    by (simp add: take_bit_eq_mask mask_eq_exp_minus_1)
  moreover have "unat (take_bit 6 (drop_bit k n)) = take_bit 6 (drop_bit k (unat n))"
    by (simp only: unsigned_take_bit_eq unat_drop_bit_eq)
  ultimately show ?thesis by (simp add: take_bit_eq_mod drop_bit_eq_div)
qed

lemma table_value: "i < 64 \<Longrightarrow> sextet_value (BASE64_TABLE ! i) = i \<and> BASE64_TABLE ! i \<noteq> 61"
proof -
  have "list_all (\<lambda>i. sextet_value (BASE64_TABLE ! i) = i \<and> BASE64_TABLE ! i \<noteq> 61) [0..<64]"
    by (simp add: BASE64_TABLE_def lit_def sextet_value_def upt_rec)
  then show "i < 64 \<Longrightarrow> ?thesis" by (simp add: list_all_iff)
qed

lemma byte_less: "unat (a :: byte) < 256"
proof -
  have "unat a < 2 ^ LENGTH(8)" by (rule unsigned_less)
  then show ?thesis by simp
qed

lemma unat_triple: "unat (triple a b c) = unat a * 2 ^ 16 + unat b * 2 ^ 8 + unat c"
proof -
  let ?A = "push_bit 16 (ucast a) :: u32" and ?B = "push_bit 8 (ucast b) :: u32" and ?C = "ucast c :: u32"
  have "?A AND ?B = 0" "(?A OR ?B) AND ?C = 0"
    by (rule bit_word_eqI; auto simp: bit_simps dest: bit_imp_le_length)+
  then have "triple a b c = ?A + ?B + ?C"
    unfolding triple_def by (simp only: disjunctive_add_eq_or)
  also have "\<dots> = of_nat (unat a * 2 ^ 16 + unat b * 2 ^ 8 + unat c)"
    by (simp add: push_bit_eq_mult)
  finally have t: "triple a b c = of_nat (unat a * 2 ^ 16 + unat b * 2 ^ 8 + unat c)" .
  have "unat a * 2 ^ 16 + unat b * 2 ^ 8 + unat c < 2 ^ LENGTH(32)"
    using byte_less [of a] byte_less [of b] byte_less [of c] by simp
  then have "take_bit LENGTH(32) (unat a * 2 ^ 16 + unat b * 2 ^ 8 + unat c) =
      unat a * 2 ^ 16 + unat b * 2 ^ 8 + unat c" by (rule take_bit_nat_eq_self)
  then show ?thesis unfolding t by (simp only: unsigned_of_nat of_nat_id)
qed

lemma sextet_value_sextet: "sextet_value (sextet k n) = unat n div 2 ^ k mod 64" "sextet k n \<noteq> 61"
  using table_value [of "unat n div 2 ^ k mod 64"] by (simp_all add: sextet_def sextet_index)

lemma sextet_sum:
  assumes "n < 2 ^ 24"
  shows "(n div 2 ^ 18 mod 64) * 2 ^ 18 + (n div 2 ^ 12 mod 64) * 2 ^ 12 + (n div 2 ^ 6 mod 64) * 2 ^ 6 +
    n div 2 ^ 0 mod 64 = (n::nat)"
proof -
  define x y z where "x = n div 64" and "y = x div 64" and "z = y div 64"
  have d: "n div 2 ^ 6 = x" "n div 2 ^ 12 = y" "n div 2 ^ 18 = z"
    by (simp_all add: x_def y_def z_def div_mult2_eq [symmetric])
  have "z < 64" using assms unfolding d(3) [symmetric] by simp
  then have z: "z mod 64 = z" by (rule mod_less)
  have "z * 2 ^ 18 + (y mod 64) * 2 ^ 12 + (x mod 64) * 2 ^ 6 + n mod 64 =
      ((z * 64 + y mod 64) * 64 + x mod 64) * 64 + n mod 64" by simp
  also have "\<dots> = n" by (simp only: x_def y_def z_def div_mult_mod_eq)
  finally show ?thesis unfolding d z by simp
qed

lemma triple_parts:
  fixes x y z :: nat
  assumes "y < 256" "z < 256"
  shows "(x * 2 ^ 16 + y * 2 ^ 8 + z) div 2 ^ 16 = x" "(x * 2 ^ 16 + y * 2 ^ 8 + z) div 2 ^ 8 mod 256 = y"
    "(x * 2 ^ 16 + y * 2 ^ 8 + z) mod 256 = z"
proof -
  have n: "x * 2 ^ 16 + y * 2 ^ 8 + z = (x * 256 + y) * 256 + z" by simp
  from assms have d: "(x * 2 ^ 16 + y * 2 ^ 8 + z) div 256 = x * 256 + y" unfolding n by simp
  with assms show "(x * 2 ^ 16 + y * 2 ^ 8 + z) div 2 ^ 8 mod 256 = y" by simp
  show "(x * 2 ^ 16 + y * 2 ^ 8 + z) mod 256 = z" unfolding n mod_mult_self3 using assms(2) by (rule mod_less)
  have "(x * 2 ^ 16 + y * 2 ^ 8 + z) div 2 ^ 16 = (x * 2 ^ 16 + y * 2 ^ 8 + z) div 256 div 256"
    by (simp add: div_mult2_eq [symmetric])
  with d assms(1) show "(x * 2 ^ 16 + y * 2 ^ 8 + z) div 2 ^ 16 = x" by simp
qed

lemma sextet_value_A: "sextet_value 65 = 0"
  by (simp add: sextet_value_def)

lemma untriple_triple:
  assumes "sextet_value w = sextet_value (sextet 6 (triple a b c))"
    and "sextet_value z = sextet_value (sextet 0 (triple a b c))"
  shows "untriple (sextet 18 (triple a b c)) (sextet 12 (triple a b c)) w z = (a, b, c)"
proof -
  let ?n = "unat a * 2 ^ 16 + unat b * 2 ^ 8 + unat c"
  have "?n < 2 ^ 24" using byte_less [of a] byte_less [of b] byte_less [of c] by simp
  from sextet_sum [OF this] have "untriple (sextet 18 (triple a b c)) (sextet 12 (triple a b c)) w z =
      (of_nat (?n div 2 ^ 16), of_nat (?n div 2 ^ 8 mod 256), of_nat (?n mod 256))"
    by (simp only: untriple_def Let_def assms sextet_value_sextet unat_triple)
  then show ?thesis unfolding triple_parts [OF byte_less byte_less] by simp
qed

lemma base64_decode_encode: "base64_decode (base64_encode bs) = bs"
proof (induction bs rule: base64_encode.induct)
  case (2 a)
  have "untriple (sextet 18 (triple a 0 0)) (sextet 12 (triple a 0 0)) 65 65 = (a, 0, 0)"
    by (rule untriple_triple) (simp_all add: sextet_value_sextet unat_triple sextet_value_A)
  then show ?case by (simp add: Let_def)
next
  case (3 a b)
  have "untriple (sextet 18 (triple a b 0)) (sextet 12 (triple a b 0)) (sextet 6 (triple a b 0)) 65 = (a, b, 0)"
    by (rule untriple_triple) (simp_all add: sextet_value_sextet unat_triple sextet_value_A)
  then show ?case by (simp add: Let_def sextet_value_sextet)
next
  case (4 a b c rest)
  then show ?case by (simp add: Let_def sextet_value_sextet untriple_triple)
qed simp

section \<open>What the identity stage establishes\<close>

lemma add_certs_sound:
  "(fp, vc) \<in> set (fst (add_certs X singles root_pem now pems m)) \<Longrightarrow> (fp, vc) \<in> set m \<or>
   (\<exists>pem \<in> set pems. validate_chain X pem (filter (\<lambda>p. p \<noteq> pem) singles) root_pem now = Inr vc \<and>
      fp = vc_fingerprint vc)"
proof (induction pems arbitrary: m)
  case (Cons pem pems)
  obtain m1 f1 where 1: "add_cert X singles root_pem now pem m = (m1, f1)" by fastforce
  with Cons.prems have "(fp, vc) \<in> set (fst (add_certs X singles root_pem now pems m1))"
    by (simp split: prod.splits)
  from Cons.IH [OF this] 1 show ?case
    by (auto simp: add_cert_def Let_def hash_insert_def split: sum.splits)
qed simp

lemma add_console_keys_sound:
  assumes "add_console_keys X rks entries ks = (ks', fs)" and "compute_result fs = Pass"
    and "(key_id, k) \<in> set ks'"
  shows "(key_id, k) \<in> set ks \<or> (\<exists>entry \<in> set entries. \<exists>sig. \<exists>rk \<in> set rks. ck_key_id (ak_statement entry) = key_id \<and>
    from_spki_pem X (ck_public_key_pem (ak_statement entry)) = Inr k \<and> ak_signature entry = Some sig \<and>
    is_ok (verify_jcs X rk (console_key_statement_json (ak_statement entry)) sig [T ''console key statement'']))"
  using assms
proof (induction entries arbitrary: ks fs)
  case (Cons entry entries)
  obtain k1 f1 f2 where 1: "add_console_key X rks entry ks = (k1, f1)"
    and 2: "add_console_keys X rks entries k1 = (ks', f2)" and fs: "fs = f1 @ f2"
    using Cons.prems(1) by (auto split: prod.splits)
  from Cons.prems(2) fs have p: "compute_result f1 = Pass" "compute_result f2 = Pass"
    by (auto simp: compute_result_def split: if_splits)
  from Cons.IH [OF 2 p(2) Cons.prems(3)] 1 p(1) show ?case
    by (fastforce simp: add_console_key_def Let_def hash_insert_def compute_result_def add_def list_ex_iff
      split: sum.splits option.splits if_splits)
qed simp

section \<open>A concrete engine\<close>

definition with_engine :: "'w tsext \<Rightarrow> 'w eext" where
  "with_engine X = tsext.extend X (eext.fields [] (lit ''0.1.0'') 5)"

lemma with_engine_simps [simp]:
  "x_embedded_roots (with_engine X) = []" "x_now (with_engine X) = 5"
  "x_blake3 (with_engine X) = x_blake3 X" "x_sha256 (with_engine X) = x_sha256 X"
  "x_pem_items (with_engine X) = x_pem_items X" "x_x509_parse (with_engine X) = x_x509_parse X"
  "x_asn1_time (with_engine X) = x_asn1_time X" "x_valid_at (with_engine X) = x_valid_at X"
  "x_verify_cert (with_engine X) = x_verify_cert X" "x_ed_key (with_engine X) = x_ed_key X"
  "x_ed_verify (with_engine X) = x_ed_verify X" "x_spki_decode (with_engine X) = x_spki_decode X"
  by (simp_all add: with_engine_def ext.defs cext.defs vext.defs bext.defs tsext.defs eext.defs)

definition demo_engine :: "(bytes \<Rightarrow> ustr + json) \<Rightarrow> Manifest \<Rightarrow> RecordIndex \<Rightarrow> (ustr \<times> bytes) list eext" where
  "demo_engine parse m ix = with_engine (with_tokens (demo_bundle parse m ix))"

lemma demo_engine_simps [simp]:
  "x_blake3 (demo_engine parse m ix) = demo_digest 257"
  "x_sha256 (demo_engine parse m ix) = demo_digest 263"
  "x_ulid_parse (demo_engine parse m ix) = x_ulid_parse demo_ext"
  "x_ulid_str (demo_engine parse m ix) = x_ulid_str demo_ext"
  "x_rfc3339 (demo_engine parse m ix) = x_rfc3339 demo_ext"
  "x_ed_public (demo_engine parse m ix) = id"
  "x_ed_sign (demo_engine parse m ix) = demo_sign"
  "x_ed_verify (demo_engine parse m ix) = (\<lambda>pk m s. s = demo_sign pk m)"
  "x_ed_key (demo_engine parse m ix) = Inr"
  "x_spki_decode (demo_engine parse m ix) = demo_hex"
  "x_pem_items (demo_engine parse m ix) = demo_pem"
  "x_x509_parse (demo_engine parse m ix) = demo_x509"
  "x_json_parse (demo_engine parse m ix) = parse"
  "x_zstd_decode (demo_engine parse m ix) = (\<lambda>file. Inr (zf_data file, zf_error file))"
  "x_parse_index (demo_engine parse m ix) = (\<lambda>b. Inr ix)"
  "x_parse_checkpoints (demo_engine parse m ix) = (\<lambda>b. Inl [])"
  "x_embedded_roots (demo_engine parse m ix) = []"
  by (simp_all add: demo_engine_def with_engine_def with_tokens_def demo_bundle_def with_parser_def with_certs_def
    ext.defs cext.defs vext.defs bext.defs tsext.defs eext.defs demo_ext_def)

section \<open>Properties\<close>

text \<open>
  C23: The identities that the checkpoint stage consults are validated ones, under their own
  fingerprints. If the certificate map has an entry for a fingerprint, a certificate of the bundle
  validated against the trusted roots at the time of verification, through the other certificates
  of the bundle, with this result; and the fingerprint is the BLAKE3 hash of that certificate.
\<close>

theorem validated_identities:
  assumes "build_cert_map X (Some pem) root_pems now_unix = (cert_map, fs)"
    and "map_of cert_map fp = Some vc" and "parse_pem_chain X pem = Inr ders"
    and "\<forall>der \<in> set ders. x_pem_items X (str_bytes (der_to_pem der)) = [Inr (lit ''CERTIFICATE'', der)]"
  shows "\<exists>der \<in> set ders. fp = blake3_hex X der \<and> vc_fingerprint vc = fp \<and>
    validate_chain X (der_to_pem der) (filter (\<lambda>p. p \<noteq> der_to_pem der) (map der_to_pem ders))
      (join_lines root_pems) now_unix = Inr vc"
proof -
  from assms(1-3) have r: "root_pems \<noteq> []"
    by (auto simp: build_cert_map_def split: if_splits)
  with assms(1,3) have "cert_map = fst (add_certs X (map der_to_pem ders) (join_lines root_pems) now_unix
      (map der_to_pem ders) [])" by (simp add: build_cert_map_def Let_def)
  with map_of_SomeD [OF assms(2)] have "(fp, vc) \<in> set (fst (add_certs X (map der_to_pem ders)
      (join_lines root_pems) now_unix (map der_to_pem ders) []))" by simp
  from add_certs_sound [OF this] obtain der where der: "der \<in> set ders" "fp = vc_fingerprint vc"
    and v: "validate_chain X (der_to_pem der) (filter (\<lambda>p. p \<noteq> der_to_pem der) (map der_to_pem ders))
      (join_lines root_pems) now_unix = Inr vc"
    by auto
  from assms(4) der(1) have "parse_pem_chain X (der_to_pem der) = Inr [der]"
    by (simp add: parse_pem_chain_def)
  with v have "vc_fingerprint vc = blake3_hex X der" by (simp add: validate_chain_fingerprint)
  with der v show ?thesis by auto
qed

theorem validated_identities_witness:
  "\<exists>(X :: (ustr \<times> bytes) list eext) cert_map fs fp vc.
     build_cert_map X (Some [3, 1, 0, 0, 9]) [[1, 1, 1, 0, 9]] 5 = (cert_map, fs) \<and>
     map_of cert_map fp = Some vc \<and> fp = blake3_hex X [3, 1, 0, 0, 9] \<and> vc_fingerprint vc = fp"
proof -
  let ?d = "[3, 1, 0, 0, 9] :: bytes" and ?E = "demo_engine (\<lambda>b. Inl []) (demo_manifest []) \<lparr>ri_streams = []\<rparr>"
  let ?X = "?E\<lparr>x_pem_items := (\<lambda>b. if b = str_bytes (der_to_pem ?d) then [Inr (lit ''CERTIFICATE'', ?d)]
    else demo_pem b)\<rparr>"
  obtain r where r: "str_bytes (der_to_pem ?d) = 45 # r"
    by (simp add: der_to_pem_def lit_def str_bytes_Cons utf8_char_def)
  have p: "parse_pem_chain ?X [3, 1, 0, 0, 9] = Inr [?d]" "parse_pem_chain ?X [1, 1, 1, 0, 9] = Inr [[1, 1, 1, 0, 9]]"
    "parse_pem_chain ?X (der_to_pem ?d) = Inr [?d]"
    by (simp_all add: parse_pem_chain_def r) (simp_all add: str_bytes_def utf8_char_def)
  have v: "\<exists>vc. validate_chain ?X (der_to_pem ?d) [] [1, 1, 1, 0, 9] 5 = Inr vc"
    unfolding validate_chain_def p
    by (simp add: parse_der_def check_validity_def walk.simps verify_signed_by_def is_ca_def
      extract_ed25519_key_def key_from_bytes_def with_engine_def demo_engine_def with_tokens_def demo_bundle_def
      with_parser_def with_certs_def ext.defs cext.defs vext.defs bext.defs tsext.defs eext.defs demo_ext_def)
  then obtain vc where vc: "validate_chain ?X (der_to_pem ?d) [] [1, 1, 1, 0, 9] 5 = Inr vc" ..
  then have b: "build_cert_map ?X (Some [3, 1, 0, 0, 9]) [[1, 1, 1, 0, 9]] 5 = ([(vc_fingerprint vc, vc)], [])"
    by (simp add: build_cert_map_def p add_cert_def hash_insert_def del: One_nat_def)
  have m: "map_of [(vc_fingerprint vc, vc)] (vc_fingerprint vc) = Some vc" by simp
  have l: "\<forall>der \<in> set [?d]. x_pem_items ?X (str_bytes (der_to_pem der)) = [Inr (lit ''CERTIFICATE'', der)]" by simp
  from validated_identities [OF b m p(1) l] have "vc_fingerprint vc = blake3_hex ?X ?d" by simp
  with b m show ?thesis by blast
qed

text \<open>
  C24: No console key is trusted silently. If the resolution of the console keys produces no warning
  and no error, and no key was given on the command line, every key it returns comes from a
  statement of the bundle that is signed by the key of a trusted root.
\<close>

theorem console_keys_attested:
  assumes "vo_console_key_override opts = None"
    and "resolve_console_keys X opts (Some roots) root_pems = (keys, fs)" and "compute_result fs = Pass"
    and "(key_id, k) \<in> set keys"
  shows "\<exists>entry \<in> set (rf_console_keys roots). \<exists>sig pem rk. ck_key_id (ak_statement entry) = key_id \<and>
    from_spki_pem X (ck_public_key_pem (ak_statement entry)) = Inr k \<and> ak_signature entry = Some sig \<and>
    pem \<in> set root_pems \<and> rk \<in> set (root_keys_of_pem X pem) \<and>
    verify_jcs X rk (console_key_statement_json (ak_statement entry)) sig [T ''console key statement''] = Inr ()"
proof -
  from assms(1,2) have "add_console_keys X (concat (map (root_keys_of_pem X) root_pems)) (rf_console_keys roots) [] =
      (keys, fs)" by (simp add: resolve_console_keys_def)
  from add_console_keys_sound [OF this assms(3,4)] show ?thesis by (auto simp: is_ok_iff)
qed

theorem console_keys_attested_witness:
  "\<exists>(X :: (ustr \<times> bytes) list eext) opts roots keys fs sig rk (entry :: AttestedConsoleKey). vo_console_key_override opts = None \<and>
     resolve_console_keys X opts (Some roots) [[1, 1, 1, 0, 9]] = (keys, fs) \<and> compute_result fs = Pass \<and>
     map fst keys = [lit ''k''] \<and> ak_signature entry = Some sig \<and>
     verify_jcs X rk (console_key_statement_json (ak_statement entry)) sig [T ''console key statement''] = Inr ()"
proof -
  let ?X = "demo_engine (\<lambda>b. Inl []) (demo_manifest []) \<lparr>ri_streams = []\<rparr>"
  let ?s = "\<lparr>ck_key_id = lit ''k'', ck_public_key_pem = hex_encode [9], ck_not_before = [], ck_not_after = []\<rparr>"
  let ?root = "\<lparr>sk_inner = replicate 32 1\<rparr>"
  have law: "ed25519_law ?X" using demo_ed25519_law by (simp add: ed25519_law_def)
  have "is_ok (to_jcs_bytes (console_key_statement_json ?s))"
    by (simp add: to_jcs_bytes_ok console_key_statement_json_def)
  then obtain sig where "sign_jcs ?X ?root (console_key_statement_json ?s) = Inr sig"
    by (auto simp: sign_jcs_def is_ok_iff)
  from verify_sign_jcs [OF law this]
  have v: "verify_jcs ?X \<lparr>vk_inner = replicate 32 1\<rparr> (console_key_statement_json ?s) sig c = Inr ()" for c
    by (simp add: verifying_key_def)
  let ?e = "\<lparr>ak_statement = ?s, ak_signature = Some sig, ak_root_name = None\<rparr>"
  let ?roots = "\<lparr>rf_roots = [], rf_console_keys = [?e]\<rparr>"
  let ?opts = "\<lparr>vo_root_pem_override = None, vo_console_key_override = None, vo_now_unix = None,
    vo_expected_high_water = []\<rparr>"
  have k: "root_keys_of_pem ?X [1, 1, 1, 0, 9] = [\<lparr>vk_inner = replicate 32 1\<rparr>]"
    by (simp add: root_keys_of_pem_def parse_pem_chain_def str_bytes_def utf8_char_def key_from_bytes_def
      List.map_filter_def)
  have "from_spki_pem ?X (hex_encode [9]) = Inr \<lparr>vk_inner = [9]\<rparr>"
    by (simp add: from_spki_pem_def demo_hex_def del: hex_encode_simps)
  then have r: "resolve_console_keys ?X ?opts (Some ?roots) [[1, 1, 1, 0, 9]] = ([(lit ''k'', \<lparr>vk_inner = [9]\<rparr>)], [])"
    using v by (simp add: resolve_console_keys_def k add_console_key_def hash_insert_def Let_def
      del: One_nat_def hex_encode_simps)
  have o: "vo_console_key_override ?opts = None" by simp
  have c: "compute_result [] = Pass" by (simp add: compute_result_def)
  have m: "map fst [(lit ''k'', \<lparr>vk_inner = [9] :: bytes\<rparr>)] = [lit ''k'']" by simp
  from console_keys_attested [OF o r c, of "lit ''k''" "\<lparr>vk_inner = [9]\<rparr>"]
  obtain sg rk and entry :: AttestedConsoleKey where e: "ak_signature entry = Some sg" "verify_jcs ?X rk
      (console_key_statement_json (ak_statement entry)) sg [T ''console key statement''] = Inr ()" by fastforce
  show ?thesis by (intro exI conjI) (rule o r c m e)+
qed

text \<open>
  The base64 text of a certificate stands for its bytes: decoding what \<open>base64_encode\<close> writes,
  group by group with padding, gives the bytes back, for every length.
\<close>

theorem base64_roundtrip:
  "base64_decode (base64_encode data) = data"
  by (rule base64_decode_encode)

end
