(* ===== verification/Anchor_Check.thy ===== *)
theory Anchor_Check
  imports Identity_Check
begin

text \<open>
  Stage 6 of the engine (\<open>verify_anchors\<close> of \<open>verify/src/engine.rs\<close>): anchor batches and daily roots.
  The state is the table of streams, in the order of their identifiers, and the earliest time seen.
  Strings compare by their bytes, which for valid text is the order of their characters.
\<close>

section \<open>Batches\<close>

type_synonym Streams = "(ustr \<times> StreamData) list"

definition earlier :: "ustr \<Rightarrow> ustr option \<Rightarrow> ustr option" where
  "earlier t earliest =
     (if (case earliest of None \<Rightarrow> True | Some e \<Rightarrow> t < e) then Some t else earliest)"

text \<open>The first stream that knows a checkpoint, with the digest of its note.\<close>

fun find_checkpoint :: "ustr \<Rightarrow> Streams \<Rightarrow> (ustr \<times> bytes) option" where
  "find_checkpoint cp_id [] = None"
| "find_checkpoint cp_id ((stream_id, d) # streams) =
     (case map_of (d_checkpoint_digests d) cp_id of
        Some digest \<Rightarrow> Some (stream_id, digest)
      | None \<Rightarrow> find_checkpoint cp_id streams)"

definition check_inclusion ::
  "('w, 'x) eext_scheme \<Rightarrow> Streams \<Rightarrow> AnchorBatch \<Rightarrow> CheckpointInclusion \<Rightarrow> (ustr \<times> ustr) list \<times> Finding list" where
  "check_inclusion X streams batch inc =
     (case verify_stored_inclusion X inc (ab_root_blake3 batch) of
        Inl e \<Rightarrow>
          ([], [add Error ''anchor_inclusion_invalid''
            ([T ''batch '', S (ab_batch_id batch), T '': checkpoint '', S (ci_checkpoint_id inc), T '': '']
             @ display_error e)])
      | Inr u \<Rightarrow>
          (case find_checkpoint (ci_checkpoint_id inc) streams of
             Some (stream_id, digest) \<Rightarrow>
               let leaf = (case hex_decode_digest ''inclusion.leaf'' (ci_leaf inc) of
                             Inr l \<Rightarrow> l | Inl e \<Rightarrow> replicate 32 0) in
               if leaf = digest then ([(stream_id, ci_checkpoint_id inc)], [])
               else ([], [add Error ''anchor_leaf_mismatch''
                 [T ''batch '', S (ab_batch_id batch), T '': leaf for checkpoint '', S (ci_checkpoint_id inc),
                  T '' does not match the checkpoint note digest'']])
           | None \<Rightarrow>
               ([], [add Info ''anchor_checkpoint_not_in_export''
                 [T ''batch '', S (ab_batch_id batch), T '': anchored checkpoint '', S (ci_checkpoint_id inc),
                  T '' is not part of this export''] ])))"

definition check_inclusions ::
  "('w, 'x) eext_scheme \<Rightarrow> Streams \<Rightarrow> AnchorBatch \<Rightarrow> (ustr \<times> ustr) list \<times> Finding list" where
  "check_inclusions X streams batch =
     (let rs = map (check_inclusion X streams batch) (ab_checkpoints batch)
      in (concat (map fst rs), concat (map snd rs)))"

definition anchor_data :: "ustr \<Rightarrow> StreamData \<Rightarrow> StreamData" where
  "anchor_data cp_id d =
     (case map_of (d_valid_checkpoint_ranges d) cp_id of
        Some (from, to) \<Rightarrow>
          d\<lparr>d_anchored_seqs := d_anchored_seqs d \<union> {s \<in> set (seq_range from to). s \<in> d_attested_seqs d}\<rparr>
      | None \<Rightarrow> d)"

definition mark_anchored :: "ustr \<times> ustr \<Rightarrow> Streams \<Rightarrow> Streams" where
  "mark_anchored a streams =
     map (\<lambda>(stream_id, d). (stream_id, if stream_id = fst a then anchor_data (snd a) d else d)) streams"

definition check_token ::
  "('w, 'x) eext_scheme \<Rightarrow> BundleReader \<Rightarrow> AnchorBatch \<Rightarrow> ustr \<Rightarrow> bytes \<Rightarrow> (ustr \<times> ustr) list \<Rightarrow>
   Streams \<times> ustr option \<Rightarrow> (Streams \<times> ustr option) \<times> Finding list" where
  "check_token X r batch file sha anchored st =
     (case entry_bytes r file of
        Inl e \<Rightarrow> (st, [add Error ''anchor_token_missing''
          ([T ''batch '', S (ab_batch_id batch), T '': ''] @ display_bundle_error X e)])
      | Inr bytes \<Rightarrow>
          (case verify_token X bytes sha of
             Inl e \<Rightarrow> (st, [add Error ''anchor_invalid''
               ([T ''batch '', S (ab_batch_id batch), T '': token verification failed: ''] @ display_tsa_error e)])
           | Inr token \<Rightarrow>
               ((fold mark_anchored anchored (fst st), earlier (vt_gen_time token) (snd st)),
                [add Info ''anchor_verified''
                  [T ''batch '', S (ab_batch_id batch), T '' anchored at '', S (vt_gen_time token), T '' by '',
                   S (vt_signer_subject token), T '' ('',
                   T (if ab_qualified batch then ''recorded as qualified'' else ''not qualified''), T '')'']])))"

definition verify_batch ::
  "('w, 'x) eext_scheme \<Rightarrow> BundleReader \<Rightarrow> AnchorBatch \<Rightarrow> Streams \<times> ustr option \<Rightarrow>
   (Streams \<times> ustr option) \<times> Finding list" where
  "verify_batch X r batch st =
     (case hex_decode_digest ''root_blake3'' (ab_root_blake3 batch) of
        Inl e \<Rightarrow> (st, [add Error ''anchor_invalid'' [T ''batch '', S (ab_batch_id batch), T '': bad root_blake3'']])
      | Inr root_raw \<Rightarrow>
          if sha256_hex X root_raw \<noteq> ab_root_sha256 batch
          then (st, [add Error ''anchor_digest_binding_broken''
            [T ''batch '', S (ab_batch_id batch), T '': root_sha256 does not equal SHA-256(root_blake3)'']])
          else
            let (anchored, f1) = check_inclusions X (fst st) batch in
            (case ab_tsr_file batch of
               None \<Rightarrow> (st, f1 @ [add Warning ''anchor_pending''
                 [T ''batch '', S (ab_batch_id batch), T '' has no timestamp token yet'']])
             | Some file \<Rightarrow>
                 (case hex_decode ''root_sha256'' (ab_root_sha256 batch) of
                    Inl e \<Rightarrow> (st, f1)
                  | Inr sha \<Rightarrow>
                      if length sha \<noteq> 32 then (st, f1)
                      else let (st1, f2) = check_token X r batch file sha anchored st in (st1, f1 @ f2))))"

section \<open>Daily roots\<close>

definition check_qts ::
  "('w, 'x) eext_scheme \<Rightarrow> BundleReader \<Rightarrow> DailyRoot \<Rightarrow> ustr option \<Rightarrow> ustr option \<times> Finding list" where
  "check_qts X r day earliest =
     (case dr_qts_file day of
        None \<Rightarrow> (earliest, [])
      | Some qts \<Rightarrow>
          (case hex_decode_digest ''daily.root_blake3'' (dr_root_blake3 day) of
             Inl e \<Rightarrow> (earliest, [])
           | Inr root_raw \<Rightarrow>
               (case entry_bytes r qts of
                  Inl e \<Rightarrow> (earliest, [add Error ''qts_token_missing''
                    ([T ''day '', S (dr_day day), T '': ''] @ display_bundle_error X e)])
                | Inr bytes \<Rightarrow>
                    (case verify_token X bytes (sha256_raw X root_raw) of
                       Inl e \<Rightarrow> (earliest, [add Error ''qts_invalid''
                         ([T ''day '', S (dr_day day), T '': qualified timestamp verification failed: '']
                          @ display_tsa_error e)])
                     | Inr token \<Rightarrow>
                         (earlier (vt_gen_time token) earliest,
                          [add Info ''qts_verified''
                            [T ''day '', S (dr_day day), T '' qualified timestamp at '', S (vt_gen_time token),
                             T '' by '', S (vt_signer_subject token)]])))))"

definition check_daily_signature ::
  "('w, 'x) eext_scheme \<Rightarrow> ConsoleKeys \<Rightarrow> DailyRoot \<Rightarrow> Finding list" where
  "check_daily_signature X console_keys day =
     (case (dr_signature day, dr_console_key_id day) of
        (Some sig, Some key_id) \<Rightarrow>
          let unsigned_day = day\<lparr>dr_signature := None\<rparr>;
              ok = list_ex (\<lambda>(i, k). is_ok (verify_jcs X k (daily_root_json unsigned_day) sig [T ''daily root'']))
                     console_keys
          in if \<not> ok \<and> console_keys \<noteq> []
             then [add Error ''daily_root_signature_invalid''
                    [T ''day '', S (dr_day day), T '': signature does not verify'']]
             else []
      | _ \<Rightarrow> [])"

definition verify_day ::
  "('w, 'x) eext_scheme \<Rightarrow> BundleReader \<Rightarrow> ConsoleKeys \<Rightarrow> DailyRoot \<Rightarrow> ustr option \<Rightarrow>
   ustr option \<times> Finding list" where
  "verify_day X r console_keys day earliest =
     (case collect_res (map (hex_decode_digest ''batch_root'') (dr_batch_roots day)) of
        Inl e \<Rightarrow> (earliest, [add Error ''daily_root_invalid'' [T ''day '', S (dr_day day), T '': bad batch root hex'']])
      | Inr leaves \<Rightarrow>
          if hex_encode (merkle_root X leaves) \<noteq> dr_root_blake3 day
          then (earliest, [add Error ''daily_root_mismatch''
            [T ''day '', S (dr_day day), T '': recomputed daily root does not match'']])
          else
            let f1 = check_daily_signature X console_keys day;
                (e1, f2) = check_qts X r day earliest
            in (e1, f1 @ f2))"

section \<open>The stage\<close>

fun verify_batches ::
  "('w, 'x) eext_scheme \<Rightarrow> BundleReader \<Rightarrow> AnchorBatch list \<Rightarrow> Streams \<times> ustr option \<Rightarrow>
   (Streams \<times> ustr option) \<times> Finding list" where
  "verify_batches X r [] st = (st, [])"
| "verify_batches X r (batch # batches) st =
     (let (st1, f1) = verify_batch X r batch st; (st2, f2) = verify_batches X r batches st1 in (st2, f1 @ f2))"

fun verify_days ::
  "('w, 'x) eext_scheme \<Rightarrow> BundleReader \<Rightarrow> ConsoleKeys \<Rightarrow> DailyRoot list \<Rightarrow> ustr option \<Rightarrow>
   ustr option \<times> Finding list" where
  "verify_days X r console_keys [] earliest = (earliest, [])"
| "verify_days X r console_keys (day # days) earliest =
     (let (e1, f1) = verify_day X r console_keys day earliest;
          (e2, f2) = verify_days X r console_keys days e1
      in (e2, f1 @ f2))"

definition verify_anchors ::
  "('w, 'x) eext_scheme \<Rightarrow> BundleReader \<Rightarrow> AnchorProofs \<Rightarrow> Streams \<Rightarrow> ConsoleKeys \<Rightarrow>
   (Streams \<times> ustr option) \<times> Finding list" where
  "verify_anchors X r proofs streams console_keys =
     (let ((streams1, e1), f1) = verify_batches X r (ap_batches proofs) (streams, None);
          (e2, f2) = verify_days X r console_keys (ap_daily proofs) e1
      in ((streams1, e2), f1 @ f2))"

section \<open>How anchoring changes the streams\<close>

text \<open>
  \<open>grows P\<close>: the streams stay in place and only their anchored numbers grow, by attested ones for
  which \<open>P\<close> holds. \<open>P\<close> must not look at the anchored numbers.
\<close>

definition grown :: "(ustr \<Rightarrow> StreamData \<Rightarrow> u64 \<Rightarrow> bool) \<Rightarrow> ustr \<times> StreamData \<Rightarrow> ustr \<times> StreamData \<Rightarrow> bool" where
  "grown P a b \<longleftrightarrow> fst b = fst a \<and> (\<exists>A. snd b = (snd a)\<lparr>d_anchored_seqs := A\<rparr> \<and> d_anchored_seqs (snd a) \<subseteq> A \<and>
     (\<forall>s \<in> A. s \<in> d_anchored_seqs (snd a) \<or> s \<in> d_attested_seqs (snd a) \<and> P (fst a) (snd a) s))"

abbreviation grows :: "(ustr \<Rightarrow> StreamData \<Rightarrow> u64 \<Rightarrow> bool) \<Rightarrow> Streams \<Rightarrow> Streams \<Rightarrow> bool" where
  "grows P \<equiv> list_all2 (grown P)"

definition stable :: "(ustr \<Rightarrow> StreamData \<Rightarrow> u64 \<Rightarrow> bool) \<Rightarrow> bool" where
  "stable P \<longleftrightarrow> (\<forall>i d A s. P i (d\<lparr>d_anchored_seqs := A\<rparr>) s = P i d s)"

lemma grown_refl: "grown P a a"
  by (auto simp: grown_def intro!: exI [of _ "d_anchored_seqs (snd a)"])

lemma grows_refl: "grows P st st"
  by (rule list_all2_refl) (rule grown_refl)

lemma grown_mono: "grown P a b \<Longrightarrow> (\<And>i d s. P i d s \<Longrightarrow> Q i d s) \<Longrightarrow> grown Q a b"
  unfolding grown_def by blast

lemma grows_mono: "grows P st st' \<Longrightarrow> (\<And>i d s. P i d s \<Longrightarrow> Q i d s) \<Longrightarrow> grows Q st st'"
  by (erule list_all2_mono) (erule grown_mono, blast)

lemma grown_trans:
  assumes "stable P" and "grown P a b" and "grown P b c"
  shows "grown P a c"
proof -
  from assms(2) obtain A where b: "fst b = fst a" "snd b = (snd a)\<lparr>d_anchored_seqs := A\<rparr>"
    "d_anchored_seqs (snd a) \<subseteq> A"
    "\<forall>s \<in> A. s \<in> d_anchored_seqs (snd a) \<or> s \<in> d_attested_seqs (snd a) \<and> P (fst a) (snd a) s"
    by (auto simp: grown_def)
  from assms(3) obtain B where c: "fst c = fst b" "snd c = (snd b)\<lparr>d_anchored_seqs := B\<rparr>"
    "d_anchored_seqs (snd b) \<subseteq> B"
    "\<forall>s \<in> B. s \<in> d_anchored_seqs (snd b) \<or> s \<in> d_attested_seqs (snd b) \<and> P (fst b) (snd b) s"
    by (auto simp: grown_def)
  have "P (fst b) (snd b) s = P (fst a) (snd a) s" for s using assms(1) b(1,2) by (simp add: stable_def)
  with b c show ?thesis unfolding grown_def by (intro conjI exI [of _ B]) auto
qed

lemma grows_trans: "stable P \<Longrightarrow> grows P st1 st2 \<Longrightarrow> grows P st2 st3 \<Longrightarrow> grows P st1 st3"
  by (rule list_all2_trans [of "grown P" "grown P"]) (auto intro: grown_trans)

lemma grows_keys: "grows P st st' \<Longrightarrow> map fst st' = map fst st"
  by (induction st st' rule: list_all2_induct) (auto simp: grown_def)

lemma grows_member:
  "grows P st st' \<Longrightarrow> (i, d') \<in> set st' \<Longrightarrow> \<exists>d. (i, d) \<in> set st \<and> grown P (i, d) (i, d')"
proof (induction st st' rule: list_all2_induct)
  case (Cons a st b st')
  show ?case
  proof (cases "b = (i, d')")
    case True
    with Cons.hyps(1) have "a = (i, snd a)" by (cases a) (simp add: grown_def)
    with Cons.hyps(1) True show ?thesis by (metis list.set_intros(1))
  next
    case False
    with Cons show ?thesis by auto
  qed
qed simp

definition in_range_of :: "ustr \<Rightarrow> StreamData \<Rightarrow> u64 \<Rightarrow> bool" where
  "in_range_of cp_id d s \<longleftrightarrow> (\<exists>lo hi. map_of (d_valid_checkpoint_ranges d) cp_id = Some (lo, hi) \<and>
     lo \<le> s \<and> s \<le> hi)"

lemma mark_anchored_grows: "grows (\<lambda>i d s. (i, snd a) = a \<and> in_range_of (snd a) d s) st (mark_anchored a st)"
proof -
  have "grown (\<lambda>i d s. (i, snd a) = a \<and> in_range_of (snd a) d s) (i, d)
      (i, if i = fst a then anchor_data (snd a) d else d)" for i d
  proof (cases "i = fst a \<and> map_of (d_valid_checkpoint_ranges d) (snd a) \<noteq> None")
    case True
    then obtain lo hi where "map_of (d_valid_checkpoint_ranges d) (snd a) = Some (lo, hi)" by auto
    with True show ?thesis
      by (auto simp: grown_def anchor_data_def in_range_of_def set_seq_range
        intro!: exI [of _ "d_anchored_seqs d \<union> {s \<in> {lo..hi}. s \<in> d_attested_seqs d}"])
  next
    case False
    then have "(if i = fst a then anchor_data (snd a) d else d) = d"
      by (auto simp: anchor_data_def split: option.splits)
    then show ?thesis by (simp add: grown_refl)
  qed
  then show ?thesis
    by (induction st) (auto simp: mark_anchored_def)
qed

lemma fold_mark_grows:
  "grows (\<lambda>i d s. \<exists>cp_id. (i, cp_id) \<in> set as \<and> in_range_of cp_id d s) st (fold mark_anchored as st)"
proof (induction "as" arbitrary: st)
  case (Cons a as)
  let ?P = "\<lambda>i d s. \<exists>cp_id. (i, cp_id) \<in> set (a # as) \<and> in_range_of cp_id d s"
  have "grows ?P st (mark_anchored a st)"
    by (rule grows_mono [OF mark_anchored_grows]) (metis list.set_intros(1))
  moreover have "grows ?P (mark_anchored a st) (fold mark_anchored as (mark_anchored a st))"
    by (rule grows_mono [OF Cons]) auto
  moreover have "stable ?P" by (simp add: stable_def in_range_of_def)
  ultimately show ?case by (simp add: grows_trans)
qed (simp add: grows_refl)

section \<open>Evidence of an anchor\<close>

definition timestamped :: "('w, 'x) eext_scheme \<Rightarrow> BundleReader \<Rightarrow> AnchorBatch \<Rightarrow> bool" where
  "timestamped X r batch \<longleftrightarrow> (\<exists>root_raw file bytes vt.
     hex_decode_digest ''root_blake3'' (ab_root_blake3 batch) = Inr root_raw \<and>
     ab_root_sha256 batch = sha256_hex X root_raw \<and> ab_tsr_file batch = Some file \<and>
     entry_bytes r file = Inr bytes \<and> verify_token X bytes (x_sha256 X root_raw) = Inr vt)"

definition anchors_checkpoint ::
  "('w, 'x) eext_scheme \<Rightarrow> BundleReader \<Rightarrow> AnchorBatch \<Rightarrow> StreamData \<Rightarrow> ustr \<Rightarrow> bool" where
  "anchors_checkpoint X r batch d cp_id \<longleftrightarrow> timestamped X r batch \<and> (\<exists>inc \<in> set (ab_checkpoints batch). \<exists>digest.
     ci_checkpoint_id inc = cp_id \<and> verify_stored_inclusion X inc (ab_root_blake3 batch) = Inr () \<and>
     hex_decode_digest ''inclusion.leaf'' (ci_leaf inc) = Inr digest \<and>
     map_of (d_checkpoint_digests d) cp_id = Some digest)"

definition anchor_evidence ::
  "('w, 'x) eext_scheme \<Rightarrow> BundleReader \<Rightarrow> AnchorBatch list \<Rightarrow> ustr \<Rightarrow> StreamData \<Rightarrow> u64 \<Rightarrow> bool" where
  "anchor_evidence X r batches i d s \<longleftrightarrow> (\<exists>batch \<in> set batches. \<exists>cp_id.
     anchors_checkpoint X r batch d cp_id \<and> in_range_of cp_id d s)"

lemma stable_anchor_evidence: "stable (anchor_evidence X r batches)"
  by (simp add: stable_def anchor_evidence_def anchors_checkpoint_def in_range_of_def)

lemma find_checkpoint_Some:
  "find_checkpoint cp_id st = Some (i, digest) \<Longrightarrow>
   \<exists>d. (i, d) \<in> set st \<and> map_of (d_checkpoint_digests d) cp_id = Some digest"
  by (induction st) (auto split: option.splits)

lemma check_inclusion_sound:
  assumes "(i, cp_id) \<in> set (fst (check_inclusion X st batch inc))"
  shows "ci_checkpoint_id inc = cp_id \<and> verify_stored_inclusion X inc (ab_root_blake3 batch) = Inr () \<and>
    (\<exists>d digest. (i, d) \<in> set st \<and> hex_decode_digest ''inclusion.leaf'' (ci_leaf inc) = Inr digest \<and>
       map_of (d_checkpoint_digests d) cp_id = Some digest)"
proof -
  from assms obtain digest where v: "verify_stored_inclusion X inc (ab_root_blake3 batch) = Inr ()"
    "find_checkpoint (ci_checkpoint_id inc) st = Some (i, digest)" "cp_id = ci_checkpoint_id inc"
    "(case hex_decode_digest ''inclusion.leaf'' (ci_leaf inc) of Inr l \<Rightarrow> l | Inl e \<Rightarrow> replicate 32 0) = digest"
    by (auto simp: check_inclusion_def Let_def split: sum.splits option.splits if_splits)
  then have "hex_decode_digest ''inclusion.leaf'' (ci_leaf inc) = Inr digest"
    by (auto simp: verify_stored_inclusion_def rbind_eq_Inr)
  with v find_checkpoint_Some [OF v(2)] show ?thesis by auto
qed

lemma verify_batch_grows:
  assumes "distinct (map fst streams)" and "verify_batch X r batch (streams, e) = ((streams', e'), fs)"
  shows "grows (anchor_evidence X r [batch]) streams streams'"
proof (cases "streams' = streams")
  case False
  with assms(2) obtain root_raw anchored tsr sha bytes token f1 where
    b: "hex_decode_digest ''root_blake3'' (ab_root_blake3 batch) = Inr root_raw"
      "sha256_hex X root_raw = ab_root_sha256 batch" "check_inclusions X streams batch = (anchored, f1)"
      "ab_tsr_file batch = Some tsr" "hex_decode ''root_sha256'' (ab_root_sha256 batch) = Inr sha"
      "entry_bytes r tsr = Inr bytes" "verify_token X bytes sha = Inr token"
      "streams' = fold mark_anchored anchored streams"
    by (auto simp: verify_batch_def check_token_def Let_def split: sum.splits option.splits if_splits prod.splits)
  from b(2,5) have "sha = x_sha256 X root_raw" by (auto simp: sha256_hex_def dest: sym)
  with b have t: "timestamped X r batch" unfolding timestamped_def by metis
  have ev: "anchor_evidence X r [batch] i d s"
    if "(i, d) \<in> set streams" "(i, cp_id) \<in> set anchored" "in_range_of cp_id d s" for i d s cp_id
  proof -
    from that(2) b(3) obtain inc where inc: "inc \<in> set (ab_checkpoints batch)"
      "(i, cp_id) \<in> set (fst (check_inclusion X streams batch inc))"
      by (auto simp: check_inclusions_def Let_def)
    from check_inclusion_sound [OF inc(2)] obtain d' digest where c: "(i, d') \<in> set streams"
      "ci_checkpoint_id inc = cp_id" "verify_stored_inclusion X inc (ab_root_blake3 batch) = Inr ()"
      "hex_decode_digest ''inclusion.leaf'' (ci_leaf inc) = Inr digest"
      "map_of (d_checkpoint_digests d') cp_id = Some digest" by blast
    have "d' = d" using assms(1) that(1) c(1) by (meson eq_key_imp_eq_value)
    with c t inc(1) that(3) show ?thesis unfolding anchor_evidence_def anchors_checkpoint_def by auto
  qed
  show ?thesis
    unfolding b(8)
  proof (rule list.rel_mono_strong [OF fold_mark_grows])
    fix a b
    assume "a \<in> set streams" and "grown (\<lambda>i d s. \<exists>cp_id. (i, cp_id) \<in> set anchored \<and> in_range_of cp_id d s) a b"
    then show "grown (anchor_evidence X r [batch]) a b"
      unfolding grown_def using ev [of "fst a" "snd a"] by (metis prod.collapse)
  qed
qed (simp add: grows_refl)

lemma anchor_evidence_mono:
  "anchor_evidence X r bs i d s \<Longrightarrow> set bs \<subseteq> set bs' \<Longrightarrow> anchor_evidence X r bs' i d s"
  unfolding anchor_evidence_def by blast

lemma verify_batches_grows:
  "distinct (map fst streams) \<Longrightarrow> verify_batches X r batches (streams, e) = ((streams', e'), fs) \<Longrightarrow>
   grows (anchor_evidence X r batches) streams streams'"
proof (induction batches arbitrary: streams e fs)
  case (Cons batch batches)
  obtain s1 e1 f1 f2 where 1: "verify_batch X r batch (streams, e) = ((s1, e1), f1)"
    and 2: "verify_batches X r batches (s1, e1) = ((streams', e'), f2)"
    using Cons.prems(2) by (auto split: prod.splits)
  let ?P = "anchor_evidence X r (batch # batches)"
  have b: "grows (anchor_evidence X r [batch]) streams s1" using Cons.prems(1) 1 by (rule verify_batch_grows)
  from grows_keys [OF b] Cons.prems(1) have "distinct (map fst s1)" by simp
  from Cons.IH [OF this 2] have "grows ?P s1 streams'"
    by (rule grows_mono) (erule anchor_evidence_mono, auto)
  moreover from b have "grows ?P streams s1" by (rule grows_mono) (erule anchor_evidence_mono, simp)
  ultimately show ?case using stable_anchor_evidence grows_trans by blast
qed (simp add: grows_refl)

lemma verify_anchors_grows:
  "distinct (map fst streams) \<Longrightarrow> verify_anchors X r proofs streams keys = ((streams', e), fs) \<Longrightarrow>
   grows (anchor_evidence X r (ap_batches proofs)) streams streams'"
  by (auto simp: verify_anchors_def intro: verify_batches_grows split: prod.splits)

text \<open>What the later stages rely on: anchoring keeps the streams and all but their anchored numbers.\<close>

lemma grown_keeps:
  assumes "grown P (i, d) (i, d')"
  shows "d_hashes_by_seq d' = d_hashes_by_seq d" "d_attested_seqs d' = d_attested_seqs d"
    "d_checkpoint_links d' = d_checkpoint_links d" "d_checkpoint_note_hashes d' = d_checkpoint_note_hashes d"
    "d_countersigned_high_water d' = d_countersigned_high_water d"
  using assms by (auto simp: grown_def)

section \<open>A concrete batch\<close>

lemma demo_engine_token: "verify_token (demo_engine parse m ix) b b =
    Inr \<lparr>vt_gen_time = lit ''7'', vt_signer_subject = lit ''tsa'', vt_signature_verified = True\<rparr>"
  by (simp add: verify_token_def parse_token_def or_parse_def demo_signed_data_def gen_time_text_def
    find_signer_cert_def verify_cms_signature_def digest_bytes_def rsa_key_from_spki_def demo_engine_def
    with_engine_def with_tokens_def demo_bundle_def with_parser_def with_certs_def
    ext.defs cext.defs vext.defs bext.defs tsext.defs eext.defs demo_ext_def)

section \<open>Properties\<close>

text \<open>
  C15: A record that the stage counts as anchored is covered by a timestamp. A newly anchored number
  of a stream is attested by a valid checkpoint of that stream whose range contains it; the digest of
  that checkpoint's note is the leaf of an inclusion that verifies against the root of a batch of the
  bundle; and a token of the bundle verifies for the SHA-256 digest of that root.
\<close>

theorem anchored_records_are_timestamped:
  assumes "verify_anchors X r proofs streams console_keys = ((streams', earliest), fs)"
    and "distinct (map fst streams)" and "(i, d) \<in> set streams" and "(i, d') \<in> set streams'"
    and "s \<in> d_anchored_seqs d'" and "s \<notin> d_anchored_seqs d"
  shows "s \<in> d_attested_seqs d \<and> (\<exists>batch \<in> set (ap_batches proofs). \<exists>inc \<in> set (ab_checkpoints batch).
    \<exists>digest lo hi root_raw tsr bytes vt.
      map_of (d_valid_checkpoint_ranges d) (ci_checkpoint_id inc) = Some (lo, hi) \<and> lo \<le> s \<and> s \<le> hi \<and>
      map_of (d_checkpoint_digests d) (ci_checkpoint_id inc) = Some digest \<and>
      hex_decode_digest ''inclusion.leaf'' (ci_leaf inc) = Inr digest \<and>
      verify_stored_inclusion X inc (ab_root_blake3 batch) = Inr () \<and>
      hex_decode_digest ''root_blake3'' (ab_root_blake3 batch) = Inr root_raw \<and>
      ab_tsr_file batch = Some tsr \<and> entry_bytes r tsr = Inr bytes \<and>
      verify_token X bytes (x_sha256 X root_raw) = Inr vt)"
proof -
  have g: "grows (anchor_evidence X r (ap_batches proofs)) streams streams'"
    using assms(2,1) by (rule verify_anchors_grows)
  from grows_member [OF g assms(4)] obtain d0 where d0: "(i, d0) \<in> set streams"
    "grown (anchor_evidence X r (ap_batches proofs)) (i, d0) (i, d')" by blast
  with assms(2,3) have "d0 = d" by (meson eq_key_imp_eq_value)
  with d0(2) assms(5,6) have "s \<in> d_attested_seqs d" "anchor_evidence X r (ap_batches proofs) i d s"
    by (auto simp: grown_def)
  then show ?thesis
    unfolding anchor_evidence_def anchors_checkpoint_def timestamped_def in_range_of_def by blast
qed

theorem anchored_records_are_timestamped_witness:
  "\<exists>(X :: (ustr \<times> bytes) list eext) r proofs streams d d' earliest fs bytes imprint vt.
     verify_anchors X r proofs streams [] = (([(lit ''s'', d')], earliest), fs) \<and>
     streams = [(lit ''s'', d)] \<and> d_anchored_seqs d = {} \<and> d_anchored_seqs d' = {0} \<and>
     verify_token X bytes imprint = Inr vt"
proof -
  let ?X = "demo_engine (\<lambda>b. Inl []) (demo_manifest []) \<lparr>ri_streams = []\<rparr>"
  let ?leaf = "replicate 32 1 :: bytes"
  let ?d = "stream_data_default\<lparr>d_attested_seqs := {0}, d_valid_checkpoint_ranges := [(lit ''c'', (0, 0))],
    d_checkpoint_digests := [(lit ''c'', ?leaf)]\<rparr>"
  let ?d' = "?d\<lparr>d_anchored_seqs := {0}\<rparr>"
  define rt where "rt = leaf_hash ?X ?leaf"
  let ?inc = "\<lparr>ci_checkpoint_id = lit ''c'', ci_leaf = hex_encode ?leaf, ci_leaf_index = 0, ci_tree_size = 1, ci_proof = []\<rparr>"
  let ?b = "\<lparr>ab_batch_id = [], ab_created_at = [], ab_root_blake3 = hex_encode rt,
    ab_root_sha256 = sha256_hex ?X rt, ab_tsr_file = Some (lit ''t''), ab_qualified = True, ab_checkpoints = [?inc]\<rparr>"
  let ?r = "\<lparr>br_zip = archive_of [(lit ''t'', x_sha256 ?X rt)], br_manifest = demo_manifest []\<rparr>"
  have l: "length rt = 32" by (simp add: rt_def leaf_hash_def)
  have v: "verify_stored_inclusion ?X ?inc (hex_encode rt) = Inr ()"
    using l by (simp add: verify_stored_inclusion_def hex_decode_digest_encode verify_inclusion_def rt_def)
  have t: "\<exists>vt. verify_token ?X (x_sha256 ?X rt) (x_sha256 ?X rt) = Inr vt" by (simp add: demo_engine_token)
  have e: "entry_bytes ?r (lit ''t'') = Inr (x_sha256 ?X rt)" by (simp add: entry_bytes_def read_archive)
  have "\<exists>e fs. verify_anchors ?X ?r \<lparr>ap_batches = [?b], ap_daily = []\<rparr> [(lit ''s'', ?d)] [] = (([(lit ''s'', ?d')], e), fs)"
    using l v t e by (auto simp: verify_anchors_def verify_batch_def check_inclusions_def check_inclusion_def
      check_token_def mark_anchored_def anchor_data_def hex_decode_digest_encode sha256_hex_def set_seq_range stream_data_default_def Let_def)
  then obtain ea fs where a: "verify_anchors ?X ?r \<lparr>ap_batches = [?b], ap_daily = []\<rparr> [(lit ''s'', ?d)] [] =
    (([(lit ''s'', ?d')], ea), fs)" by blast
  from anchored_records_are_timestamped [OF a, of "lit ''s''" ?d ?d' 0]
  obtain bytes imprint vt where "verify_token ?X bytes imprint = Inr vt" by (auto simp: stream_data_default_def)
  moreover have "d_anchored_seqs ?d = {}" "d_anchored_seqs ?d' = {0}" by (simp_all add: stream_data_default_def)
  ultimately show ?thesis using a by blast
qed

end
