(* ===== verification/Writer.thy ===== *)
theory Writer
  imports Bundle
begin

text \<open>
  The bundle writer (\<open>bundle/src/write.rs\<close>). An operation maps the writer's state to a new state and
  a result; \<open>wbind\<close> is the \<open>?\<close> operator on such operations, which keeps what was written before an
  error. The zip writer is the list of its entries; starting an entry may be refused, and writing
  one may stop early.
\<close>

section \<open>The writer's state\<close>

definition MEDIA_TYPE :: ustr where
  "MEDIA_TYPE = lit ''application/vnd.sealr.bundle+zip''"

definition BUNDLE_SCHEMA_VERSION :: ustr where
  "BUNDLE_SCHEMA_VERSION = lit ''1''"

definition SHARD_SIZE_BYTES :: u64 where
  "SHARD_SIZE_BYTES = 512 * 1024 * 1024"

datatype Phase = Records | Checkpoints | Anchors | Identity | Vault | Finished

text \<open>Phases derive \<open>Ord\<close>: declaration order.\<close>

fun phase_rank :: "Phase \<Rightarrow> nat" where
  "phase_rank Records = 0"
| "phase_rank Checkpoints = 1"
| "phase_rank Anchors = 2"
| "phase_rank Identity = 3"
| "phase_rank Vault = 4"
| "phase_rank Finished = 5"

instantiation Phase :: linorder
begin

definition less_eq_Phase :: "Phase \<Rightarrow> Phase \<Rightarrow> bool" where
  "less_eq_Phase a b \<longleftrightarrow> phase_rank a \<le> phase_rank b"

definition less_Phase :: "Phase \<Rightarrow> Phase \<Rightarrow> bool" where
  "less_Phase a b \<longleftrightarrow> phase_rank a < phase_rank b"

instance
proof
  show "a = b" if "a \<le> b" "b \<le> a" for a b :: Phase
    using that by (cases a; cases b) (simp_all add: less_eq_Phase_def)
qed (auto simp: less_eq_Phase_def less_Phase_def)

end

record BundleWriter =
  bw_zip :: "(ustr \<times> bytes) list"
  bw_contents :: "ContentEntry list"
  bw_index :: RecordIndex
  bw_phase :: Phase
  bw_tool :: ToolInfo
  bw_bundle_id :: ustr
  bw_created_at :: ustr
  bw_shard_threshold :: u64

definition writer_new :: "ustr \<Rightarrow> ustr \<Rightarrow> ToolInfo \<Rightarrow> BundleWriter" where
  "writer_new bundle_id created_at tool =
     \<lparr>bw_zip = [], bw_contents = [], bw_index = \<lparr>ri_streams = []\<rparr>, bw_phase = Records, bw_tool = tool,
      bw_bundle_id = bundle_id, bw_created_at = created_at, bw_shard_threshold = SHARD_SIZE_BYTES\<rparr>"

definition with_shard_threshold :: "u64 \<Rightarrow> BundleWriter \<Rightarrow> BundleWriter" where
  "with_shard_threshold bytes w = w\<lparr>bw_shard_threshold := bytes\<rparr>"

definition writer_debug :: "BundleWriter \<Rightarrow> msg" where
  "writer_debug w = [T ''BundleWriter { bundle_id: '', D (bw_bundle_id w), T '', entries: '', N (length (bw_contents w)), T '', .. }'']"

section \<open>Operations with state and errors\<close>

type_synonym 'a wop = "BundleWriter \<Rightarrow> BundleWriter \<times> 'a bresult"

definition wret :: "'a \<Rightarrow> 'a wop" where
  "wret x w = (w, Inr x)"

definition wfail :: "bundle_error \<Rightarrow> 'a wop" where
  "wfail e w = (w, Inl e)"

definition wlift :: "'a bresult \<Rightarrow> 'a wop" where
  "wlift r w = (w, r)"

definition wbind :: "'a wop \<Rightarrow> ('a \<Rightarrow> 'b wop) \<Rightarrow> 'b wop" where
  "wbind m f w = (case m w of (w', Inl e) \<Rightarrow> (w', Inl e) | (w', Inr x) \<Rightarrow> f x w')"

definition wthen :: "unit wop \<Rightarrow> 'b wop \<Rightarrow> 'b wop" where
  "wthen m n = wbind m (\<lambda>_. n)"

section \<open>The writer's operations\<close>

fun phase_name :: "Phase \<Rightarrow> string" where
  "phase_name Records = ''Records''"
| "phase_name Checkpoints = ''Checkpoints''"
| "phase_name Anchors = ''Anchors''"
| "phase_name Identity = ''Identity''"
| "phase_name Vault = ''Vault''"
| "phase_name Finished = ''Finished''"

definition require_phase :: "Phase \<Rightarrow> Phase \<Rightarrow> unit wop" where
  "require_phase at_most next_phase w =
     (if at_most < bw_phase w
      then (w, Inl (Invalid [T ''bundle writer phase error: cannot write '', T (phase_name next_phase),
                  T '' after '', T (phase_name (bw_phase w))]))
      else (w\<lparr>bw_phase := next_phase\<rparr>, Inr ()))"

definition write_raw :: "('w, 'x) bext_scheme \<Rightarrow> ustr \<Rightarrow> bytes \<Rightarrow> unit wop" where
  "write_raw X name bytes w =
     (case x_zip_start X (map fst (bw_zip w)) name of
        Some e \<Rightarrow> (w, Inl (Zip e))
      | None \<Rightarrow>
          let (written, err) = x_zip_write X bytes;
              w1 = w\<lparr>bw_zip := bw_zip w @ [(name, written)]\<rparr>
          in (w1, case err of Some e \<Rightarrow> Inl (Io e) | None \<Rightarrow> Inr ()))"

definition write_entry :: "('w, 'x) bext_scheme \<Rightarrow> ustr \<Rightarrow> bytes \<Rightarrow> unit wop" where
  "write_entry X name bytes =
     wthen (write_raw X name bytes)
       (\<lambda>w. (w\<lparr>bw_contents := bw_contents w @
                 [\<lparr>ce_path = name, ce_blake3 = blake3_hex X bytes, ce_bytes = of_nat (length bytes)\<rparr>]\<rparr>, Inr ()))"

definition pad5 :: "nat \<Rightarrow> ustr" where
  "pad5 n = replicate (5 - length (dec_digits n)) 48 @ dec_digits n"

definition shard_path :: "ustr \<Rightarrow> u32 \<Rightarrow> ustr" where
  "shard_path stream_id shard_no =
     lit ''records/'' @ stream_id @ lit ''.part-'' @ pad5 (unat shard_no) @ lit ''.ndjson.zst''"

text \<open>\<open>flush_shard\<close>: the list of shards grows, and the buffer is cleared, when there was something to write.\<close>

definition flush_shard ::
  "('w, 'x) bext_scheme \<Rightarrow> ustr \<Rightarrow> bytes \<Rightarrow> u32 \<Rightarrow> ustr list \<Rightarrow> (bytes \<times> ustr list) wop" where
  "flush_shard X stream_id buf shard_no shards =
     (if buf = [] then wret (buf, shards)
      else wbind (wlift (case x_zstd_encode X buf of Inl e \<Rightarrow> Inl (Io e) | Inr c \<Rightarrow> Inr c)) (\<lambda>compressed.
        let name = shard_path stream_id shard_no in
        wthen (write_entry X name compressed) (wret ([], shards @ [name]))))"

record ShardState =
  sh_shards :: "ustr list"
  sh_buf :: bytes
  sh_no :: u32
  sh_count :: u64
  sh_first :: "bytes option"
  sh_last :: "bytes option"

fun shard_loop ::
  "('w, 'x) bext_scheme \<Rightarrow> ustr \<Rightarrow> ShardState \<Rightarrow> bytes bresult list \<Rightarrow> ShardState wop" where
  "shard_loop X stream_id st [] = wret st"
| "shard_loop X stream_id st (Inl e # rest) = wfail e"
| "shard_loop X stream_id st (Inr line # rest) = (\<lambda>w.
     let buf = sh_buf st @ line;
         st1 = st\<lparr>sh_first := (case sh_first st of None \<Rightarrow> Some line | f \<Rightarrow> f), sh_last := Some line,
                  sh_buf := buf, sh_count := sh_count st + 1\<rparr>
     in if bw_shard_threshold w \<le> of_nat (length buf)
        then wbind (flush_shard X stream_id buf (sh_no st) (sh_shards st)) (\<lambda>(buf', shards).
               shard_loop X stream_id (st1\<lparr>sh_buf := buf', sh_shards := shards, sh_no := sh_no st + 1\<rparr>) rest) w
        else shard_loop X stream_id st1 rest w)"

definition seq_of :: "('w, 'x) bext_scheme \<Rightarrow> ustr \<Rightarrow> bytes \<Rightarrow> u64 bresult" where
  "seq_of X stream_id line =
     rbind (or_json (x_json_parse X line)) (\<lambda>v.
       ok_or (Option.bind (get v (lit ''seq'')) as_u64)
         (Invalid [T ''stream '', S stream_id, T '': record line missing seq'']))"

definition add_stream_records ::
  "('w, 'x) bext_scheme \<Rightarrow> ustr \<Rightarrow> bytes bresult list \<Rightarrow> RecordIndexStream wop" where
  "add_stream_records X stream_id lines =
     wthen (require_phase Records Records)
    (wbind (shard_loop X stream_id
              \<lparr>sh_shards = [], sh_buf = [], sh_no = 1, sh_count = 0, sh_first = None, sh_last = None\<rparr> lines) (\<lambda>st.
     wbind (flush_shard X stream_id (sh_buf st) (sh_no st) (sh_shards st)) (\<lambda>(buf, shards).
     if sh_count st = 0
     then wfail (Invalid [T ''stream '', S stream_id, T '': cannot export zero records''])
     else
       wbind (wlift (seq_of X stream_id (the (sh_first st)))) (\<lambda>seq_from.
       wbind (wlift (seq_of X stream_id (the (sh_last st)))) (\<lambda>seq_to.
       let entry = \<lparr>ri_stream_id = stream_id, ri_shards = shards, ri_seq_from = seq_from,
                    ri_seq_to = seq_to, ri_record_count = sh_count st\<rparr>
       in (\<lambda>w. (w\<lparr>bw_index := \<lparr>ri_streams = ri_streams (bw_index w) @ [entry]\<rparr>\<rparr>, Inr entry)))))))"

definition finish_records :: "('w, 'x) bext_scheme \<Rightarrow> unit wop" where
  "finish_records X w =
     wbind (wlift (or_json (x_pretty_index X (bw_index w)))) (\<lambda>bytes.
     wthen (write_entry X (lit ''records/index.json'') bytes)
       (\<lambda>w. (w\<lparr>bw_phase := Checkpoints\<rparr>, Inr ()))) w"

definition close_records :: "('w, 'x) bext_scheme \<Rightarrow> unit wop" where
  "close_records X w = (if bw_phase w = Records then finish_records X w else (w, Inr ()))"

definition add_stream_checkpoints ::
  "('w, 'x) bext_scheme \<Rightarrow> ustr \<Rightarrow> BundleCheckpoint list \<Rightarrow> unit wop" where
  "add_stream_checkpoints X stream_id checkpoints =
     wthen (close_records X)
    (wthen (require_phase Checkpoints Checkpoints)
    (wbind (wlift (or_json (x_pretty_checkpoints X
              \<lparr>st_stream_id = stream_id, st_checkpoints = checkpoints\<rparr>))) (\<lambda>bytes.
     write_entry X (lit ''checkpoints/'' @ stream_id @ lit ''.json'') bytes)))"

definition add_rfc3161_token :: "('w, 'x) bext_scheme \<Rightarrow> ustr \<Rightarrow> bytes \<Rightarrow> unit wop" where
  "add_rfc3161_token X batch_id token_der =
     wthen (close_records X)
    (wthen (require_phase Anchors Anchors)
     (write_entry X (lit ''anchors/rfc3161/'' @ batch_id @ lit ''.tsr'') token_der))"

definition add_qts_token :: "('w, 'x) bext_scheme \<Rightarrow> ustr \<Rightarrow> bytes \<Rightarrow> unit wop" where
  "add_qts_token X day token_der =
     wthen (close_records X)
    (wthen (require_phase Anchors Anchors)
     (write_entry X (lit ''anchors/qts/'' @ day @ lit ''.der'') token_der))"

definition add_anchor_proofs :: "('w, 'x) bext_scheme \<Rightarrow> AnchorProofs \<Rightarrow> unit wop" where
  "add_anchor_proofs X proofs =
     wthen (close_records X)
    (wthen (require_phase Anchors Anchors)
    (wbind (wlift (or_json (x_pretty_proofs X proofs))) (\<lambda>bytes.
     write_entry X (lit ''anchors/proofs.json'') bytes)))"

definition add_identity ::
  "('w, 'x) bext_scheme \<Rightarrow> ustr \<Rightarrow> SignedRevocationList option \<Rightarrow> RootsFile \<Rightarrow> unit wop" where
  "add_identity X certs_pem revocations roots =
     wthen (close_records X)
    (wthen (require_phase Anchors Identity)
    (wthen (write_entry X (lit ''identity/certs.pem'') (str_bytes certs_pem))
    (wthen (case revocations of
              None \<Rightarrow> wret ()
            | Some l \<Rightarrow>
                wbind (wlift (or_json (x_pretty_revocations X l))) (\<lambda>bytes.
                  write_entry X (lit ''identity/revocations.json'') bytes))
    (wbind (wlift (or_json (x_pretty_roots X roots))) (\<lambda>bytes.
     write_entry X (lit ''identity/roots.json'') bytes)))))"

fun contains_dots :: "ustr \<Rightarrow> bool" where
  "contains_dots (a # b # s) = ((a = 46 \<and> b = 46) \<or> contains_dots (b # s))"
| "contains_dots _ = False"

definition add_vault_entry :: "('w, 'x) bext_scheme \<Rightarrow> ustr \<Rightarrow> bytes \<Rightarrow> unit wop" where
  "add_vault_entry X name bytes =
     wthen (require_phase Vault Vault)
     (if contains_dots name \<or> (name \<noteq> [] \<and> hd name = 47)
      then wfail (Invalid [T ''invalid vault entry name '', D name])
      else write_entry X (lit ''vault/'' @ name) bytes)"

definition verify_md_template :: "ToolInfo \<Rightarrow> ustr" where
  "verify_md_template tool = concat (map (\<lambda>l. l @ [10])
     [lit ''# Verifying this Seal bundle'', [],
      lit ''This is an Sealr evidence bundle (`'' @ MEDIA_TYPE @ lit ''`).'', [],
      lit ''To verify it offline, without contacting Sealr:'', [],
      lit ''```'', lit ''sealr-verify <this-file>.seal'', lit ''```'', [],
      lit ''The verifier is open source (Apache-2.0): https://github.com/sealr/sealr '',
      lit ''Verifier releases embed the Sealr root public keys; you may also pass'',
      lit ''`--root <pem>` to pin your own trusted root, and `--json` for machine output.'', [],
      lit ''The bundle manifest (`manifest.json`) lists the BLAKE3-256 hash of every entry.'',
      lit ''The manifest's own canonical hash is `BLAKE3-256(JCS(manifest.json))`; the'',
      lit ''exporter prints it at export time '' @ [0x2014] @ lit '' compare it with the value communicated to'',
      lit ''you out of band.'', [],
      lit ''Standing limits (also printed by the verifier): Sealr evidence is'',
      lit ''tamper-evident, not tamper-proof; it proves integrity, ordering, timing, and'',
      lit ''origin of the recorded stream only; proven time comes from timestamp anchors;'',
      lit ''subject attribution quality is as recorded, not independently proven.'', [],
      lit ''Exported by '' @ ti_name tool @ lit '' '' @ ti_version tool @ lit ''.''])"

definition scope_of_stream :: "RecordIndexStream \<Rightarrow> StreamScope" where
  "scope_of_stream s = \<lparr>sco_stream_id = ri_stream_id s, sco_seq_from = ri_seq_from s,
     sco_seq_to = ri_seq_to s, sco_record_count = ri_record_count s\<rparr>"

definition writer_manifest ::
  "ExportLevel \<Rightarrow> ustr option \<Rightarrow> ustr option \<Rightarrow> ustr list \<Rightarrow> BundleWriter \<Rightarrow> Manifest" where
  "writer_manifest level ts_from ts_to resources w =
     \<lparr>m_schema_version = BUNDLE_SCHEMA_VERSION, m_bundle_id = bw_bundle_id w,
      m_created_at = bw_created_at w, m_tool = bw_tool w,
      m_scope = \<lparr>bs_level = level, bs_ts_from = ts_from, bs_ts_to = ts_to, bs_resources = resources,
                 bs_streams = map scope_of_stream (ri_streams (bw_index w))\<rparr>,
      m_contents = bw_contents w\<rparr>"

definition finish ::
  "('w, 'x) bext_scheme \<Rightarrow> ExportLevel \<Rightarrow> ustr option \<Rightarrow> ustr option \<Rightarrow> ustr list \<Rightarrow>
   (Manifest \<times> ustr \<times> 'w) wop" where
  "finish X level ts_from ts_to resources =
     wthen (close_records X)
    (\<lambda>w. wthen (write_entry X (lit ''VERIFY.md'') (str_bytes (verify_md_template (bw_tool w))))
    (\<lambda>w. let manifest = writer_manifest level ts_from ts_to resources w in
      wbind (wlift (or_evidence (jcs_hash X manifest))) (\<lambda>hash.
      wbind (wlift (or_evidence (to_jcs_bytes (manifest_json manifest)))) (\<lambda>manifest_bytes.
      wthen (write_raw X (lit ''manifest.json'') manifest_bytes)
      (\<lambda>w. let w1 = w\<lparr>bw_phase := Finished\<rparr> in
           (w1, case x_zip_finish X (bw_zip w1) of
                  Inl e \<Rightarrow> Inl (Zip e) | Inr target \<Rightarrow> Inr (manifest, hash, target))))) w) w)"

section \<open>Specifications of operations\<close>

text \<open>
  From a state with \<open>P\<close> the operation ends in a state with \<open>Q\<close> when it succeeds, and in one with
  \<open>E\<close> when it fails.
\<close>

definition wspec ::
  "(BundleWriter \<Rightarrow> bool) \<Rightarrow> 'a wop \<Rightarrow> (BundleWriter \<Rightarrow> bool) \<Rightarrow> (BundleWriter \<Rightarrow> bool) \<Rightarrow> bool" where
  "wspec P m Q E \<longleftrightarrow> (\<forall>w. P w \<longrightarrow> (case m w of (w', Inl e) \<Rightarrow> E w' | (w', Inr x) \<Rightarrow> Q w'))"

lemma wspecD: "wspec P m Q E \<Longrightarrow> P w \<Longrightarrow> m w = (w', r) \<Longrightarrow> if isl r then E w' else Q w'"
  unfolding wspec_def by (cases r) fastforce+

lemma wspec_if: "wspec P a Q E \<Longrightarrow> wspec P b Q E \<Longrightarrow> wspec P (\<lambda>w. if c w then a w else b w) Q E"
  by (simp add: wspec_def)

lemma wspec_wret [intro]: "(\<And>w. P w \<Longrightarrow> Q w) \<Longrightarrow> wspec P (wret x) Q E"
  by (simp add: wspec_def wret_def)

lemma wspec_wfail [intro]: "(\<And>w. P w \<Longrightarrow> E w) \<Longrightarrow> wspec P (wfail e) Q E"
  by (simp add: wspec_def wfail_def)

lemma wspec_wlift: "(\<And>w. P w \<Longrightarrow> E w) \<Longrightarrow> wspec P (wlift r) P E"
  by (simp add: wspec_def wlift_def split: sum.splits)

lemma wspec_wbind: "wspec P m Q E \<Longrightarrow> (\<And>x. wspec Q (f x) R E) \<Longrightarrow> wspec P (wbind m f) R E"
  by (fastforce simp: wspec_def wbind_def split: prod.splits sum.splits)

lemma wspec_wthen: "wspec P m Q E \<Longrightarrow> wspec Q n R E \<Longrightarrow> wspec P (wthen m n) R E"
  unfolding wthen_def by (rule wspec_wbind)

lemma wspec_weaken: "wspec P m Q E \<Longrightarrow> (\<And>w. P' w \<Longrightarrow> P w) \<Longrightarrow> (\<And>w. Q w \<Longrightarrow> Q' w) \<Longrightarrow> wspec P' m Q' E"
  by (fastforce simp: wspec_def split: prod.splits sum.splits)

lemmas wspec_rules = wspec_wbind wspec_wthen wspec_wret wspec_wfail wspec_wlift

section \<open>Entry order\<close>

definition entry_rank :: "ustr \<Rightarrow> nat" where
  "entry_rank name =
     (if take 8 name = lit ''records/'' then 0
      else if take 12 name = lit ''checkpoints/'' then 1
      else if take 8 name = lit ''anchors/'' then 2
      else if take 9 name = lit ''identity/'' then 3
      else if take 6 name = lit ''vault/'' then 4
      else 5)"

lemma entry_ranks [simp]:
  "entry_rank (lit ''records/'' @ s) = 0"
  "entry_rank (lit ''records/index.json'') = 0"
  "entry_rank (lit ''checkpoints/'' @ s) = 1"
  "entry_rank (lit ''anchors/rfc3161/'' @ s) = 2"
  "entry_rank (lit ''anchors/qts/'' @ s) = 2"
  "entry_rank (lit ''anchors/proofs.json'') = 2"
  "entry_rank (lit ''identity/certs.pem'') = 3"
  "entry_rank (lit ''identity/revocations.json'') = 3"
  "entry_rank (lit ''identity/roots.json'') = 3"
  "entry_rank (lit ''vault/'' @ s) = 4"
  "entry_rank (lit ''vault/'') = 4"
  "entry_rank (lit ''VERIFY.md'') = 5"
  "entry_rank (lit ''manifest.json'') = 5"
  by (simp_all add: entry_rank_def lit_def)

text \<open>
  \<open>continues w0 w\<close>: the entries of \<open>w\<close> are in canonical order and none is ahead of the phase, the
  phase is not before that of \<open>w0\<close>, and no entry of \<open>w0\<close> was lost or changed.
\<close>

definition continues :: "BundleWriter \<Rightarrow> BundleWriter \<Rightarrow> bool" where
  "continues w0 w \<longleftrightarrow> sorted (map (entry_rank \<circ> fst) (bw_zip w)) \<and>
     (\<forall>e \<in> set (bw_zip w). entry_rank (fst e) \<le> phase_rank (bw_phase w)) \<and>
     bw_phase w0 \<le> bw_phase w \<and> (\<exists>es. bw_zip w = bw_zip w0 @ es)"

abbreviation continues_in :: "BundleWriter \<Rightarrow> Phase \<Rightarrow> BundleWriter \<Rightarrow> bool" where
  "continues_in w0 p w \<equiv> continues w0 w \<and> bw_phase w = p"

lemma spec_write_entry:
  assumes "entry_rank name = phase_rank p"
  shows "wspec (continues_in w0 p) (write_entry X name bytes) (continues_in w0 p) (continues w0)"
  using assms
  by (auto simp: wspec_def write_entry_def wthen_def wbind_def write_raw_def continues_def sorted_append Let_def
    split: option.splits prod.splits sum.splits)

lemma spec_require_phase:
  "p \<le> q \<Longrightarrow> wspec (continues w0) (require_phase p q) (continues_in w0 q) (continues w0)"
  by (auto simp: wspec_def require_phase_def continues_def less_eq_Phase_def less_Phase_def intro: order_trans)

lemma spec_finish_records:
  "wspec (continues_in w0 Records) (finish_records X) (continues w0) (continues w0)"
proof -
  have "wspec (continues_in w0 Records) (wthen (write_entry X (lit ''records/index.json'') bytes)
      (\<lambda>w. (w\<lparr>bw_phase := Checkpoints\<rparr>, Inr ()))) (continues w0) (continues w0)" for bytes
    by (rule wspec_wthen [OF spec_write_entry])
      (auto simp: wspec_def continues_def less_eq_Phase_def intro: le_trans)
  then show ?thesis
    by (auto simp: wspec_def finish_records_def wbind_def wlift_def split: sum.splits)
qed

lemma spec_close_records: "wspec (continues w0) (close_records X) (continues w0) (continues w0)"
  using spec_finish_records [of w0 X] by (auto simp: wspec_def close_records_def)

lemma spec_flush_shard:
  "wspec (continues_in w0 Records) (flush_shard X sid buf n shards) (continues_in w0 Records) (continues w0)"
  unfolding flush_shard_def Let_def
  by (auto intro!: wspec_rules spec_write_entry simp: shard_path_def)

lemma spec_shard_loop:
  "wspec (continues_in w0 Records) (shard_loop X sid st ls) (continues_in w0 Records) (continues w0)"
proof (induction ls arbitrary: st)
  case (Cons l ls)
  then show ?case
    by (cases l) (auto simp: Let_def intro!: wspec_if wspec_rules spec_flush_shard split: prod.splits)
qed (auto intro!: wspec_rules)

lemma spec_add_stream_records:
  "wspec (continues w0) (add_stream_records X sid ls) (continues w0) (continues w0)"
  unfolding add_stream_records_def
proof (rule wspec_wthen [OF spec_require_phase], simp)
  have update: "wspec (continues_in w0 Records)
      (\<lambda>w. (w\<lparr>bw_index := f w\<rparr>, Inr x :: RecordIndexStream bresult)) (continues w0) (continues w0)" for f x
    by (auto simp: wspec_def continues_def)
  show "wspec (continues_in w0 Records) (wbind (shard_loop X sid
         \<lparr>sh_shards = [], sh_buf = [], sh_no = 1, sh_count = 0, sh_first = None, sh_last = None\<rparr> ls) (\<lambda>st.
     wbind (flush_shard X sid (sh_buf st) (sh_no st) (sh_shards st)) (\<lambda>(buf, shards).
     if sh_count st = 0
     then wfail (Invalid [T ''stream '', S sid, T '': cannot export zero records''])
     else
       wbind (wlift (seq_of X sid (the (sh_first st)))) (\<lambda>seq_from.
       wbind (wlift (seq_of X sid (the (sh_last st)))) (\<lambda>seq_to.
       let entry = \<lparr>ri_stream_id = sid, ri_shards = shards, ri_seq_from = seq_from,
                    ri_seq_to = seq_to, ri_record_count = sh_count st\<rparr>
       in (\<lambda>w. (w\<lparr>bw_index := \<lparr>ri_streams = ri_streams (bw_index w) @ [entry]\<rparr>\<rparr>, Inr entry)))))))
      (continues w0) (continues w0)"
    unfolding Let_def by (auto intro!: wspec_rules spec_shard_loop spec_flush_shard update split: prod.splits)
qed

lemma spec_phased:
  assumes "p \<le> q" and "wspec (continues_in w0 q) m (continues w0) (continues w0)"
  shows "wspec (continues w0) (wthen (close_records X) (wthen (require_phase p q) m)) (continues w0) (continues w0)"
  by (rule wspec_wthen [OF spec_close_records wspec_wthen [OF spec_require_phase [OF assms(1)] assms(2)]])

lemma spec_write_last:
  "entry_rank name = phase_rank p \<Longrightarrow>
   wspec (continues_in w0 p) (write_entry X name bytes) (continues w0) (continues w0)"
  by (rule wspec_weaken [OF spec_write_entry]) auto

lemma spec_additions:
  "wspec (continues w0) (add_stream_checkpoints X sid cps) (continues w0) (continues w0)"
  "wspec (continues w0) (add_rfc3161_token X bid tok) (continues w0) (continues w0)"
  "wspec (continues w0) (add_qts_token X day tok) (continues w0) (continues w0)"
  "wspec (continues w0) (add_anchor_proofs X proofs) (continues w0) (continues w0)"
  "wspec (continues w0) (add_identity X certs revs roots) (continues w0) (continues w0)"
  "wspec (continues w0) (add_vault_entry X name bytes) (continues w0) (continues w0)"
proof -
  show "wspec (continues w0) (add_stream_checkpoints X sid cps) (continues w0) (continues w0)"
    "wspec (continues w0) (add_rfc3161_token X bid tok) (continues w0) (continues w0)"
    "wspec (continues w0) (add_qts_token X day tok) (continues w0) (continues w0)"
    "wspec (continues w0) (add_anchor_proofs X proofs) (continues w0) (continues w0)"
    unfolding add_stream_checkpoints_def add_rfc3161_token_def add_qts_token_def add_anchor_proofs_def
    by (rule spec_phased; auto intro!: wspec_wbind [OF wspec_wlift] spec_write_last)+
  show "wspec (continues w0) (add_identity X certs revs roots) (continues w0) (continues w0)"
    unfolding add_identity_def
    by (rule spec_phased)
      (auto simp: less_eq_Phase_def intro!: wspec_wthen [OF spec_write_entry] wspec_wthen [where Q = "continues_in w0 Identity"]
        wspec_wbind [OF wspec_wlift] wspec_wret spec_write_entry spec_write_last split: option.splits)
  show "wspec (continues w0) (add_vault_entry X name bytes) (continues w0) (continues w0)"
    unfolding add_vault_entry_def
    by (rule wspec_wthen [OF spec_require_phase]) (auto intro!: wspec_wfail spec_write_last)
qed

section \<open>Runs of the writer\<close>

text \<open>One call on the writer, and whether it succeeded.\<close>

inductive writer_step :: "('w, 'x) bext_scheme \<Rightarrow> BundleWriter \<Rightarrow> bool \<Rightarrow> BundleWriter \<Rightarrow> bool"
  for X :: "('w, 'x) bext_scheme" where
  records: "add_stream_records X sid ls w = (w', r) \<Longrightarrow> writer_step X w (is_ok r) w'"
| checkpoints: "add_stream_checkpoints X sid cps w = (w', r') \<Longrightarrow> writer_step X w (is_ok r') w'"
| token: "add_rfc3161_token X bid tok w = (w', r') \<Longrightarrow> writer_step X w (is_ok r') w'"
| qts: "add_qts_token X day tok w = (w', r') \<Longrightarrow> writer_step X w (is_ok r') w'"
| proofs: "add_anchor_proofs X proofs w = (w', r') \<Longrightarrow> writer_step X w (is_ok r') w'"
| identity: "add_identity X certs revs roots w = (w', r') \<Longrightarrow> writer_step X w (is_ok r') w'"
| vault: "add_vault_entry X name bytes w = (w', r') \<Longrightarrow> writer_step X w (is_ok r') w'"

inductive_cases writer_stepE: "writer_step X w ok w'"

definition writer_reach :: "('w, 'x) bext_scheme \<Rightarrow> BundleWriter \<Rightarrow> BundleWriter \<Rightarrow> bool" where
  "writer_reach X = (\<lambda>w w'. \<exists>ok. writer_step X w ok w')\<^sup>*\<^sup>*"

definition writer_ok_reach :: "('w, 'x) bext_scheme \<Rightarrow> BundleWriter \<Rightarrow> BundleWriter \<Rightarrow> bool" where
  "writer_ok_reach X = (\<lambda>w w'. writer_step X w True w')\<^sup>*\<^sup>*"

lemma step_spec:
  assumes "writer_step X w ok w'"
    and "\<And>sid ls. wspec P (add_stream_records X sid ls) Q E"
    and "\<And>sid cps. wspec P (add_stream_checkpoints X sid cps) Q E"
    and "\<And>bid tok. wspec P (add_rfc3161_token X bid tok) Q E"
    and "\<And>day tok. wspec P (add_qts_token X day tok) Q E"
    and "\<And>proofs. wspec P (add_anchor_proofs X proofs) Q E"
    and "\<And>certs revs roots. wspec P (add_identity X certs revs roots) Q E"
    and "\<And>name bytes. wspec P (add_vault_entry X name bytes) Q E"
    and "P w"
  shows "if ok then Q w' else E w'"
  using assms(1)
proof cases
  case (records sid ls r) with wspecD [OF assms(2,9)] show ?thesis by (cases r) auto
next
  case (checkpoints sid cps r) with wspecD [OF assms(3,9)] show ?thesis by (cases r) auto
next
  case (token bid tok r) with wspecD [OF assms(4,9)] show ?thesis by (cases r) auto
next
  case (qts day tok r) with wspecD [OF assms(5,9)] show ?thesis by (cases r) auto
next
  case (proofs proofs r) with wspecD [OF assms(6,9)] show ?thesis by (cases r) auto
next
  case (identity certs revs roots r) with wspecD [OF assms(7,9)] show ?thesis by (cases r) auto
next
  case (vault name bytes r) with wspecD [OF assms(8,9)] show ?thesis by (cases r) auto
qed

lemma step_continues: "writer_step X w ok w' \<Longrightarrow> continues w0 w \<Longrightarrow> continues w0 w'"
  using step_spec [OF _ spec_add_stream_records spec_additions, of X w ok w' w0] by (auto split: if_splits)

lemma reach_continues:
  assumes "writer_reach X w w'" and "continues w0 w"
  shows "continues w0 w'"
  using assms(1) unfolding writer_reach_def
  by (induction rule: rtranclp_induct) (auto intro: assms(2) step_continues)

lemma continues_new: "continues (writer_new b c t) (writer_new b c t)"
  by (simp add: continues_def writer_new_def)

lemma continues_refl: "continues w0 w \<Longrightarrow> continues w w"
  by (simp add: continues_def)

section \<open>Successful runs keep the books\<close>

text \<open>The zip crate: a name can be started once only, and a write without error has written all.\<close>

definition zip_writer_law :: "('w, 'x) bext_scheme \<Rightarrow> bool" where
  "zip_writer_law X \<longleftrightarrow>
     (\<forall>names name. x_zip_start X names name = None \<longrightarrow> name \<notin> set names) \<and>
     (\<forall>b b'. x_zip_write X b = (b', None) \<longrightarrow> b' = b)"

definition booked :: "('w, 'x) bext_scheme \<Rightarrow> BundleWriter \<Rightarrow> bool" where
  "booked X w \<longleftrightarrow> bw_contents w = map (entry_of X) (bw_zip w) \<and> distinct (map fst (bw_zip w))"

definition indexed :: "BundleWriter \<Rightarrow> bool" where
  "indexed w \<longleftrightarrow> (bw_phase w \<in> {Checkpoints, Anchors, Identity} \<longrightarrow>
     lit ''records/index.json'' \<in> fst ` set (bw_zip w))"

abbreviation kept :: "('w, 'x) bext_scheme \<Rightarrow> BundleWriter \<Rightarrow> bool" where
  "kept X w \<equiv> booked X w \<and> indexed w"

abbreviation anything :: "BundleWriter \<Rightarrow> bool" where
  "anything w \<equiv> True"

lemma wspecI: "(\<And>w w' x. P w \<Longrightarrow> m w = (w', Inr x) \<Longrightarrow> Q w') \<Longrightarrow> wspec P m Q anything"
  unfolding wspec_def by (auto split: prod.splits sum.splits)

lemma write_entry_Inr:
  assumes "write_entry X name bytes w = (w', Inr u)"
  shows "x_zip_start X (map fst (bw_zip w)) name = None \<and> (\<exists>written. x_zip_write X bytes = (written, None) \<and>
    w' = w\<lparr>bw_zip := bw_zip w @ [(name, written)], bw_contents := bw_contents w @
      [\<lparr>ce_path = name, ce_blake3 = blake3_hex X bytes, ce_bytes = of_nat (length bytes)\<rparr>]\<rparr>)"
  using assms
  by (auto simp: write_entry_def wthen_def wbind_def write_raw_def split: option.splits prod.splits sum.splits)

lemma ok_write_entry:
  assumes "zip_writer_law X"
  shows "wspec (kept X) (write_entry X name bytes) (kept X) anything"
proof -
  have "kept X w'" if k: "kept X w" and e: "write_entry X name bytes w = (w', Inr u)" for w w' u
  proof -
    from write_entry_Inr [OF e] assms have "name \<notin> set (map fst (bw_zip w))"
      and "w' = w\<lparr>bw_zip := bw_zip w @ [(name, bytes)], bw_contents := bw_contents w @
        [\<lparr>ce_path = name, ce_blake3 = blake3_hex X bytes, ce_bytes = of_nat (length bytes)\<rparr>]\<rparr>"
      unfolding zip_writer_law_def by blast+
    with k show ?thesis by (auto simp: booked_def indexed_def entry_of_def)
  qed
  then show ?thesis by (rule wspecI)
qed

lemma ok_require_phase:
  "wspec (kept X) (require_phase Records Records) (kept X) anything"
  "wspec (kept X) (require_phase Vault Vault) (kept X) anything"
  "p \<le> Anchors \<Longrightarrow> wspec (\<lambda>w. kept X w \<and> bw_phase w \<noteq> Records) (require_phase p q) (kept X) anything"
proof -
  show "wspec (kept X) (require_phase Records Records) (kept X) anything"
    "wspec (kept X) (require_phase Vault Vault) (kept X) anything"
    by (auto simp: wspec_def require_phase_def booked_def indexed_def)
  assume p: "p \<le> Anchors"
  have "bw_phase w \<in> {Checkpoints, Anchors, Identity}" if "\<not> p < bw_phase w" "bw_phase w \<noteq> Records" for w
    using that p by (cases "bw_phase w"; cases p) (simp_all add: less_Phase_def less_eq_Phase_def)
  then show "wspec (\<lambda>w. kept X w \<and> bw_phase w \<noteq> Records) (require_phase p q) (kept X) anything"
    by (auto simp: wspec_def require_phase_def booked_def indexed_def)
qed

lemma finish_records_Inr:
  assumes "finish_records X w = (w', Inr u)"
  shows "\<exists>bytes w1. x_pretty_index X (bw_index w) = Inr bytes \<and>
    write_entry X (lit ''records/index.json'') bytes w = (w1, Inr ()) \<and> w' = w1\<lparr>bw_phase := Checkpoints\<rparr>"
  using assms
  by (auto simp: finish_records_def wthen_def wbind_def wlift_def split: sum.splits prod.splits)

lemma ok_close_records:
  assumes "zip_writer_law X"
  shows "wspec (kept X) (close_records X) (\<lambda>w. kept X w \<and> bw_phase w \<noteq> Records) anything"
proof -
  have fin: "kept X w' \<and> bw_phase w' \<noteq> Records" if k: "kept X w" and f: "finish_records X w = (w', Inr u)" for w w' u
  proof -
    from finish_records_Inr [OF f] obtain bytes w1
      where e: "write_entry X (lit ''records/index.json'') bytes w = (w1, Inr ())"
        and w': "w' = w1\<lparr>bw_phase := Checkpoints\<rparr>" by blast
    from wspecD [OF ok_write_entry [OF assms] k e] have "kept X w1" by simp
    moreover have "lit ''records/index.json'' \<in> fst ` set (bw_zip w1)"
      using write_entry_Inr [OF e] by force
    ultimately show ?thesis using w' by (auto simp: booked_def indexed_def)
  qed
  show ?thesis
  proof (rule wspecI)
    fix w w' x assume "kept X w" "close_records X w = (w', Inr x)"
    then show "kept X w' \<and> bw_phase w' \<noteq> Records"
      using fin [of w w' x] by (cases "bw_phase w = Records") (simp_all add: close_records_def)
  qed
qed

lemma ok_flush_shard:
  "zip_writer_law X \<Longrightarrow> wspec (kept X) (flush_shard X sid buf n shards) (kept X) anything"
  unfolding flush_shard_def Let_def by (auto intro!: wspec_rules ok_write_entry)

lemma ok_shard_loop: "zip_writer_law X \<Longrightarrow> wspec (kept X) (shard_loop X sid st ls) (kept X) anything"
proof (induction ls arbitrary: st)
  case (Cons l ls)
  then show ?case
    by (cases l) (auto simp: Let_def intro!: wspec_if wspec_rules ok_flush_shard split: prod.splits)
qed (auto intro!: wspec_rules)

lemma ok_add_stream_records:
  "zip_writer_law X \<Longrightarrow> wspec (kept X) (add_stream_records X sid ls) (kept X) anything"
proof -
  assume X: "zip_writer_law X"
  have "wspec (kept X) (\<lambda>w. (w\<lparr>bw_index := f w\<rparr>, Inr x :: RecordIndexStream bresult)) (kept X) anything" for f x
    by (simp add: wspec_def booked_def indexed_def)
  with X show ?thesis
    unfolding add_stream_records_def Let_def
    by (intro wspec_wthen [OF ok_require_phase(1)] wspec_wbind [OF ok_shard_loop] wspec_wbind [OF ok_flush_shard])
      (simp_all add: wspec_wbind [OF wspec_wlift] wspec_wfail split: prod.splits)
qed

lemma ok_phased:
  assumes "zip_writer_law X" and "p \<le> Anchors" and "wspec (kept X) m (kept X) anything"
  shows "wspec (kept X) (wthen (close_records X) (wthen (require_phase p q) m)) (kept X) anything"
  by (rule wspec_wthen [OF ok_close_records [OF assms(1)] wspec_wthen [OF ok_require_phase(3) [OF assms(2)] assms(3)]])

lemma ok_additions:
  assumes X: "zip_writer_law X"
  shows "wspec (kept X) (add_stream_checkpoints X sid cps) (kept X) anything"
    "wspec (kept X) (add_rfc3161_token X bid tok) (kept X) anything"
    "wspec (kept X) (add_qts_token X day tok) (kept X) anything"
    "wspec (kept X) (add_anchor_proofs X proofs) (kept X) anything"
    "wspec (kept X) (add_identity X certs revs roots) (kept X) anything"
    "wspec (kept X) (add_vault_entry X name bytes) (kept X) anything"
proof -
  note wr = ok_write_entry [OF X]
  show "wspec (kept X) (add_stream_checkpoints X sid cps) (kept X) anything"
    "wspec (kept X) (add_rfc3161_token X bid tok) (kept X) anything"
    "wspec (kept X) (add_qts_token X day tok) (kept X) anything"
    "wspec (kept X) (add_anchor_proofs X proofs) (kept X) anything"
    unfolding add_stream_checkpoints_def add_rfc3161_token_def add_qts_token_def add_anchor_proofs_def
    by (rule ok_phased [OF X]; auto simp: less_eq_Phase_def intro!: wspec_wbind [OF wspec_wlift] wr)+
  show "wspec (kept X) (add_identity X certs revs roots) (kept X) anything"
    unfolding add_identity_def
    by (rule ok_phased [OF X])
      (auto intro!: wspec_wthen [OF wr] wspec_wthen [where Q = "kept X"] wspec_wbind [OF wspec_wlift]
        wspec_wret wr split: option.splits)
  show "wspec (kept X) (add_vault_entry X name bytes) (kept X) anything"
    unfolding add_vault_entry_def
    by (rule wspec_wthen [OF ok_require_phase(2)]) (auto intro!: wspec_wfail wr)
qed

lemma reach_kept:
  assumes "zip_writer_law X" and "writer_ok_reach X w w'" and "kept X w"
  shows "kept X w'"
  using assms(2) unfolding writer_ok_reach_def
proof (induction rule: rtranclp_induct)
  case (step v w)
  from step_spec [OF step.hyps(2) ok_add_stream_records ok_additions] step.IH assms(1) show ?case by simp
qed (rule assms(3))

end
