(* ===== verification/Engine.thy ===== *)
theory Engine
  imports Anchor_Check Writer
begin

text \<open>
  The engine (\<open>verify_bundle\<close> of \<open>verify/src/engine.rs\<close>): the stages in order, the coverage
  cross-checks of stage 7, and the report. Each stage returns what it hands on and its findings; the
  findings of the report are those of the stages in order.
\<close>

section \<open>Container\<close>

definition check_schema :: "Manifest \<Rightarrow> Finding list" where
  "check_schema manifest =
     (if m_schema_version manifest \<noteq> BUNDLE_SCHEMA_VERSION
      then [add Warning ''schema_version_unknown''
             [T ''bundle schema_version '', D (m_schema_version manifest), T '' (verifier supports 1)'']]
      else [])"

definition check_container :: "('w, 'x) eext_scheme \<Rightarrow> BundleReader \<Rightarrow> Finding list" where
  "check_container X r =
     (case verify_content_hashes X r of
        Inr unlisted \<Rightarrow> map (\<lambda>name. add Error ''unlisted_entry''
          [T ''entry '', D name, T '' present in container but not in manifest'']) unlisted
      | Inl e \<Rightarrow> [add Error ''content_hash_mismatch'' (display_bundle_error X e)])"

section \<open>Identity\<close>

record Trust =
  tru_root_pems :: "ustr list"
  tru_cert_map :: CertMap
  tru_console_keys :: ConsoleKeys
  tru_revocations :: "SignedRevocationList option"

definition identity_stage ::
  "('w, 'x) eext_scheme \<Rightarrow> BundleReader \<Rightarrow> VerifyOptions \<Rightarrow> int \<Rightarrow> Trust \<times> Finding list" where
  "identity_stage X r opts now_unix =
     (let ident = (case identity X r of Inr i \<Rightarrow> Some i | Inl e \<Rightarrow> None);
          ((root_pems, root_source), f1) = select_roots X opts (map_option bi_roots ident);
          (cert_map, f2) = build_cert_map X (map_option bi_certs_pem ident) root_pems now_unix;
          (console_keys, f3) = resolve_console_keys X opts (map_option bi_roots ident) root_pems;
          revocations = Option.bind ident bi_revocations;
          f4 = check_revocation_list X revocations console_keys;
          f5 = (if root_source \<noteq> [] then [add Info ''root_source'' [S root_source]] else [])
      in (\<lparr>tru_root_pems = root_pems, tru_cert_map = cert_map, tru_console_keys = console_keys,
           tru_revocations = revocations\<rparr>, f1 @ f2 @ f3 @ f4 @ f5))"

section \<open>Streams\<close>

definition read_stream :: "('w, 'x) eext_scheme \<Rightarrow> BundleReader \<Rightarrow> ustr \<Rightarrow> bytes list \<times> msg option" where
  "read_stream X r stream_id =
     (case read_stream_records X r stream_id of
        (ls, Inr n) \<Rightarrow> (ls, None)
      | (ls, Inl e) \<Rightarrow> (ls, Some (display_bundle_error X e)))"

fun chain_stage ::
  "('w, 'x) eext_scheme \<Rightarrow> BundleReader \<Rightarrow> StreamScope list \<Rightarrow> Streams \<Rightarrow> Streams \<times> Finding list" where
  "chain_stage X r [] streams = (streams, [])"
| "chain_stage X r (scope # scopes) streams =
     (let (d, f1) = verify_stream_chain X (read_stream X r (sco_stream_id scope)) (sco_stream_id scope);
          (streams1, f2) = chain_stage X r scopes (btree_insert (sco_stream_id scope) d streams)
      in (streams1, f1 @ f2))"

definition checkpoint_stage ::
  "('w, 'x) eext_scheme \<Rightarrow> BundleReader \<Rightarrow> Trust \<Rightarrow> ustr \<times> StreamData \<Rightarrow> (ustr \<times> StreamData) \<times> Finding list" where
  "checkpoint_stage X r trust entry =
     (let (stream_id, d) = entry in
      case stream_checkpoints X r stream_id of
        Inl e \<Rightarrow> (entry, [add_at Warning ''checkpoints_missing''
          [T ''no checkpoints exported for stream''] stream_id None])
      | Inr c \<Rightarrow>
          let (d1, fs) = verify_checkpoints X stream_id d (st_checkpoints c) (tru_cert_map trust)
                (tru_revocations trust) (tru_console_keys trust)
          in ((stream_id, d1\<lparr>d_checkpoints := st_checkpoints c\<rparr>), fs))"

definition checkpoint_stages ::
  "('w, 'x) eext_scheme \<Rightarrow> BundleReader \<Rightarrow> Trust \<Rightarrow> Streams \<Rightarrow> Streams \<times> Finding list" where
  "checkpoint_stages X r trust streams =
     (let rs = map (checkpoint_stage X r trust) streams in (map fst rs, concat (map snd rs)))"

section \<open>Coverage\<close>

definition proven_default :: Proven where
  "proven_default = \<lparr>pv_records = 0, pv_streams = 0, pv_span_from = None, pv_span_to = None,
     pv_earliest_anchor = None, pv_attested_records = 0, pv_anchored_records = 0\<rparr>"

definition later :: "ustr \<Rightarrow> ustr option \<Rightarrow> ustr option" where
  "later t latest = (if (case latest of None \<Rightarrow> True | Some e \<Rightarrow> e < t) then Some t else latest)"

definition add_proven :: "StreamData \<Rightarrow> Proven \<Rightarrow> Proven" where
  "add_proven d p =
     (let p1 = p\<lparr>pv_records := pv_records p + of_nat (length (d_hashes_by_seq d)),
                 pv_streams := pv_streams p + 1,
                 pv_attested_records := pv_attested_records p + of_nat (card (d_attested_seqs d)),
                 pv_anchored_records := pv_anchored_records p + of_nat (card (d_anchored_seqs d))\<rparr>
      in case (d_ts_min d, d_ts_max d) of
           (Some lo, Some hi) \<Rightarrow>
             p1\<lparr>pv_span_from := earlier lo (pv_span_from p1), pv_span_to := later hi (pv_span_to p1)\<rparr>
         | _ \<Rightarrow> p1)"

definition unattested :: "StreamData \<Rightarrow> u64" where
  "unattested d =
     (let total = of_nat (length (d_hashes_by_seq d)); attested = of_nat (card (d_attested_seqs d))
      in if attested \<le> total then total - attested else 0)"

definition broken_links :: "ustr \<Rightarrow> StreamData \<Rightarrow> Finding list" where
  "broken_links stream_id d =
     concat (map (\<lambda>(cp_id, prev).
       if prev \<notin> d_checkpoint_note_hashes d
       then [add_at Error ''checkpoint_chain_broken''
              [T ''checkpoint '', S cp_id, T '' references predecessor '', S prev,
               T '' which is absent from the bundle: an earlier checkpoint and the records it attested were removed'']
              stream_id None]
       else []) (d_checkpoint_links d))"

definition max_present :: "StreamData \<Rightarrow> u64 option" where
  "max_present d = (if d_hashes_by_seq d = [] then None else Some (fst (last (d_hashes_by_seq d))))"

definition truncation :: "u64 option \<Rightarrow> ustr \<Rightarrow> StreamData \<Rightarrow> Finding list" where
  "truncation pinned stream_id d =
     (case opt_max pinned (d_countersigned_high_water d) of
        None \<Rightarrow> []
      | Some hw \<Rightarrow>
          if (case max_present d of None \<Rightarrow> True | Some m \<Rightarrow> m < hw)
          then [add_at Error ''truncation_detected''
                 ([T ''the Console countersigned that this stream had reached seq '', N (unat hw),
                   T '', but the bundle stops at seq ''] @
                  (case max_present d of None \<Rightarrow> [T ''nothing''] | Some m \<Rightarrow> [N (unat m)]) @
                  [T '': '', N (unat (hw - (case max_present d of None \<Rightarrow> 0 | Some m \<Rightarrow> m))),
                   T '' record(s) were removed from the end''])
                 stream_id None]
          else [])"

definition unproven_tail :: "u64 option \<Rightarrow> ustr \<Rightarrow> StreamData \<Rightarrow> Finding list" where
  "unproven_tail pinned stream_id d =
     (if pinned = None \<and> 0 < (of_nat (length (d_hashes_by_seq d)) :: u64) \<and> d_countersigned_high_water d = None
      then let detail = (case d_top_checkpoint d of
                  Some (cp_id, seq_to) \<Rightarrow>
                    [T ''the last checkpoint ('', S cp_id, T '') covers up to seq '', N (unat seq_to),
                     T '' but carries no console countersignature and no timestamp anchor'']
                | None \<Rightarrow> [T ''the stream has no valid checkpoint at all''])
           in [add_at Warning ''tail_completeness_unproven''
                ([T ''no external attestation bounds this stream's extent: ''] @ detail @
                 [T ''. Trailing records '', S [0x2014], T '' together with the checkpoints attesting them '',
                  S [0x2014], T '' could have been removed leaving a self-consistent bundle. Re-run with --expect-high-water '',
                  S stream_id, T ''=<max_seq from GET /v1/streams/'', S stream_id,
                  T ''/integrity> to make the true extent decidable.''])
                stream_id None]
      else [])"

definition coverage_findings :: "VerifyOptions \<Rightarrow> ustr \<times> StreamData \<Rightarrow> Finding list" where
  "coverage_findings opts entry =
     (let (stream_id, d) = entry; pinned = map_of (vo_expected_high_water opts) stream_id in
      (if 0 < unattested d
       then [add_at Warning ''unattested_tail''
              [N (unat (unattested d)), T '' record(s) not covered by any valid checkpoint''] stream_id None]
       else []) @
      broken_links stream_id d @ truncation pinned stream_id d @ unproven_tail pinned stream_id d @
      (if 0 < d_coverage_gap_count d
       then [add_at Warning ''coverage_gaps_recorded''
              [T ''stream contains '', N (unat (d_coverage_gap_count d)), T '' coverage_gap record(s)''] stream_id None]
       else []) @
      map (\<lambda>seg. add_at Info ''segment_no_clean_end''
             [T ''segment '', S seg, T '' has no segment_end record (crash or still active at export)'']
             stream_id None) (d_segments_without_end d))"

section \<open>The report\<close>

definition now_of :: "('w, 'x) eext_scheme \<Rightarrow> VerifyOptions \<Rightarrow> int" where
  "now_of X opts = (case vo_now_unix opts of Some t \<Rightarrow> t | None \<Rightarrow> x_now X)"

definition assemble_report :: "('w, 'x) eext_scheme \<Rightarrow> Manifest \<Rightarrow> ustr \<Rightarrow> Proven \<Rightarrow> Finding list \<Rightarrow> Report" where
  "assemble_report X manifest manifest_h proven findings =
     \<lparr>rp_result = compute_result findings, rp_bundle_id = m_bundle_id manifest, rp_manifest_hash = manifest_h,
      rp_tool = \<lparr>tv_verifier = x_version X, tv_bundle_schema = m_schema_version manifest\<rparr>,
      rp_proven = proven, rp_findings = findings, rp_limits = STANDING_LIMITS\<rparr>"

definition verify_bundle :: "('w, 'x) eext_scheme \<Rightarrow> BundleReader \<Rightarrow> VerifyOptions \<Rightarrow> Report" where
  "verify_bundle X r opts =
     (let manifest = br_manifest r;
          manifest_h = (case manifest_hash X r of Inr h \<Rightarrow> h | Inl e \<Rightarrow> lit ''unavailable'');
          f1 = check_schema manifest @ check_container X r;
          (trust, f2) = identity_stage X r opts (now_of X opts);
          (streams1, f3) = chain_stage X r (bs_streams (m_scope manifest)) [];
          (streams2, f4) = checkpoint_stages X r trust streams1;
          proofs = (case anchor_proofs X r of Inr p \<Rightarrow> p | Inl e \<Rightarrow> anchor_proofs_default);
          ((streams3, earliest), f5) = verify_anchors X r proofs streams2 (tru_console_keys trust);
          f6 = concat (map (coverage_findings opts) streams3);
          proven = (fold (add_proven \<circ> snd) streams3 proven_default)\<lparr>pv_earliest_anchor := earliest\<rparr>;
          findings = f1 @ f2 @ f3 @ f4 @ f5 @ f6
      in assemble_report X manifest manifest_h proven findings)"

section \<open>The stages of a run\<close>

abbreviation scoped :: "BundleReader \<Rightarrow> ustr set" where
  "scoped r \<equiv> sco_stream_id ` set (bs_streams (m_scope (br_manifest r)))"

abbreviation chain_data :: "('w, 'x) eext_scheme \<Rightarrow> BundleReader \<Rightarrow> ustr \<Rightarrow> StreamData \<times> Finding list" where
  "chain_data X r i \<equiv> verify_stream_chain X (read_stream X r i) i"

lemma chain_stage_lookup:
  "map_of (fst (chain_stage X r scopes st)) =
     (\<lambda>i. if i \<in> sco_stream_id ` set scopes then Some (fst (chain_data X r i)) else map_of st i)"
  by (induction scopes arbitrary: st) (auto simp: map_of_btree_insert fun_eq_iff split_beta Let_def)

lemma chain_stage_sorted:
  "sorted_wrt (<) (map fst st) \<Longrightarrow> sorted_wrt (<) (map fst (fst (chain_stage X r scopes st)))"
  by (induction scopes arbitrary: st) (simp_all add: sorted_btree_insert split_beta Let_def del: map_map)

lemma chain_stage_distinct: "distinct (map fst (fst (chain_stage X r scopes [])))"
  using chain_stage_sorted [of "[]" X r scopes] by (simp add: strict_sorted_iff)

lemma chain_stage_findings:
  "i \<in> sco_stream_id ` set scopes \<Longrightarrow> set (snd (chain_data X r i)) \<subseteq> set (snd (chain_stage X r scopes st))"
  by (induction scopes arbitrary: st) (simp_all add: split_beta Let_def, blast)

lemma chain_stage_member:
  "(i, d) \<in> set (fst (chain_stage X r scopes [])) \<longleftrightarrow>
     i \<in> sco_stream_id ` set scopes \<and> d = fst (chain_data X r i)"
  using map_of_eq_Some_iff [OF chain_stage_distinct [of X r scopes], of i d] by (auto simp: chain_stage_lookup split: if_splits)

lemma checkpoint_stage_key [simp]: "fst (fst (checkpoint_stage X r trust e)) = fst e"
  by (cases e) (simp add: checkpoint_stage_def split: sum.split prod.split)

lemma checkpoint_stages_keys [simp]: "map fst (fst (checkpoint_stages X r trust st)) = map fst st"
  by (simp add: checkpoint_stages_def Let_def comp_def)

lemma grows_forward:
  "grows P st st' \<Longrightarrow> (i, d) \<in> set st \<Longrightarrow> \<exists>d'. (i, d') \<in> set st' \<and> grown P (i, d) (i, d')"
proof (induction st st' rule: list_all2_induct)
  case (Cons a st b st')
  show ?case
  proof (cases "a = (i, d)")
    case True
    with Cons.hyps(1) have "b = (i, snd b)" by (cases b) (simp add: grown_def)
    with Cons.hyps(1) True show ?thesis by (metis list.set_intros(1))
  next
    case False
    with Cons show ?thesis by auto
  qed
qed simp

definition trust_of :: "('w, 'x) eext_scheme \<Rightarrow> BundleReader \<Rightarrow> VerifyOptions \<Rightarrow> Trust" where
  "trust_of X r opts = fst (identity_stage X r opts (now_of X opts))"

definition proofs_of :: "('w, 'x) eext_scheme \<Rightarrow> BundleReader \<Rightarrow> AnchorProofs" where
  "proofs_of X r = (case anchor_proofs X r of Inr p \<Rightarrow> p | Inl e \<Rightarrow> anchor_proofs_default)"

definition streams_of :: "('w, 'x) eext_scheme \<Rightarrow> BundleReader \<Rightarrow> VerifyOptions \<Rightarrow> Streams" where
  "streams_of X r opts = fst (fst (verify_anchors X r (proofs_of X r) (fst (checkpoint_stages X r (trust_of X r opts)
     (fst (chain_stage X r (bs_streams (m_scope (br_manifest r))) [])))) (tru_console_keys (trust_of X r opts))))"

text \<open>What became of one stream in the three stages.\<close>

definition examined ::
  "('w, 'x) eext_scheme \<Rightarrow> BundleReader \<Rightarrow> VerifyOptions \<Rightarrow> ustr \<Rightarrow> StreamData \<Rightarrow> StreamData \<Rightarrow> Finding list \<Rightarrow> bool" where
  "examined X r opts i d d' fs \<longleftrightarrow> i \<in> scoped r \<and>
     checkpoint_stage X r (trust_of X r opts) (i, fst (chain_data X r i)) = ((i, d), fs) \<and>
     grown (anchor_evidence X r (ap_batches (proofs_of X r))) (i, d) (i, d')"

lemma anchors_grow:
  "distinct (map fst st) \<Longrightarrow>
   grows (anchor_evidence X r (ap_batches proofs)) st (fst (fst (verify_anchors X r proofs st keys)))"
  by (cases "verify_anchors X r proofs st keys") (metis fst_conv prod.collapse verify_anchors_grows)

lemma streams_grow:
  "grows (anchor_evidence X r (ap_batches (proofs_of X r))) (fst (checkpoint_stages X r (trust_of X r opts)
     (fst (chain_stage X r (bs_streams (m_scope (br_manifest r))) [])))) (streams_of X r opts)"
  unfolding streams_of_def by (rule anchors_grow) (simp add: chain_stage_distinct)

lemma streams_keys: "sorted_wrt (<) (map fst (streams_of X r opts))"
  using grows_keys [OF streams_grow [of X r opts]]
    chain_stage_sorted [of "[]" X r "bs_streams (m_scope (br_manifest r))"] by simp

lemma stream_examined:
  assumes "(i, d') \<in> set (streams_of X r opts)"
  shows "\<exists>d fs. examined X r opts i d d' fs"
proof -
  let ?s1 = "fst (chain_stage X r (bs_streams (m_scope (br_manifest r))) [])"
  from grows_member [OF streams_grow assms] obtain d where
    d: "(i, d) \<in> set (fst (checkpoint_stages X r (trust_of X r opts) ?s1))"
      "grown (anchor_evidence X r (ap_batches (proofs_of X r))) (i, d) (i, d')" by blast
  then obtain e where e: "e \<in> set ?s1" "fst (checkpoint_stage X r (trust_of X r opts) e) = (i, d)"
    by (auto simp: checkpoint_stages_def Let_def)
  with checkpoint_stage_key [of X r "trust_of X r opts" e] have "fst e = i" by simp
  with e d(2) have "i \<in> scoped r" "e = (i, fst (chain_data X r i))"
    using chain_stage_member [of i "snd e"] by (metis prod.collapse)+
  with e(2) d(2) show ?thesis unfolding examined_def by (metis prod.collapse)
qed

lemma scoped_examined:
  assumes "i \<in> scoped r"
  shows "\<exists>d d' fs. (i, d') \<in> set (streams_of X r opts) \<and> examined X r opts i d d' fs"
proof -
  let ?s1 = "fst (chain_stage X r (bs_streams (m_scope (br_manifest r))) [])"
  let ?e = "(i, fst (chain_data X r i))"
  obtain d fs where c: "checkpoint_stage X r (trust_of X r opts) ?e = ((i, d), fs)"
    using checkpoint_stage_key [of X r "trust_of X r opts" ?e] by (metis fst_conv prod.collapse)
  have "?e \<in> set ?s1" using assms by (simp add: chain_stage_member)
  then have "(i, d) \<in> set (fst (checkpoint_stages X r (trust_of X r opts) ?s1))"
    using c by (force simp: checkpoint_stages_def Let_def)
  from grows_forward [OF streams_grow this] c assms show ?thesis unfolding examined_def by blast
qed

lemma bundle_findings:
  "rp_result (verify_bundle X r opts) = compute_result (rp_findings (verify_bundle X r opts))"
  "rp_findings (verify_bundle X r opts) =
     (check_schema (br_manifest r) @ check_container X r) @ snd (identity_stage X r opts (now_of X opts)) @
     snd (chain_stage X r (bs_streams (m_scope (br_manifest r))) []) @
     snd (checkpoint_stages X r (trust_of X r opts) (fst (chain_stage X r (bs_streams (m_scope (br_manifest r))) []))) @
     snd (verify_anchors X r (proofs_of X r) (fst (checkpoint_stages X r (trust_of X r opts)
       (fst (chain_stage X r (bs_streams (m_scope (br_manifest r))) [])))) (tru_console_keys (trust_of X r opts))) @
     concat (map (coverage_findings opts) (streams_of X r opts))"
  "rp_proven (verify_bundle X r opts) = (fold (add_proven \<circ> snd) (streams_of X r opts) proven_default)
     \<lparr>pv_earliest_anchor := snd (fst (verify_anchors X r (proofs_of X r) (fst (checkpoint_stages X r (trust_of X r opts)
       (fst (chain_stage X r (bs_streams (m_scope (br_manifest r))) [])))) (tru_console_keys (trust_of X r opts))))\<rparr>"
  "rp_limits (verify_bundle X r opts) = STANDING_LIMITS"
  by (simp_all add: verify_bundle_def assemble_report_def Let_def split_beta streams_of_def trust_of_def proofs_of_def)

lemma scoped_findings:
  assumes "examined X r opts i d d' fs" and "(i, d') \<in> set (streams_of X r opts)"
  shows "set (snd (chain_data X r i)) \<union> set fs \<union> set (coverage_findings opts (i, d')) \<subseteq>
    set (rp_findings (verify_bundle X r opts))"
proof -
  let ?s1 = "fst (chain_stage X r (bs_streams (m_scope (br_manifest r))) [])"
  have "(i, fst (chain_data X r i)) \<in> set ?s1" using assms(1) by (simp add: examined_def chain_stage_member)
  then have "set fs \<subseteq> set (snd (checkpoint_stages X r (trust_of X r opts) ?s1))"
    using assms(1) by (force simp: checkpoint_stages_def Let_def examined_def)
  moreover have "set (snd (chain_data X r i)) \<subseteq> set (snd (chain_stage X r (bs_streams (m_scope (br_manifest r))) []))"
    using assms(1) by (intro chain_stage_findings) (simp add: examined_def)
  ultimately show ?thesis using assms(2) unfolding bundle_findings(2) by auto
qed

section \<open>Verdicts\<close>

lemma no_errors_subset: "no_errors gs \<Longrightarrow> set fs \<subseteq> set gs \<Longrightarrow> no_errors fs"
  by (auto simp: no_errors_iff)

lemma pass_subset: "compute_result gs = Pass \<Longrightarrow> set fs \<subseteq> set gs \<Longrightarrow> compute_result fs = Pass"
  by (auto simp: compute_result_def list_ex_iff split: if_splits)

lemma pass_no_errors: "compute_result fs = Pass \<Longrightarrow> no_errors fs"
  by simp

lemma pass_append [simp]: "compute_result (fs @ gs) = Pass \<longleftrightarrow> compute_result fs = Pass \<and> compute_result gs = Pass"
  by (auto simp: compute_result_def)

lemma pass_simps [simp]:
  "compute_result [] = Pass" "compute_result [add s c m] = Pass \<longleftrightarrow> s = Info"
  "compute_result [add_at s c m st q] = Pass \<longleftrightarrow> s = Info"
  by (cases s; simp add: compute_result_def add_def add_at_def)+

section \<open>One stream in an accepted bundle\<close>

lemma accepted_stream:
  assumes "no_errors (snd (chain_data X r i))"
  obtains ls n vs sv sv' cfs where "read_stream_records X r i = (ls, Inr n)" "map (x_json_parse X) ls = map Inr vs"
    "verifier_new X i = Inr sv" "verify_records X sv vs = Inr (sv', cfs)"
    "list_all (\<lambda>f. \<exists>seg seq. f = SegmentBreak seg seq) cfs"
    "d_hashes_by_seq (fst (chain_data X r i)) = map (\<lambda>v. (record_seq v, own_hash v)) vs"
proof -
  obtain ls res where r: "read_stream_records X r i = (ls, res)" by fastforce
  obtain e where e: "read_stream X r i = (ls, e)" "e = None \<longrightarrow> (\<exists>n. res = Inr n)"
    using r by (cases res) (simp_all add: read_stream_def)
  obtain d fs where d: "chain_data X r i = (d, fs)" by fastforce
  with assms have "no_errors fs" by simp
  from clean_pass [OF d [unfolded e(1)] this] r e(2) d that show ?thesis by fastforce
qed

lemma checkpoint_stage_attests:
  assumes "checkpoint_stage X r trust (i, d1) = ((i, d), fs)"
  shows "d_hashes_by_seq d = d_hashes_by_seq d1 \<and> d_anchored_seqs d = d_anchored_seqs d1 \<and>
    (\<forall>s \<in> d_attested_seqs d - d_attested_seqs d1. \<exists>c. stream_checkpoints X r i = Inr c \<and>
       (\<exists>cp \<in> bc_checkpoint ` set (st_checkpoints c). vouched X i (tru_cert_map trust) (tru_revocations trust) cp \<and>
          root_checked X (d_hashes_by_seq d1) cp \<and> n_seq_from (sc_note cp) \<le> s \<and> s \<le> n_seq_to (sc_note cp)))"
proof (cases "stream_checkpoints X r i")
  case (Inr c)
  let ?loop = "checkpoint_loop X i (tru_cert_map trust) (tru_revocations trust) (tru_console_keys trust)
    \<lparr>cp_data = d1, cp_ranges = []\<rparr> (st_checkpoints c)"
  have l: "?loop = (fst ?loop, snd ?loop)" by simp
  from assms Inr have "d = (cp_data (fst ?loop))\<lparr>d_checkpoints := st_checkpoints c\<rparr>"
    by (auto simp: checkpoint_stage_def verify_checkpoints_def split_beta Let_def)
  with checkpoint_loop_attests [OF l] Inr show ?thesis by simp
next
  case (Inl e)
  with assms show ?thesis by (simp add: checkpoint_stage_def)
qed

lemma root_checked_present:
  assumes "root_checked X hashes cp" and "n_seq_from (sc_note cp) \<le> s" and "s \<le> n_seq_to (sc_note cp)"
  shows "\<exists>hs h. map_of hashes s = Some h \<and> h \<in> set hs \<and> verify_root X cp hs = Inr ()"
proof -
  from assms(1) obtain hs where hs: "map (map_of hashes) (seq_range (n_seq_from (sc_note cp)) (n_seq_to (sc_note cp))) =
      map Some hs" "verify_root X cp hs = Inr ()" by (auto simp: root_checked_def is_ok_iff)
  from assms(2,3) have "s \<in> set (seq_range (n_seq_from (sc_note cp)) (n_seq_to (sc_note cp)))"
    by (simp add: set_seq_range)
  then have "map_of hashes s \<in> set (map Some hs)" unfolding hs(1) [symmetric] by simp
  with hs(2) show ?thesis by auto
qed

lemma examined_nested:
  assumes "examined X r opts i d d' fs"
  shows "d_anchored_seqs d' \<subseteq> d_attested_seqs d' \<and> d_attested_seqs d' \<subseteq> fst ` set (d_hashes_by_seq d') \<and>
    sorted_wrt (<) (map fst (d_hashes_by_seq d'))"
proof -
  let ?d1 = "fst (chain_data X r i)"
  have u: "unexamined ?d1" by (rule unexamined_stream)
  from assms have c: "checkpoint_stage X r (trust_of X r opts) (i, ?d1) = ((i, d), fs)"
    and g: "grown (anchor_evidence X r (ap_batches (proofs_of X r))) (i, d) (i, d')" by (auto simp: examined_def)
  note a = checkpoint_stage_attests [OF c]
  have "s \<in> fst ` set (d_hashes_by_seq d)" if "s \<in> d_attested_seqs d" for s
  proof -
    from a u that obtain cp where "root_checked X (d_hashes_by_seq ?d1) cp" "n_seq_from (sc_note cp) \<le> s"
      "s \<le> n_seq_to (sc_note cp)" by (fastforce simp: unexamined_def)
    from root_checked_present [OF this] a show ?thesis by (force dest: map_of_SomeD)
  qed
  moreover have "d_anchored_seqs d' \<subseteq> d_attested_seqs d'"
    using g a u by (auto simp: grown_def unexamined_def)
  ultimately show ?thesis using grown_keeps [OF g] a u by (auto simp: unexamined_def)
qed

section \<open>Bookkeeping of an accepted checkpoint file\<close>

lemma check_books_clean:
  assumes "check_books X st ks bc d = (d', fs)" and "no_errors fs"
  shows "\<exists>d2. d' = keep_books X (sc_note (bc_checkpoint bc)) d2 \<and> d_checkpoint_links d2 = d_checkpoint_links d \<and>
    d_checkpoint_note_hashes d2 = d_checkpoint_note_hashes d"
proof -
  obtain d1 f1 go1 where 1: "check_root X st (bc_checkpoint bc) d = (d1, f1, go1)" by (metis prod.exhaust)
  obtain d2 f2 go2 where 2: "check_countersignature X st ks (n_checkpoint_id (sc_note (bc_checkpoint bc)))
      (bc_countersignature bc) d1 = (d2, f2, go2)" by (metis prod.exhaust)
  have "go1 \<or> \<not> no_errors f1" "go2 \<or> \<not> no_errors f2"
    using 1 2 by (auto simp: check_root_def check_countersignature_def Let_def split: if_splits sum.splits option.splits)
  with assms 1 2 have "d' = keep_books X (sc_note (bc_checkpoint bc)) d2"
    by (auto simp: check_books_def split: if_splits)
  moreover have "d_checkpoint_links d1 = d_checkpoint_links d" "d_checkpoint_note_hashes d1 = d_checkpoint_note_hashes d"
    using 1 by (auto simp: check_root_def Let_def split: if_splits sum.splits)
  moreover have "d_checkpoint_links d2 = d_checkpoint_links d1" "d_checkpoint_note_hashes d2 = d_checkpoint_note_hashes d1"
    using 2 by (auto simp: check_countersignature_def note_high_water_def split: option.splits if_splits)
  ultimately show ?thesis by auto
qed

lemma keep_books_books:
  "d_checkpoint_links (keep_books X n d) = d_checkpoint_links d @
     (case n_prev_checkpoint_hash n of Some p \<Rightarrow> [(n_checkpoint_id n, p)] | None \<Rightarrow> [])"
  "d_checkpoint_note_hashes (keep_books X n d) = d_checkpoint_note_hashes d \<union>
     (case note_hash X n of Inr h \<Rightarrow> {h} | Inl e \<Rightarrow> {})"
  by (auto simp: keep_books_def Let_def split: sum.splits option.splits)

lemma checkpoint_loop_books:
  "checkpoint_loop X st cm rv ks p bcs = (p', fs) \<Longrightarrow> no_errors fs \<Longrightarrow>
   snd ` set (d_checkpoint_links (cp_data p')) = snd ` set (d_checkpoint_links (cp_data p)) \<union>
     {h. \<exists>bc \<in> set bcs. n_prev_checkpoint_hash (sc_note (bc_checkpoint bc)) = Some h} \<and>
   d_checkpoint_note_hashes (cp_data p') = d_checkpoint_note_hashes (cp_data p) \<union>
     {h. \<exists>bc \<in> set bcs. note_hash X (sc_note (bc_checkpoint bc)) = Inr h}"
proof (induction bcs arbitrary: p fs)
  case (Cons bc bcs)
  obtain p1 f1 f2 where 1: "verify_checkpoint X st cm rv ks p bc = (p1, f1)"
    and 2: "checkpoint_loop X st cm rv ks p1 bcs = (p', f2)" and fs: "fs = f1 @ f2"
    using Cons.prems(1) by (auto split: prod.splits)
  obtain d' gs where b: "check_books X st ks bc (cp_data p) = (d', gs)" by fastforce
  from verify_checkpoint_cases [OF 1, unfolded b] Cons.prems(2) fs
  have d: "cp_data p1 = d'" and "no_errors gs" by (auto simp: Let_def split: if_splits)
  from check_books_clean [OF b this(2)] obtain d2 where d2: "d' = keep_books X (sc_note (bc_checkpoint bc)) d2"
    "d_checkpoint_links d2 = d_checkpoint_links (cp_data p)"
    "d_checkpoint_note_hashes d2 = d_checkpoint_note_hashes (cp_data p)" by blast
  from Cons.IH [OF 2] Cons.prems(2) fs show ?case
    unfolding d d2(1) keep_books_books d2(2,3) by (auto split: option.splits sum.splits)
qed simp

end
