(* ===== verification/Honest.thy ===== *)
theory Honest
  imports Engine
begin

text \<open>
  An honest export passes: what a recorder appends, checkpoints and signs, and an exporter writes out
  unchanged, gets the verdict \<open>Pass\<close> under the recorder's root and the console's extent.
\<close>

section \<open>Sequence numbers of an honest chain\<close>

lemma unat_of_nat_small: "n < 2 ^ 64 \<Longrightarrow> unat (of_nat n :: u64) = n"
  by (simp add: unat_of_nat)

lemma append_all_seqs:
  "append_all X h rs = Inr (h', out) \<Longrightarrow> map r_seq out = map (\<lambda>k. next_seq h + of_nat k) [0..<length rs]"
proof (induction rs arbitrary: h out)
  case (Cons r rs)
  then obtain h1 r1 out1 where a: "chain_append X h r = ((h1, r1), Inr ())" and
    rest: "append_all X h1 rs = Inr (h', out1)" and out: "out = r1 # out1"
    by (auto simp: rbind_eq_Inr split: prod.splits sum.splits)
  from a have "r_seq r1 = next_seq h" "next_seq h1 = next_seq h + 1"
    by (auto simp: chain_append_Inr next_seq_def)
  with Cons.IH [OF rest] show ?case
    by (simp add: out upt_conv_Cons map_Suc_upt [symmetric] comp_def add.assoc del: upt_Suc)
qed simp

lemma append_all_stream:
  "append_all X h rs = Inr (h', out) \<Longrightarrow> list_all (\<lambda>r. r_stream_id r = x_ulid_str X (h_stream_id h)) out"
proof (induction rs arbitrary: h out)
  case (Cons r rs)
  then obtain h1 r1 out1 where a: "chain_append X h r = ((h1, r1), Inr ())" and
    rest: "append_all X h1 rs = Inr (h', out1)" and out: "out = r1 # out1"
    by (auto simp: rbind_eq_Inr split: prod.splits sum.splits)
  from a have "r_stream_id r1 = x_ulid_str X (h_stream_id h)" "h_stream_id h1 = h_stream_id h"
    by (auto simp: chain_append_Inr)
  with Cons.IH [OF rest] out show ?case by simp
qed simp

lemma append_all_length: "append_all X h rs = Inr (h', out) \<Longrightarrow> length out = length rs"
  using append_all_seqs [of X h rs h' out] by (metis diff_zero length_map length_upt)

lemma genesis_seqs:
  "append_all X (chain_genesis X sid) rs = Inr (h, out) \<Longrightarrow> map r_seq out = map of_nat [0..<length out]"
  using append_all_seqs [of X "chain_genesis X sid" rs h out] append_all_length [of X "chain_genesis X sid" rs h out]
  by (simp add: next_seq_def chain_genesis_def)

lemma map_while_Some: "map f xs = map Some ys \<Longrightarrow> map_while f xs = ys"
  by (induction xs arbitrary: ys) (auto simp: Cons_eq_map_conv)

section \<open>Gaps\<close>

lemma get_record_type: "encodable r \<Longrightarrow> get_str (read_back r) ''record_type'' = Some (record_type_str (r_record_type r))"
  using read_back_view [of r] by (auto simp: view_from_value_Inr get_str_def get_def view_of_record_def)

lemma coverage_gap_str: "record_type_str t = lit ''coverage_gap'' \<longleftrightarrow> t = CoverageGap"
  using strs_inj(1) [of t CoverageGap] by simp

lemma scan_lines_gaps:
  "map (x_json_parse X) ls = map (\<lambda>r. Inr (read_back r)) out \<Longrightarrow>
   list_all encodable out \<Longrightarrow> list_all (\<lambda>r. r_record_type r \<noteq> CoverageGap) out \<Longrightarrow> d_coverage_gap_count (ss_data sc) = 0 \<Longrightarrow>
   d_coverage_gap_count (ss_data (fst (scan_lines X sid sc ls))) = 0"
proof (induction ls arbitrary: out sc)
  case (Cons line ls)
  then obtain r rest where out: "out = r # rest" "x_json_parse X line = Inr (read_back r)"
    "map (x_json_parse X) ls = map (\<lambda>r. Inr (read_back r)) rest" by (auto simp: Cons_eq_map_conv)
  have "d_coverage_gap_count (note_stats (read_back r) q (ss_data sc)) = 0" for q
    using Cons.prems(2-4) out(1)
    by (simp add: note_stats_def Let_def get_record_type coverage_gap_str split: option.split)
  then have "d_coverage_gap_count (ss_data (fst (scan_line X sid sc line))) = 0"
    using out(2) Cons.prems(4) by (simp add: scan_line_def Let_def split: sum.split prod.split)
  with Cons.IH [OF out(3)] Cons.prems(2,3) out(1) show ?case by (simp add: split_beta Let_def)
qed simp

lemma stream_gaps:
  assumes "map (x_json_parse X) ls = map (\<lambda>r. Inr (read_back r)) out"
    and "list_all encodable out" and "list_all (\<lambda>r. r_record_type r \<noteq> CoverageGap) out"
  shows "d_coverage_gap_count (fst (verify_stream_chain X (ls, e) sid)) = 0"
proof -
  have "d_coverage_gap_count (ss_data (fst (scan_lines X sid \<lparr>ss_verifier = sv, ss_data = stream_data_default,
      ss_segments_seen = [], ss_segments_ended = {}\<rparr> ls))) = 0" for sv
    by (rule scan_lines_gaps [OF assms]) (simp add: stream_data_default_def)
  then show ?thesis
    by (simp add: verify_stream_chain_def stream_data_default_def split_beta Let_def split: sum.split)
qed

section \<open>An honest stream\<close>

text \<open>
  The checkpoints of a stream: consecutive runs of its records, each note linked to the one before
  and signed with the key of a certified recorder; none is countersigned.
\<close>

fun checkpointed ::
  "'x ext_scheme \<Rightarrow> CertMap \<Rightarrow> ustr option \<Rightarrow> Record list list \<Rightarrow> BundleCheckpoint list \<Rightarrow> bool" where
  "checkpointed X cert_map prev [] bcs \<longleftrightarrow> bcs = []"
| "checkpointed X cert_map prev (chunk # runs) bcs \<longleftrightarrow> (\<exists>cid ts fp note key cert sc h rest.
     build_note_linked X cid chunk ts fp prev = Inr note \<and> map_of cert_map fp = Some cert \<and>
     vc_public_key cert = verifying_key X key \<and> sign_note X note key = Inr sc \<and> note_hash X note = Inr h \<and>
     bcs = \<lparr>bc_checkpoint = sc, bc_countersignature = None\<rparr> # rest \<and> checkpointed X cert_map (Some h) runs rest)"

lemma checkpointed_ConsI:
  "build_note_linked X cid chunk ts fp prev = Inr nt \<Longrightarrow> map_of cm fp = Some cert \<Longrightarrow>
   vc_public_key cert = verifying_key X key \<Longrightarrow> sign_note X nt key = Inr sc \<Longrightarrow> note_hash X nt = Inr h \<Longrightarrow>
   checkpointed X cm (Some h) runs rest \<Longrightarrow>
   checkpointed X cm prev (chunk # runs) (\<lparr>bc_checkpoint = sc, bc_countersignature = None\<rparr> # rest)"
  unfolding checkpointed.simps by blast

definition honest_stream ::
  "('w, 'x) eext_scheme \<Rightarrow> BundleReader \<Rightarrow> VerifyOptions \<Rightarrow> CertMap \<Rightarrow> ustr \<Rightarrow> bool" where
  "honest_stream X r opts cert_map i \<longleftrightarrow> (\<exists>sid rs h runs ls n c.
     i = x_ulid_str X sid \<and> append_all X (chain_genesis X sid) rs = Inr (h, concat runs) \<and> clocks_ok X rs \<and>
     list_all wf_record rs \<and> rs \<noteq> [] \<and> length rs < 2 ^ 64 \<and> list_all (\<lambda>r. r_record_type r \<noteq> CoverageGap) (concat runs) \<and>
     read_stream_records X r i = (ls, Inr n) \<and>
     map (x_json_parse X) ls = map (\<lambda>r. Inr (read_back r)) (concat runs) \<and>
     stream_checkpoints X r i = Inr c \<and> checkpointed X cert_map None runs (st_checkpoints c) \<and>
     map_of (vo_expected_high_water opts) i = Some (r_seq (last (concat runs))))"

lemma honest_chain_data:
  assumes "ulid_law X" and "append_all X (chain_genesis X sid) rs = Inr (h, out)" and "clocks_ok X rs"
    and "list_all wf_record rs" and "read_stream_records X r (x_ulid_str X sid) = (ls, Inr n)"
    and "map (x_json_parse X) ls = map (\<lambda>r. Inr (read_back r)) out"
  shows "snd (chain_data X r (x_ulid_str X sid)) = []"
    "d_hashes_by_seq (fst (chain_data X r (x_ulid_str X sid))) = map (\<lambda>r. (r_seq r, r_record_hash r)) out"
proof -
  obtain sv sv' where v: "verifier_new X (x_ulid_str X sid) = Inr sv" "verify_records X sv (map read_back out) = Inr (sv', [])"
    by (rule honest_lines_verify [OF assms(1-4)])
  have r: "read_stream X r (x_ulid_str X sid) = (ls, None)" using assms(5) by (simp add: read_stream_def)
  have p: "map (x_json_parse X) ls = map Inr (map read_back out)" using assms(6) by (simp add: comp_def)
  show c: "snd (chain_data X r (x_ulid_str X sid)) = []" unfolding r by (rule clean_stream [OF v p])
  obtain d fs where d: "chain_data X r (x_ulid_str X sid) = (d, fs)" by fastforce
  with c have "no_errors fs" by simp
  from clean_pass [OF d [unfolded r] this] obtain vs where
    "map (x_json_parse X) ls = map Inr vs" "d_hashes_by_seq d = map (\<lambda>v. (record_seq v, own_hash v)) vs" by blast
  moreover from this(1) p have "vs = map read_back out" by (metis inj_map_eq_map inj_onI sum.inject(2))
  ultimately show "d_hashes_by_seq (fst (chain_data X r (x_ulid_str X sid))) = map (\<lambda>r. (r_seq r, r_record_hash r)) out"
    using d append_all_encodable [OF assms(2,4)]
    by (simp add: record_seq_def own_hash_def view_of_record_def list_all_iff read_back_view)
qed

lemma distinct_seqs:
  assumes "map r_seq out = map of_nat [0..<length out]" and "length out < 2 ^ 64"
  shows "distinct (map r_seq out)"
  unfolding assms(1) distinct_map using assms(2)
  by (auto intro!: inj_onI dest: arg_cong [of _ _ unat] simp: unat_of_nat_small)

lemma keep_books_gaps: "d_coverage_gap_count (keep_books X note d) = d_coverage_gap_count d"
  by (simp add: keep_books_def Let_def split: sum.splits option.splits)

lemma build_note_linked_Inr:
  "build_note_linked X cid rs ts fp prev = Inr note \<longleftrightarrow>
   (\<exists>n0. build_note X cid rs ts fp = Inr n0 \<and> note = n0\<lparr>n_prev_checkpoint_hash := prev\<rparr>)"
  by (auto simp: build_note_linked_def rbind_eq_Inr)

lemma built_note_valid:
  assumes "build_note_linked X cid rs ts fp prev = Inr nt" and "list_all wf_record rs" and "list_all is_ustr [cid, ts, fp]"
    and "\<forall>h. prev = Some h \<longrightarrow> is_ustr h"
  shows "valid_note nt"
proof -
  from assms(1) have ne: "rs \<noteq> []" by (auto simp: build_note_linked_Inr build_note_Inr)
  have u: "is_ustr (r_stream_id r)" "is_ustr (r_segment_id r)" "is_ustr (r_record_hash r)" if "wf_record r" for r
    using that by (simp_all add: wf_record_def record_to_json_def record_members_def list_all_append)
  have "wf_record (hd rs)" "wf_record (last rs)" using assms(2) ne by (simp_all add: list_all_iff [of wf_record])
  note u(1,2) [OF this(1)] u(3) [OF this(2)]
  with assms show ?thesis
    by (auto simp: valid_note_def build_note_linked_Inr build_note_Inr merkle_root_of_record_hashes_Inr)
qed

lemma seq_range_upt:
  assumes "k < m" and "m \<le> 2 ^ 64"
  shows "seq_range (of_nat k) (of_nat (m - 1)) = map of_nat [k..<m]"
proof -
  have "unat (of_nat k :: u64) = k" "unat (of_nat (m - 1) :: u64) = m - 1"
    using assms by (intro unat_of_nat_small; simp)+
  then show ?thesis using assms(1) by (simp add: seq_range_def del: upt_Suc)
qed

lemma chunk_seqs:
  assumes "map r_seq (pre @ chunk @ post) = map of_nat [0..<length (pre @ chunk @ post)]"
  shows "map r_seq chunk = map of_nat [length pre..<length pre + length chunk]"
proof -
  have "map r_seq chunk = take (length chunk) (drop (length pre) (map r_seq (pre @ chunk @ post)))" by simp
  also have "\<dots> = map of_nat [length pre..<length pre + length chunk]"
    unfolding assms by (simp add: drop_map take_map del: map_append)
  finally show ?thesis .
qed

lemma honest_covered:
  assumes h: "d_hashes_by_seq d = map (\<lambda>r. (r_seq r, r_record_hash r)) out" and out: "out = pre @ chunk @ post"
    and s: "map r_seq out = map of_nat [0..<length out]" and n: "length out < 2 ^ 64"
    and b: "build_note X cid chunk ts fp = Inr n0"
  shows "n_seq_from n0 = of_nat (length pre)" "n_seq_to n0 = of_nat (length pre + length chunk - 1)"
    "seq_range (n_seq_from n0) (n_seq_to n0) = map r_seq chunk"
    "covered_hashes d n0 = map r_record_hash chunk"
proof -
  from b have ne: "chunk \<noteq> []" by (simp add: build_note_Inr)
  have c: "map r_seq chunk = map of_nat [length pre..<length pre + length chunk]" using s unfolding out by (rule chunk_seqs)
  have "r_seq (hd chunk) = of_nat (length pre)" using ne c by (cases chunk) (simp_all add: upt_conv_Cons del: upt_Suc)
  moreover have "r_seq (last chunk) = last (map of_nat [length pre..<length pre + length chunk])"
    unfolding c [symmetric] using ne by (simp add: last_map)
  ultimately show f: "n_seq_from n0 = of_nat (length pre)" and t: "n_seq_to n0 = of_nat (length pre + length chunk - 1)"
    using b ne by (auto simp: build_note_Inr last_map)
  show r: "seq_range (n_seq_from n0) (n_seq_to n0) = map r_seq chunk"
    unfolding f t c using ne n out by (intro seq_range_upt) auto
  have d: "distinct (map r_seq out)" using s n by (rule distinct_seqs)
  have "map_of (d_hashes_by_seq d) (r_seq q) = Some (r_record_hash q)" if "q \<in> set chunk" for q
    using d that unfolding h by (intro map_of_is_SomeI) (auto simp: comp_def out)
  then have "map (map_of (d_hashes_by_seq d)) (map r_seq chunk) = map Some (map r_record_hash chunk)" by simp
  then show "covered_hashes d n0 = map r_record_hash chunk"
    unfolding covered_hashes_def r by (rule map_while_Some)
qed

text \<open>The state of the checkpoint pass after the runs that make up \<open>pre\<close>.\<close>

definition pass_at :: "StreamData \<Rightarrow> Record list \<Rightarrow> ustr option \<Rightarrow> CheckpointPass \<Rightarrow> bool" where
  "pass_at d1 pre prev p \<longleftrightarrow> d_hashes_by_seq (cp_data p) = d_hashes_by_seq d1 \<and>
     d_attested_seqs (cp_data p) = set (map r_seq pre) \<and> d_countersigned_high_water (cp_data p) = None \<and>
     d_coverage_gap_count (cp_data p) = d_coverage_gap_count d1 \<and>
     snd ` set (d_checkpoint_links (cp_data p)) \<subseteq> d_checkpoint_note_hashes (cp_data p) \<and>
     (\<forall>h. prev = Some h \<longrightarrow> h \<in> d_checkpoint_note_hashes (cp_data p)) \<and>
     list_all (\<lambda>(f, t, _). t < of_nat (length pre)) (cp_ranges p)"

lemma no_forks: "list_all (\<lambda>(f, t, _). t < n_seq_from note) ranges \<Longrightarrow> fork_findings st note ranges = []"
  by (induction ranges) (auto simp: fork_findings_def Let_def not_le split: prod.splits)

lemma honest_step:
  assumes law: "ed25519_law X" and bl: "build_note_linked X cid chunk ts fp prev = Inr nt" and sc: "sign_note X nt key = Inr sc"
    and cert: "map_of cm fp = Some cert" "vc_public_key cert = verifying_key X key" and nh: "note_hash X nt = Inr hh"
    and st: "n_stream_id nt = i" and out: "out = pre @ chunk @ post"
    and h: "d_hashes_by_seq d1 = map (\<lambda>r. (r_seq r, r_record_hash r)) out"
    and s: "map r_seq out = map of_nat [0..<length out]" and n: "length out < 2 ^ 64" and p: "pass_at d1 pre prev p"
  shows "\<exists>p' fs. verify_checkpoint X i cm None ks p \<lparr>bc_checkpoint = sc, bc_countersignature = None\<rparr> = (p', fs) \<and>
    compute_result fs = Pass \<and> pass_at d1 (pre @ chunk) (Some hh) p'"
proof -
  from bl obtain n0 where b: "build_note X cid chunk ts fp = Inr n0" and nt: "nt = n0\<lparr>n_prev_checkpoint_hash := prev\<rparr>"
    by (auto simp: build_note_linked_Inr)
  then have ne: "chunk \<noteq> []" by (simp add: build_note_Inr)
  have hp: "d_hashes_by_seq (cp_data p) = map (\<lambda>r. (r_seq r, r_record_hash r)) out" using p h by (simp add: pass_at_def)
  note cov = honest_covered [OF hp out s n b]
  from sc have sc': "sc_note sc = nt" "sign_jcs X key (note_json nt) = Inr (sc_signature sc)"
    by (auto simp: sign_note_def rbind_eq_Inr)
  have v: "checkpoint_verify X sc (vc_public_key cert) = Inr ()"
    using verify_sign_jcs [OF law sc'(2)] by (simp add: checkpoint_verify_def cert(2) sc'(1))
  have rt: "verify_root X sc (map r_record_hash chunk) = Inr ()"
    using b ne by (auto simp: verify_root_Inr sc'(1) nt build_note_Inr last_map)
  have len: "of_nat (length chunk) = n_seq_to nt - n_seq_from nt + 1"
    using ne cov(1,2) by (cases chunk) (simp_all add: nt)
  have cv: "covered_hashes (cp_data p) nt = map r_record_hash chunk" using cov(4) by (simp add: nt covered_hashes_def)
  have sr: "seq_range (n_seq_from nt) (n_seq_to nt) = map r_seq chunk" using cov(3) by (simp add: nt)
  let ?d = "(cp_data p)\<lparr>d_attested_seqs := set (map r_seq (pre @ chunk))\<rparr>"
  have cr: "check_root X i sc (cp_data p) = (?d, [], True)"
    using p by (simp add: check_root_def Let_def sc'(1) cv rt len sr pass_at_def)
  have fp: "n_recorder_cert_fingerprint nt = fp" using b by (auto simp: build_note_Inr nt)
  have nf: "fork_findings i nt (cp_ranges p) = []"
    using p cov(1) by (intro no_forks) (simp add: pass_at_def nt)
  let ?p = "\<lparr>cp_data = keep_books X nt ?d, cp_ranges = cp_ranges p @ [(n_seq_from nt, n_seq_to nt, n_merkle_root nt, n_checkpoint_id nt)]\<rparr>"
  have "\<exists>fs. verify_checkpoint X i cm None ks p \<lparr>bc_checkpoint = sc, bc_countersignature = None\<rparr> = (?p, fs) \<and> compute_result fs = Pass"
    using st v cert(1) by (simp add: verify_checkpoint_def sc'(1) fp cr nf check_countersignature_def
      signed_after_revocation_def Let_def)
  moreover have "pass_at d1 (pre @ chunk) (Some hh) ?p"
    unfolding pass_at_def
  proof (intro conjI)
    have lt: "of_nat k < (of_nat (length (pre @ chunk)) :: u64)" if "k < length (pre @ chunk)" for k
    proof -
      have "k < 2 ^ 64" "length (pre @ chunk) < 2 ^ 64" using that n out by auto
      with that show ?thesis unfolding word_less_nat_alt by (simp only: unat_of_nat_small)
    qed
    have "n_seq_to nt < of_nat (length (pre @ chunk))" using ne cov(2) lt [of "length pre + length chunk - 1"] by (simp add: nt)
    moreover have "(of_nat (length pre) :: u64) < of_nat (length (pre @ chunk))" using ne by (intro lt) simp
    ultimately show "list_all (\<lambda>(f, t, _). t < of_nat (length (pre @ chunk))) (cp_ranges ?p)"
      using p by (fastforce simp: pass_at_def list_all_iff)
  qed (use p nh nt in \<open>auto simp: pass_at_def keep_books_books keep_books_gaps split: option.splits\<close>)
  ultimately show ?thesis by blast
qed

lemma honest_loop:
  assumes law: "ed25519_law X" and h: "d_hashes_by_seq d1 = map (\<lambda>r. (r_seq r, r_record_hash r)) out"
    and s: "map r_seq out = map of_nat [0..<length out]" and n: "length out < 2 ^ 64"
    and st: "list_all (\<lambda>r. r_stream_id r = i) out"
  shows "checkpointed X cm prev runs bcs \<Longrightarrow> out = pre @ concat runs \<Longrightarrow> pass_at d1 pre prev p \<Longrightarrow>
    \<exists>p' fs prev'. checkpoint_loop X i cm None ks p bcs = (p', fs) \<and> compute_result fs = Pass \<and> pass_at d1 out prev' p'"
proof (induction runs arbitrary: prev bcs pre p)
  case (Cons chunk runs)
  then obtain cid ts fp nt key cert sc hh rest where
    b: "build_note_linked X cid chunk ts fp prev = Inr nt" and c: "map_of cm fp = Some cert"
      "vc_public_key cert = verifying_key X key" and sc: "sign_note X nt key = Inr sc" and nh: "note_hash X nt = Inr hh"
    and bcs: "bcs = \<lparr>bc_checkpoint = sc, bc_countersignature = None\<rparr> # rest" "checkpointed X cm (Some hh) runs rest"
    by auto
  from b st Cons.prems(2) have "n_stream_id nt = i"
    by (auto simp: build_note_linked_Inr build_note_Inr list_all_iff)
  from honest_step [OF law b sc c nh this _ h s n Cons.prems(3), of "concat runs" ks] Cons.prems(2) obtain p1 f1 where
    1: "verify_checkpoint X i cm None ks p \<lparr>bc_checkpoint = sc, bc_countersignature = None\<rparr> = (p1, f1)"
      "compute_result f1 = Pass" "pass_at d1 (pre @ chunk) (Some hh) p1" by auto
  from Cons.IH [OF bcs(2) _ 1(3)] Cons.prems(2) obtain p2 f2 prev' where
    "checkpoint_loop X i cm None ks p1 rest = (p2, f2)" "compute_result f2 = Pass" "pass_at d1 out prev' p2" by auto
  with 1 bcs(1) show ?case by auto
qed (auto simp: pass_at_def)

section \<open>The whole run\<close>

lemma pass_concat: "compute_result (concat fss) = Pass \<longleftrightarrow> (\<forall>fs \<in> set fss. compute_result fs = Pass)"
  by (induction fss) auto

lemma pass_Cons: "compute_result (f # fs) = Pass \<longleftrightarrow> f_severity f = Info \<and> compute_result fs = Pass"
  by (cases "f_severity f") (auto simp: compute_result_def)

lemma pass_infos: "compute_result (map (\<lambda>x. add_at Info c (m x) st q) xs) = Pass"
  by (simp add: compute_result_def list_ex_iff add_at_def)

lemma chain_stage_pass:
  "\<forall>i \<in> sco_stream_id ` set scopes. compute_result (snd (chain_data X r i)) = Pass \<Longrightarrow>
   compute_result (snd (chain_stage X r scopes st)) = Pass"
  by (induction scopes arbitrary: st) (auto simp: split_beta Let_def)

lemma no_anchors:
  assumes "anchor_proofs X r = Inr anchor_proofs_default"
  shows "verify_anchors X r (proofs_of X r) st keys = ((st, None), [])"
  using assms by (simp add: proofs_of_def anchor_proofs_default_def verify_anchors_def)

lemma honest_coverage:
  assumes "d_hashes_by_seq d = map (\<lambda>r. (r_seq r, r_record_hash r)) out" and "out \<noteq> []" and "distinct (map r_seq out)"
    and "d_attested_seqs d = set (map r_seq out)" and "snd ` set (d_checkpoint_links d) \<subseteq> d_checkpoint_note_hashes d"
    and "d_coverage_gap_count d = 0" and "d_countersigned_high_water d = None"
    and "map_of (vo_expected_high_water opts) i = Some (r_seq (last out))"
  shows "compute_result (coverage_findings opts (i, d)) = Pass"
proof -
  have "unattested d = 0"
    using assms(1,4) distinct_card [OF assms(3)] by (simp add: unattested_def)
  moreover have "max_present d = Some (r_seq (last out))" using assms(1,2) by (simp add: max_present_def last_map)
  moreover have "broken_links i d = []" using assms(5) by (force simp: broken_links_def)
  ultimately show ?thesis using assms(6-8)
    by (simp add: coverage_findings_def truncation_def unproven_tail_def pass_infos)
qed

lemma honest_stream_passes:
  assumes laws: "ulid_law X" "ed25519_law X" and h: "honest_stream X r opts (tru_cert_map trust) i"
    and rv: "tru_revocations trust = None"
  shows "compute_result (snd (chain_data X r i)) = Pass \<and> (\<exists>d fs.
    checkpoint_stage X r trust (i, fst (chain_data X r i)) = ((i, d), fs) \<and> compute_result fs = Pass \<and>
    compute_result (coverage_findings opts (i, d)) = Pass)"
proof -
  from h obtain sid rs h runs ls n c where
    i: "i = x_ulid_str X sid" and a: "append_all X (chain_genesis X sid) rs = Inr (h, concat runs)" "clocks_ok X rs" "list_all wf_record rs"
    and ne: "rs \<noteq> []" and n: "length rs < 2 ^ 64" and g: "list_all (\<lambda>r. r_record_type r \<noteq> CoverageGap) (concat runs)"
    and l: "read_stream_records X r (x_ulid_str X sid) = (ls, Inr n)"
      "map (x_json_parse X) ls = map (\<lambda>r. Inr (read_back r)) (concat runs)"
    and c: "stream_checkpoints X r i = Inr c" "checkpointed X (tru_cert_map trust) None runs (st_checkpoints c)"
    and hw: "map_of (vo_expected_high_water opts) i = Some (r_seq (last (concat runs)))"
    unfolding honest_stream_def by blast
  note data = honest_chain_data [OF laws(1) a l, folded i]
  let ?out = "concat runs" and ?d1 = "fst (chain_data X r i)"
  have seqs: "map r_seq ?out = map of_nat [0..<length ?out]" and len: "length ?out = length rs"
    by (rule genesis_seqs [OF a(1)] append_all_length [OF a(1)])+
  have st: "list_all (\<lambda>r. r_stream_id r = i) ?out"
    using append_all_stream [OF a(1)] by (simp add: i chain_genesis_def)
  have un: "unexamined ?d1" by (rule unexamined_stream)
  have "pass_at ?d1 [] None \<lparr>cp_data = ?d1, cp_ranges = []\<rparr>" using un by (simp add: pass_at_def unexamined_def)
  from honest_loop [OF laws(2) data(2) seqs n [folded len] st c(2) _ this, of "tru_console_keys trust"] obtain p fs prev where
    p: "checkpoint_loop X i (tru_cert_map trust) None (tru_console_keys trust) \<lparr>cp_data = ?d1, cp_ranges = []\<rparr>
      (st_checkpoints c) = (p, fs)" "compute_result fs = Pass" "pass_at ?d1 ?out prev p" by auto
  let ?d = "(cp_data p)\<lparr>d_checkpoints := st_checkpoints c\<rparr>"
  have cs: "checkpoint_stage X r trust (i, ?d1) = ((i, ?d), fs)"
    using c(1) p(1) rv by (simp add: checkpoint_stage_def verify_checkpoints_def)
  have gap: "d_coverage_gap_count ?d1 = 0"
    using stream_gaps [OF l(2) append_all_encodable [OF a(1,3)] g] l(1) by (simp add: i read_stream_def)
  have "compute_result (coverage_findings opts (i, ?d)) = Pass"
  proof (rule honest_coverage)
    show "distinct (map r_seq ?out)" using seqs n by (intro distinct_seqs) (simp_all add: len)
    show "?out \<noteq> []" using ne len by (metis length_0_conv)
  qed (use p(3) data(2) gap hw in \<open>simp_all add: pass_at_def\<close>)
  with data(1) p(2) cs show ?thesis by auto
qed

lemma honest_run_passes:
  assumes "ulid_law X" and "ed25519_law X"
    and "m_schema_version (br_manifest r) = BUNDLE_SCHEMA_VERSION" and "verify_content_hashes X r = Inr []"
    and "identity X r = Inr ident" and "bi_revocations ident = None" and "rf_console_keys (bi_roots ident) = []"
    and "vo_root_pem_override opts = Some root_pem" and "vo_console_key_override opts = None"
    and "build_cert_map X (Some (bi_certs_pem ident)) [root_pem] (now_of X opts) = (cert_map, [])"
    and "anchor_proofs X r = Inr anchor_proofs_default"
    and "\<forall>i \<in> scoped r. honest_stream X r opts cert_map i"
  shows "rp_result (verify_bundle X r opts) = Pass"
proof -
  have t: "identity_stage X r opts (now_of X opts) = (\<lparr>tru_root_pems = [root_pem], tru_cert_map = cert_map,
      tru_console_keys = [], tru_revocations = None\<rparr>, [add Info ''root_source'' [S (lit ''root source: --root override'')]])"
    using assms(5-10) by (simp add: identity_stage_def select_roots_def resolve_console_keys_def check_revocation_list_def)
      (simp add: lit_def)
  then have trust: "tru_cert_map (trust_of X r opts) = cert_map" "tru_revocations (trust_of X r opts) = None"
    by (simp_all add: trust_of_def)
  let ?s1 = "fst (chain_stage X r (bs_streams (m_scope (br_manifest r))) [])"
  have streams: "streams_of X r opts = map (fst \<circ> checkpoint_stage X r (trust_of X r opts)) ?s1"
    by (simp add: streams_of_def no_anchors [OF assms(11)] checkpoint_stages_def Let_def)
  have p: "compute_result (snd (chain_data X r i)) = Pass \<and>
      compute_result (snd (checkpoint_stage X r (trust_of X r opts) (i, fst (chain_data X r i)))) = Pass \<and>
      compute_result (coverage_findings opts (fst (checkpoint_stage X r (trust_of X r opts) (i, fst (chain_data X r i))))) = Pass"
    if "i \<in> scoped r" for i
    using honest_stream_passes [OF assms(1,2) _ trust(2)] assms(12) trust(1) that by fastforce
  have e: "\<exists>i \<in> scoped r. q = (i, fst (chain_data X r i))" if "q \<in> set ?s1" for q
    using that chain_stage_member [of "fst q" "snd q"] by (metis prod.collapse)
  have "compute_result (snd (chain_stage X r (bs_streams (m_scope (br_manifest r))) [])) = Pass"
    using p by (intro chain_stage_pass) blast
  moreover have "compute_result (snd (checkpoint_stages X r (trust_of X r opts) ?s1)) = Pass"
    using p e by (fastforce simp: checkpoint_stages_def Let_def pass_concat)
  moreover have "compute_result (concat (map (coverage_findings opts) (streams_of X r opts))) = Pass"
    unfolding streams using p e by (fastforce simp: pass_concat)
  ultimately show ?thesis
    using assms(3,4) t by (simp add: bundle_findings no_anchors [OF assms(11)] check_schema_def check_container_def pass_Cons
      add_def)
qed

end
