(* ===== verification/Demo_Run.thy ===== *)
theory Demo_Run
  imports Honest
begin

text \<open>
  A concrete honest bundle, on which the hypotheses of the engine's theorems hold together: one
  stream of two records, each under its own checkpoint, the second linked to the first.
\<close>

definition demo_der :: bytes where
  "demo_der = [3, 1, 0, 0, 9]"

definition demo_root :: ustr where
  "demo_root = [1, 1, 1, 0, 9]"

definition demo_entries :: "(ustr \<times> bytes) list" where
  "demo_entries = [(lit ''records/index.json'', []), (lit ''x'', [0, 10, 1]), (lit ''checkpoints/5.json'', []),
     (lit ''identity/certs.pem'', demo_der), (lit ''identity/roots.json'', [])]"

definition demo_archive :: "(ustr \<times> bytes) list" where
  "demo_archive = demo_entries @ [(lit ''manifest.json'', [])]"

definition demo_full_manifest :: Manifest where
  "demo_full_manifest = (demo_manifest (map (entry_of demo_ext) demo_entries))
     \<lparr>m_scope := \<lparr>bs_level = Metadata, bs_ts_from = None, bs_ts_to = None, bs_resources = [],
        bs_streams = [\<lparr>sco_stream_id = lit ''5'', sco_seq_from = 0, sco_seq_to = 1, sco_record_count = 2\<rparr>]\<rparr>\<rparr>"

definition demo_run :: "Record list \<Rightarrow> BundleCheckpoint list \<Rightarrow> (ustr \<times> bytes) list eext" where
  "demo_run out bcs = (demo_engine (\<lambda>l. Inr (read_back (out ! unat (hd l)))) demo_full_manifest
       \<lparr>ri_streams = [\<lparr>ri_stream_id = lit ''5'', ri_shards = [lit ''x''], ri_seq_from = 0, ri_seq_to = 1, ri_record_count = 2\<rparr>]\<rparr>)
     \<lparr>x_parse_checkpoints := (\<lambda>b. Inr \<lparr>st_stream_id = lit ''5'', st_checkpoints = bcs\<rparr>),
      x_parse_roots := (\<lambda>b. Inr \<lparr>rf_roots = [], rf_console_keys = []\<rparr>),
      x_pem_items := (\<lambda>b. if b = str_bytes (der_to_pem demo_der) then [Inr (lit ''CERTIFICATE'', demo_der)]
        else demo_pem b)\<rparr>"

lemma demo_run_simps [simp]:
  "x_blake3 (demo_run out bcs) = demo_digest 257"
  "x_ulid_parse (demo_run out bcs) = x_ulid_parse demo_ext"
  "x_ulid_str (demo_run out bcs) = x_ulid_str demo_ext"
  "x_rfc3339 (demo_run out bcs) = x_rfc3339 demo_ext"
  "x_ed_public (demo_run out bcs) = id"
  "x_ed_sign (demo_run out bcs) = demo_sign"
  "x_ed_verify (demo_run out bcs) = (\<lambda>pk m s. s = demo_sign pk m)"
  "x_json_parse (demo_run out bcs) = (\<lambda>l. Inr (read_back (out ! unat (hd l))))"
  "x_zstd_decode (demo_run out bcs) = (\<lambda>file. Inr (zf_data file, zf_error file))"
  "x_parse_index (demo_run out bcs) = (\<lambda>b. Inr
     \<lparr>ri_streams = [\<lparr>ri_stream_id = lit ''5'', ri_shards = [lit ''x''], ri_seq_from = 0, ri_seq_to = 1, ri_record_count = 2\<rparr>]\<rparr>)"
  "x_parse_checkpoints (demo_run out bcs) = (\<lambda>b. Inr \<lparr>st_stream_id = lit ''5'', st_checkpoints = bcs\<rparr>)"
  "x_parse_roots (demo_run out bcs) = (\<lambda>b. Inr \<lparr>rf_roots = [], rf_console_keys = []\<rparr>)"
  "x_pem_items (demo_run out bcs) = (\<lambda>b. if b = str_bytes (der_to_pem demo_der) then [Inr (lit ''CERTIFICATE'', demo_der)]
        else demo_pem b)"
  "x_now (demo_run out bcs) = 5"
  by (simp_all add: demo_run_def) (simp add: demo_engine_def)

definition demo_reader :: BundleReader where
  "demo_reader = \<lparr>br_zip = archive_of demo_archive, br_manifest = demo_full_manifest\<rparr>"

definition demo_options :: VerifyOptions where
  "demo_options = \<lparr>vo_root_pem_override = Some demo_root, vo_console_key_override = None, vo_now_unix = None,
     vo_expected_high_water = [(lit ''5'', 1)]\<rparr>"

section \<open>The container\<close>

lemma demo_read:
  "read_entry (br_zip demo_reader) name = (case map_of demo_archive name of None \<Rightarrow> Inl (MissingEntry [S name]) | Some b \<Rightarrow> Inr b)"
  by (simp add: demo_reader_def read_archive)

lemmas demo_reads = demo_read demo_archive_def demo_entries_def

lemma demo_open: "reader_open (demo_run out bcs) demo_archive = Inr demo_reader"
  by (simp add: reader_open_def demo_run_def demo_engine_def with_engine_def with_tokens_def demo_bundle_def with_parser_def
    with_certs_def ext.defs cext.defs vext.defs bext.defs tsext.defs eext.defs demo_reader_def or_zip_def read_archive)
    (simp add: demo_archive_def demo_entries_def)

lemma demo_scoped: "scoped demo_reader = {lit ''5''}"
  by (simp add: demo_reader_def demo_full_manifest_def)

lemma demo_contents: "verify_content_hashes (demo_run out bcs) demo_reader = Inr []"
proof -
  have "distinct (map fst demo_archive)" by (simp add: demo_archive_def demo_entries_def lit_def)
  then have "check_contents (demo_run out bcs) (br_zip demo_reader) (map (entry_of (demo_run out bcs)) demo_entries) = Inr ()"
    unfolding demo_reader_def demo_archive_def by (simp add: check_archive)
  moreover have "entry_of (demo_run out bcs) = entry_of demo_ext" by (simp add: fun_eq_iff entry_of_def blake3_hex_def)
  moreover have "collect_res (map or_zip (za_index (br_zip demo_reader))) = Inr (map fst demo_archive)"
    unfolding collect_or_zip by (simp add: demo_reader_def archive_of_def)
  moreover have "m_contents (br_manifest demo_reader) = map (entry_of demo_ext) demo_entries"
    by (simp add: demo_reader_def demo_full_manifest_def demo_manifest_def)
  ultimately show ?thesis
    by (simp add: verify_content_hashes_def) (auto simp: filter_empty_conv is_unlisted_def entry_of_def demo_archive_def)
qed

lemma demo_identity:
  "identity (demo_run out bcs) demo_reader = Inr \<lparr>bi_certs_pem = map unat demo_der, bi_revocations = None,
     bi_roots = \<lparr>rf_roots = [], rf_console_keys = []\<rparr>\<rparr>"
proof -
  have "utf8_decode demo_der = Some (map unat demo_der)"
    by (simp add: demo_der_def utf8_first_def utf8_width_def utf8_lead_def utf8_char_def is_char_def)
  then show ?thesis
    by (simp add: identity_def demo_reads read_revocations_def or_json_def)
qed

lemma demo_proofs: "anchor_proofs (demo_run out bcs) demo_reader = Inr anchor_proofs_default"
  by (simp add: anchor_proofs_def demo_reads)

lemma demo_shard_lines: "read_stream_records (demo_run out bcs) demo_reader (lit ''5'') = ([[0], [1]], Inr 2)"
  by (simp add: read_stream_records_def record_index_def demo_reads or_json_def)
    (simp add: demo_reader_def archive_of_def demo_archive_def demo_entries_def shard_lines_def)

lemma demo_checkpoints:
  "stream_checkpoints (demo_run out bcs) demo_reader (lit ''5'') = Inr \<lparr>st_stream_id = lit ''5'', st_checkpoints = bcs\<rparr>"
  by (simp add: stream_checkpoints_def demo_reads or_json_def lit_def)

section \<open>The certificate\<close>

definition demo_trust :: "('w, 'x) eext_scheme \<Rightarrow> bool" where
  "demo_trust X \<longleftrightarrow> x_blake3 X = demo_digest 257 \<and> x_x509_parse X = demo_x509 \<and> x_asn1_time X = Inr \<and> x_ed_key X = Inr \<and>
     x_pem_items X = (\<lambda>b. if b = str_bytes (der_to_pem demo_der) then [Inr (lit ''CERTIFICATE'', demo_der)] else demo_pem b) \<and>
     x_valid_at X = (\<lambda>c t. c_not_before c \<le> t \<and> t \<le> c_not_after c) \<and>
     x_verify_cert X = (\<lambda>c issuer. if c_issuer c = c_subject issuer then Inr () else Inl (lit ''bad signature''))"

lemma demo_run_trust: "demo_trust (demo_run out bcs)"
  by (simp add: demo_trust_def demo_run_def with_engine_def demo_engine_def with_tokens_def demo_bundle_def
      with_parser_def with_certs_def ext.defs cext.defs vext.defs bext.defs tsext.defs eext.defs demo_ext_def)

lemma demo_cert_map:
  fixes X :: "('w, 'x) eext_scheme"
  assumes "demo_trust X"
  obtains vc where "build_cert_map X (Some (map unat demo_der)) [demo_root] 5 =
      ([(blake3_hex demo_ext demo_der, vc)], [])" "vc_public_key vc = \<lparr>vk_inner = replicate 32 3\<rparr>"
proof -
  obtain q where q: "str_bytes (der_to_pem demo_der) = 45 # q"
    by (simp add: der_to_pem_def lit_def str_bytes_Cons utf8_char_def)
  have p: "parse_pem_chain X (map unat demo_der) = Inr [demo_der]" "parse_pem_chain X demo_root = Inr [[1, 1, 1, 0, 9]]"
    "parse_pem_chain X (der_to_pem demo_der) = Inr [demo_der]"
    using assms by (simp_all add: parse_pem_chain_def q demo_trust_def) (simp_all add: demo_der_def demo_root_def str_bytes_def utf8_char_def)
  have "\<exists>vc. validate_chain X (der_to_pem demo_der) [] demo_root 5 = Inr vc \<and> vc_public_key vc = \<lparr>vk_inner = replicate 32 3\<rparr>"
    unfolding validate_chain_def p using assms
    by (simp add: demo_der_def parse_der_def check_validity_def walk.simps verify_signed_by_def is_ca_def
      extract_ed25519_key_def key_from_bytes_def demo_trust_def)
  then obtain vc where v: "validate_chain X (der_to_pem demo_der) [] demo_root 5 = Inr vc"
    "vc_public_key vc = \<lparr>vk_inner = replicate 32 3\<rparr>" by blast
  have "vc_fingerprint vc = blake3_hex demo_ext demo_der"
    using validate_chain_fingerprint [OF v(1) p(3)] assms by (simp add: blake3_hex_def demo_trust_def)
  with v show ?thesis
    by (intro that) (simp_all add: build_cert_map_def p add_cert_def hash_insert_def del: One_nat_def)
qed

section \<open>The records and their checkpoints\<close>

definition demo_crypto :: "'x ext_scheme \<Rightarrow> bool" where
  "demo_crypto X \<longleftrightarrow> x_blake3 X = demo_digest 257 \<and> x_ulid_parse X = x_ulid_parse demo_ext \<and> x_ulid_str X = x_ulid_str demo_ext \<and>
     x_rfc3339 X = x_rfc3339 demo_ext \<and> x_ed_public X = id \<and> x_ed_sign X = demo_sign \<and>
     x_ed_verify X = (\<lambda>pk m s. s = demo_sign pk m)"

lemma demo_run_crypto: "demo_crypto (demo_run out bcs)"
  by (simp add: demo_crypto_def)

lemma demo_crypto_laws: "demo_crypto X \<Longrightarrow> ulid_law X" "demo_crypto X \<Longrightarrow> ed25519_law X"
  using demo_ulid_law demo_ed25519_law by (simp_all add: ulid_law_def ed25519_law_def demo_crypto_def)

lemma demo_core:
  assumes "demo_crypto X"
  shows "chain_genesis X = chain_genesis demo_ext" "chain_append X = chain_append demo_ext"
    "note_hash X = note_hash demo_ext" "sign_note X = sign_note demo_ext" "verifying_key X = verifying_key demo_ext"
  using assms by (simp_all add: fun_eq_iff chain_genesis_def genesis_prev_hash_def chain_append_def finalize_def compute_hash_content
    blake3_hex_def note_hash_def sign_note_def sign_jcs_def sign_digest_def verifying_key_def blake3_raw_def demo_crypto_def)

lemma demo_append_all: "demo_crypto X \<Longrightarrow> append_all X h rs = append_all demo_ext h rs"
  by (induction rs arbitrary: h) (simp_all add: demo_core split: prod.splits sum.splits)

lemma demo_single_note:
  "demo_crypto X \<Longrightarrow> build_note_linked X cid [a] ts fp prev = build_note_linked demo_ext cid [a] ts fp prev"
  by (cases "hex_decode_digest ''record_hash'' (r_record_hash a)")
    (simp_all add: build_note_linked_def build_note_def merkle_root_of_record_hashes_def merkle_root_def
      leaf_hash_def blake3_raw_def demo_crypto_def)

definition demo_key :: SigningKey where
  "demo_key = \<lparr>sk_inner = replicate 32 3\<rparr>"

lemma demo_checkpoint_of:
  assumes "is_ok (hex_decode_digest ''record_hash'' (r_record_hash a))" and "uint (r_seq a) \<le> 2 ^ 53 - 1"
  obtains nt sc h where "build_note_linked demo_ext cid [a] ts fp prev = Inr nt" "sign_note demo_ext nt demo_key = Inr sc"
    "note_hash demo_ext nt = Inr h" "sc_note sc = nt" "n_prev_checkpoint_hash nt = prev"
proof -
  from assms(1) obtain nt where nt: "build_note_linked demo_ext cid [a] ts fp prev = Inr nt"
    by (auto simp: build_note_linked_def build_note_def checked_sub_def merkle_root_of_record_hashes_def is_ok_iff)
  with assms(2) have "is_ok (to_jcs_bytes (note_json nt))"
    by (auto simp: to_jcs_bytes_ok note_json_def build_note_linked_Inr build_note_Inr split: option.splits)
  then obtain sc h where "sign_note demo_ext nt demo_key = Inr sc" "note_hash demo_ext nt = Inr h" "sc_note sc = nt"
    by (auto simp: sign_note_def sign_jcs_def note_hash_def is_ok_iff)
  with nt show ?thesis by (intro that [OF nt]) (auto simp: build_note_linked_Inr)
qed

lemma demo_two_records:
  obtains h a b where "append_all demo_ext (chain_genesis demo_ext 5) [demo_record None, demo_record None] = Inr (h, [a, b])"
    "r_seq a = 0" "r_seq b = 1" "r_record_type a \<noteq> CoverageGap" "r_record_type b \<noteq> CoverageGap"
    "is_ok (hex_decode_digest ''record_hash'' (r_record_hash a))" "is_ok (hex_decode_digest ''record_hash'' (r_record_hash b))"
proof -
  have u: "x_ulid_str demo_ext 5 = lit ''5''" by (simp add: demo_texts)
  obtain h1 a where a: "chain_append demo_ext (chain_genesis demo_ext 5) (demo_record None) = ((h1, a), Inr ())"
    "h_stream_id h1 = 5" "h_last_seq h1 = Some 0"
    using u demo_append [of demo_ext "chain_genesis demo_ext 5"] by (auto simp: chain_genesis_def next_seq_def)
  obtain h2 b where b: "chain_append demo_ext h1 (demo_record None) = ((h2, b), Inr ())"
    using u a demo_append [of demo_ext h1] by (auto simp: next_seq_def)
  have d: "is_ok (hex_decode_digest ''record_hash'' (r_record_hash r))"
    if "chain_append demo_ext h0 (demo_record None) = ((h', r), Inr ())" for h0 h' r
    using that by (auto simp: chain_append_Inr compute_hash_content rbind_eq_Inr blake3_hex_def hex_decode_digest_encode)
  show ?thesis
  proof (rule that [of h2 a b])
    show "r_seq a = 0" "r_seq b = 1" "r_record_type a \<noteq> CoverageGap" "r_record_type b \<noteq> CoverageGap"
      using a b by (auto simp: chain_append_Inr chain_genesis_def next_seq_def demo_record_def)
  qed (use a b d in simp_all)
qed

definition demo_ident :: BundleIdentity where
  "demo_ident = \<lparr>bi_certs_pem = map unat demo_der, bi_revocations = None, bi_roots = \<lparr>rf_roots = [], rf_console_keys = []\<rparr>\<rparr>"

text \<open>Two records of one stream and their checkpoints, for every library that has the concrete primitives.\<close>

abbreviation demo_fp :: ustr where
  "demo_fp \<equiv> blake3_hex demo_ext demo_der"

lemma demo_signed_stream:
  obtains h a b bcs bc prev where
    "append_all demo_ext (chain_genesis demo_ext 5) [demo_record None, demo_record None] = Inr (h, [a, b])"
    "r_seq a = 0" "r_seq b = 1" "r_record_type a \<noteq> CoverageGap" "r_record_type b \<noteq> CoverageGap"
    "bc \<in> set bcs" "n_prev_checkpoint_hash (sc_note (bc_checkpoint bc)) = Some prev"
    "\<forall>(X :: 'x ext_scheme) vc. demo_crypto X \<longrightarrow> vc_public_key vc = verifying_key demo_ext demo_key \<longrightarrow>
       checkpointed X [(demo_fp, vc)] None [[a], [b]] bcs"
    "valid_note (sc_note (bc_checkpoint (hd bcs)))"
proof -
  obtain h a b where out: "append_all demo_ext (chain_genesis demo_ext 5) [demo_record None, demo_record None] = Inr (h, [a, b])"
    "r_seq a = 0" "r_seq b = 1" "r_record_type a \<noteq> CoverageGap" "r_record_type b \<noteq> CoverageGap"
    and dg: "is_ok (hex_decode_digest ''record_hash'' (r_record_hash a))" "is_ok (hex_decode_digest ''record_hash'' (r_record_hash b))"
    by (rule demo_two_records)
  obtain na sa ha where a: "build_note_linked demo_ext (lit ''c'') [a] (lit ''1'') demo_fp None = Inr na"
    "sign_note demo_ext na demo_key = Inr sa" "note_hash demo_ext na = Inr ha" "sc_note sa = na"
    by (rule demo_checkpoint_of [OF dg(1)]) (simp add: out)
  obtain nb sb hb where b: "build_note_linked demo_ext (lit ''d'') [b] (lit ''1'') demo_fp (Some ha) = Inr nb"
    "sign_note demo_ext nb demo_key = Inr sb" "note_hash demo_ext nb = Inr hb" "sc_note sb = nb" "n_prev_checkpoint_hash nb = Some ha"
    by (rule demo_checkpoint_of [OF dg(2)]) (simp add: out)
  let ?bcs = "[\<lparr>bc_checkpoint = sa, bc_countersignature = None\<rparr>, \<lparr>bc_checkpoint = sb, bc_countersignature = None\<rparr>]"
  have cp: "checkpointed X [(demo_fp, vc)] None [[a], [b]] ?bcs"
    if X: "demo_crypto X" and vc: "vc_public_key vc = verifying_key demo_ext demo_key" for X :: "'x ext_scheme" and vc
    by (rule checkpointed_ConsI [where key = demo_key and cert = vc and nt = na and h = ha and fp = demo_fp],
        (use a vc in \<open>simp_all add: demo_core [OF X] demo_single_note [OF X]\<close>)[5],
        rule checkpointed_ConsI [where key = demo_key and cert = vc and nt = nb and h = hb and fp = demo_fp])
      (use b vc in \<open>simp_all add: demo_core [OF X] demo_single_note [OF X]\<close>)
  have "list_all wf_record [demo_record None, demo_record None]" by (simp add: wf_demo_record)
  from append_all_encodable [OF out(1) this] have "valid_note na"
    by (intro built_note_valid [OF a(1)]) (simp_all add: blake3_hex_def)
  with a(4) b(4,5) cp show ?thesis
    by (intro that [OF out, of "\<lparr>bc_checkpoint = sb, bc_countersignature = None\<rparr>" ?bcs ha]) simp_all
qed

lemma demo_clocks_two: "demo_crypto X \<Longrightarrow> clocks_ok X [demo_record None, demo_record None]"
  by (simp add: clocks_ok_def clock_step_def demo_record_def parse_wall_def WALL_TOLERANCE_MS_def demo_texts demo_crypto_def)

lemma demo_run_digest32: "digest32 (demo_run out bcs)"
  by (simp add: digest32_def demo_run_def with_engine_def demo_engine_def with_tokens_def demo_bundle_def
      with_parser_def with_certs_def ext.defs cext.defs vext.defs bext.defs tsext.defs eext.defs demo_ext_def)

lemma demo_hypotheses:
  obtains X :: "(ustr \<times> bytes) list eext" and r cert_map c bc prev h a b where "ulid_law X" "ed25519_law X"
    "m_schema_version (br_manifest r) = BUNDLE_SCHEMA_VERSION" "verify_content_hashes X r = Inr []"
    "identity X r = Inr demo_ident"
    "build_cert_map X (Some (bi_certs_pem demo_ident)) [demo_root] (now_of X demo_options) = (cert_map, [])"
    "anchor_proofs X r = Inr anchor_proofs_default" "\<forall>i \<in> scoped r. honest_stream X r demo_options cert_map i"
    "scoped r = {lit ''5''}" "read_stream_records X r (lit ''5'') = ([[0], [1]], Inr 2)"
    "stream_checkpoints X r (lit ''5'') = Inr c" "bc \<in> set (st_checkpoints c)"
    "n_prev_checkpoint_hash (sc_note (bc_checkpoint bc)) = Some prev" "now_of X demo_options = 5"
    "reader_open X demo_archive = Inr r"
    "append_all X (chain_genesis X 5) [demo_record None, demo_record None] = Inr (h, [a, b])" "r_seq a = 0"
    "map (x_json_parse X) [[0], [1]] = map (\<lambda>r. Inr (read_back r)) [a, b]"
    "checkpointed X cert_map None [[a], [b]] (st_checkpoints c)"
    "valid_note (sc_note (bc_checkpoint (hd (st_checkpoints c))))" "digest32 X"
proof -
  obtain h a b bcs bc prev where out:
    "append_all demo_ext (chain_genesis demo_ext 5) [demo_record None, demo_record None] = Inr (h, [a, b])"
    "r_seq a = 0" "r_seq b = 1" "r_record_type a \<noteq> CoverageGap" "r_record_type b \<noteq> CoverageGap"
    and bc: "bc \<in> set bcs" "n_prev_checkpoint_hash (sc_note (bc_checkpoint bc)) = Some prev"
    and cp: "\<forall>(X :: (ustr \<times> bytes) list eext) vc. demo_crypto X \<longrightarrow> vc_public_key vc = verifying_key demo_ext demo_key \<longrightarrow>
       checkpointed X [(demo_fp, vc)] None [[a], [b]] bcs"
    and val: "valid_note (sc_note (bc_checkpoint (hd bcs)))"
    by (rule demo_signed_stream)
  let ?X = "demo_run [a, b] bcs"
  let ?r = demo_reader
  note X = demo_run_crypto [of "[a, b]" bcs]
  obtain vc where vc: "build_cert_map ?X (Some (map unat demo_der)) [demo_root] 5 = ([(demo_fp, vc)], [])"
    "vc_public_key vc = verifying_key demo_ext demo_key"
    by (rule demo_cert_map [OF demo_run_trust]) (simp add: verifying_key_def demo_key_def)
  have ap: "append_all ?X (chain_genesis ?X 5) [demo_record None, demo_record None] = Inr (h, [a, b])"
    using out(1) by (simp only: demo_append_all [OF X] demo_core [OF X])
  have i: "lit ''5'' = x_ulid_str ?X 5" by (simp add: demo_texts)
  have ps: "map (x_json_parse ?X) [[0], [1]] = map (\<lambda>r. Inr (read_back r)) [a, b]" by simp
  note chk = cp [rule_format, OF X vc(2)]
  have "honest_stream ?X ?r demo_options [(demo_fp, vc)] (lit ''5'')"
    unfolding honest_stream_def
    by (rule exI [of _ 5], rule exI [of _ "[demo_record None, demo_record None]"], rule exI [of _ h],
        rule exI [of _ "[[a], [b]]"], rule exI [of _ "[[0], [1]]"], rule exI [of _ 2],
        rule exI [of _ "\<lparr>st_stream_id = lit ''5'', st_checkpoints = bcs\<rparr>"], intro conjI)
      (use i ap demo_clocks_two [OF X] chk out demo_shard_lines demo_checkpoints in
        \<open>simp_all add: demo_options_def wf_demo_record\<close>)
  then have honest: "\<forall>i \<in> scoped ?r. honest_stream ?X ?r demo_options [(demo_fp, vc)] i" by (simp add: demo_scoped)
  have now: "now_of ?X demo_options = 5" by (simp add: now_of_def demo_options_def)
  have m: "m_schema_version (br_manifest ?r) = BUNDLE_SCHEMA_VERSION"
    by (simp add: demo_reader_def demo_full_manifest_def demo_manifest_def BUNDLE_SCHEMA_VERSION_def)
  show ?thesis
    by (rule that [OF demo_crypto_laws [OF X] m demo_contents _ _ demo_proofs honest demo_scoped demo_shard_lines demo_checkpoints _ bc(2)
        _ _ ap out(2) ps])
      (use vc(1) bc(1) now demo_identity demo_open chk val demo_run_digest32 in \<open>simp_all add: demo_ident_def\<close>)
qed

lemma demo_ident_simps [simp]:
  "bi_revocations demo_ident = None" "rf_console_keys (bi_roots demo_ident) = []"
  "vo_root_pem_override demo_options = Some demo_root" "vo_console_key_override demo_options = None"
  by (simp_all add: demo_ident_def demo_options_def)

lemma demo_honest:
  obtains X :: "(ustr \<times> bytes) list eext" and r c bc prev where "rp_result (verify_bundle X r demo_options) = Pass"
    "scoped r = {lit ''5''}" "read_stream_records X r (lit ''5'') = ([[0], [1]], Inr 2)"
    "stream_checkpoints X r (lit ''5'') = Inr c" "bc \<in> set (st_checkpoints c)"
    "n_prev_checkpoint_hash (sc_note (bc_checkpoint bc)) = Some prev" "now_of X demo_options = 5"
    "reader_open X demo_archive = Inr r"
proof (rule demo_hypotheses)
  fix X :: "(ustr \<times> bytes) list eext" and r cert_map c bc prev
  assume a: "ulid_law X" "ed25519_law X"
    "m_schema_version (br_manifest r) = BUNDLE_SCHEMA_VERSION" "verify_content_hashes X r = Inr []"
    "identity X r = Inr demo_ident"
    "build_cert_map X (Some (bi_certs_pem demo_ident)) [demo_root] (now_of X demo_options) = (cert_map, [])"
    "anchor_proofs X r = Inr anchor_proofs_default" "\<forall>i \<in> scoped r. honest_stream X r demo_options cert_map i"
  have "rp_result (verify_bundle X r demo_options) = Pass"
    by (rule honest_run_passes [OF a(1-5) _ _ _ _ a(6-8)]) simp_all
  moreover assume "scoped r = {lit ''5''}" "read_stream_records X r (lit ''5'') = ([[0], [1]], Inr 2)"
    "stream_checkpoints X r (lit ''5'') = Inr c" "bc \<in> set (st_checkpoints c)"
    "n_prev_checkpoint_hash (sc_note (bc_checkpoint bc)) = Some prev" "now_of X demo_options = 5"
    "reader_open X demo_archive = Inr r"
  ultimately show ?thesis by (rule that)
qed

end
