(* ===== verification/Verdict.thy ===== *)
theory Verdict
  imports Demo_Run
begin

text \<open>
  What the verdict of a whole run means (\<open>verify_bundle\<close>): properties that span the stages, over
  one concrete bundle that passes.
\<close>

section \<open>Reading the verdict\<close>

lemma accepted_scoped:
  assumes "rp_result (verify_bundle X r opts) \<noteq> Fail" and "i \<in> scoped r"
  obtains d d' fs where "examined X r opts i d d' fs" "(i, d') \<in> set (streams_of X r opts)"
    "no_errors (snd (chain_data X r i))" "no_errors fs" "no_errors (coverage_findings opts (i, d'))"
proof -
  from scoped_examined [OF assms(2)] obtain d d' fs where e: "examined X r opts i d d' fs"
    "(i, d') \<in> set (streams_of X r opts)" by blast
  from assms(1) have "no_errors (rp_findings (verify_bundle X r opts))" unfolding bundle_findings(1) .
  from no_errors_subset [OF this] scoped_findings [OF e] e show ?thesis by (intro that) auto
qed

lemma single_stream:
  assumes "scoped r = {i}"
  obtains d where "streams_of X r opts = [(i, d)]"
proof -
  from scoped_examined [of i r X opts] assms obtain d where d: "(i, d) \<in> set (streams_of X r opts)" by auto
  have k: "fst e = i" if "e \<in> set (streams_of X r opts)" for e
    using stream_examined [of "fst e" "snd e" X r opts] that assms by (auto simp: examined_def)
  have "distinct (map fst (streams_of X r opts))" using streams_keys [of X r opts] by (simp add: strict_sorted_iff)
  then have "streams_of X r opts = [(i, d)]"
    using d k by (cases "streams_of X r opts"; cases "tl (streams_of X r opts)") fastforce+
  then show ?thesis by (rule that)
qed

lemma accepted_length:
  assumes "rp_result (verify_bundle X r opts) \<noteq> Fail" and "(i, d) \<in> set (streams_of X r opts)"
    and "read_stream_records X r i = (ls, res)"
  shows "length (d_hashes_by_seq d) = length ls"
proof -
  from stream_examined [OF assms(2)] obtain d0 fs where e: "examined X r opts i d0 d fs" by blast
  then have c: "checkpoint_stage X r (trust_of X r opts) (i, fst (chain_data X r i)) = ((i, d0), fs)"
    and g: "grown (anchor_evidence X r (ap_batches (proofs_of X r))) (i, d0) (i, d)" and s: "i \<in> scoped r"
    by (auto simp: examined_def)
  from assms(1) s obtain d1 d2 gs where "no_errors (snd (chain_data X r i))" by (rule accepted_scoped)
  then obtain ks n vs sv sv' cfs where "read_stream_records X r i = (ks, Inr n)" "map (x_json_parse X) ks = map Inr vs"
    "d_hashes_by_seq (fst (chain_data X r i)) = map (\<lambda>v. (record_seq v, own_hash v)) vs" by (rule accepted_stream)
  with assms(3) grown_keeps(1) [OF g] checkpoint_stage_attests [OF c] show ?thesis
    by (auto dest: map_eq_imp_length_eq)
qed

lemma coverage_no_errors:
  assumes "no_errors (coverage_findings opts (i, d))"
  shows "no_errors (broken_links i d)" "no_errors (truncation (map_of (vo_expected_high_water opts) i) i d)"
  using assms by (auto simp: coverage_findings_def Let_def)

lemma truncation_clean:
  assumes "no_errors (truncation pinned i d)" and "opt_max pinned (d_countersigned_high_water d) = Some hw"
  shows "\<exists>m. max_present d = Some m \<and> hw \<le> m"
  using assms by (auto simp: truncation_def split: if_splits option.splits)

lemma opt_max_bound: "a = Some h \<or> b = Some h \<Longrightarrow> \<exists>m. opt_max a b = Some m \<and> h \<le> m"
  by (auto simp: opt_max_def split: option.splits)

lemma checkpoint_stage_clean:
  assumes "checkpoint_stage X r trust (i, d1) = ((i, d), fs)" and "no_errors fs" and "unexamined d1"
    and "stream_checkpoints X r i = Inr c"
  shows "d_countersigned_high_water d = foldl opt_max None (map (asserted_high_water X (tru_console_keys trust)) (st_checkpoints c))"
    "snd ` set (d_checkpoint_links d) = {h. \<exists>bc \<in> set (st_checkpoints c). n_prev_checkpoint_hash (sc_note (bc_checkpoint bc)) = Some h}"
    "d_checkpoint_note_hashes d = {h. \<exists>bc \<in> set (st_checkpoints c). note_hash X (sc_note (bc_checkpoint bc)) = Inr h}"
proof -
  let ?loop = "checkpoint_loop X i (tru_cert_map trust) (tru_revocations trust) (tru_console_keys trust)
    \<lparr>cp_data = d1, cp_ranges = []\<rparr> (st_checkpoints c)"
  have l: "?loop = (fst ?loop, snd ?loop)" by simp
  from assms(1,4) have d: "d = (cp_data (fst ?loop))\<lparr>d_checkpoints := st_checkpoints c\<rparr>" and fs: "fs = snd ?loop"
    by (auto simp: checkpoint_stage_def verify_checkpoints_def split_beta Let_def)
  note clean = checkpoint_loop_high_water [OF l assms(2) [unfolded fs]] checkpoint_loop_books [OF l assms(2) [unfolded fs]]
  with assms(3) show "d_countersigned_high_water d = foldl opt_max None (map (asserted_high_water X (tru_console_keys trust)) (st_checkpoints c))"
    "snd ` set (d_checkpoint_links d) = {h. \<exists>bc \<in> set (st_checkpoints c). n_prev_checkpoint_hash (sc_note (bc_checkpoint bc)) = Some h}"
    "d_checkpoint_note_hashes d = {h. \<exists>bc \<in> set (st_checkpoints c). note_hash X (sc_note (bc_checkpoint bc)) = Inr h}"
    unfolding d by (auto simp: unexamined_def)
qed

lemma links_resolve:
  assumes "rp_result (verify_bundle X r opts) \<noteq> Fail" and "i \<in> scoped r"
    and "stream_checkpoints X r i = Inr c" and "bc \<in> set (st_checkpoints c)"
    and "n_prev_checkpoint_hash (sc_note (bc_checkpoint bc)) = Some prev"
  shows "\<exists>pc \<in> set (st_checkpoints c). note_hash X (sc_note (bc_checkpoint pc)) = Inr prev"
proof -
  from assms(1,2) obtain d d' fs where e: "examined X r opts i d d' fs"
    and s: "no_errors fs" "no_errors (coverage_findings opts (i, d'))" by (rule accepted_scoped)
  from e have c: "checkpoint_stage X r (trust_of X r opts) (i, fst (chain_data X r i)) = ((i, d), fs)"
    and g: "grown (anchor_evidence X r (ap_batches (proofs_of X r))) (i, d) (i, d')" by (auto simp: examined_def)
  note clean = checkpoint_stage_clean(2,3) [OF c s(1) unexamined_stream assms(3)]
  from clean(1) assms(4,5) have "prev \<in> snd ` set (d_checkpoint_links d)" by auto
  then have "prev \<in> d_checkpoint_note_hashes d"
    using coverage_no_errors(1) [OF s(2)] grown_keeps [OF g]
    by (force simp: broken_links_def no_errors_concat split: if_splits)
  with clean(2) show ?thesis by simp
qed

lemma pass_roots:
  assumes "compute_result (snd (identity_stage X r opts now)) = Pass"
  shows "\<exists>root_pem. tru_root_pems (fst (identity_stage X r opts now)) = [root_pem] \<and>
    (vo_root_pem_override opts = Some root_pem \<or>
     vo_root_pem_override opts = None \<and> has_embedded_roots X \<and> root_pem = x_embedded_roots X)"
  using assms by (auto simp: identity_stage_def select_roots_def Let_def split_beta split: option.splits if_splits)

lemma trusted_cert:
  assumes "tru_root_pems (fst (identity_stage X r opts now)) = [root_pem]"
    and "map_of (tru_cert_map (fst (identity_stage X r opts now))) fp = Some cert"
  shows "\<exists>pem intermediates. validate_chain X pem intermediates root_pem now = Inr cert \<and> vc_fingerprint cert = fp"
proof -
  from assms(1) have "fst (identity_stage X r opts now) = fst (identity_stage X r opts now)\<lparr>tru_root_pems := [root_pem]\<rparr>" by simp
  with assms(2) obtain certs where "(fp, cert) \<in> set (fst (build_cert_map X certs [root_pem] now))"
    by (auto simp: identity_stage_def Let_def split_beta dest!: map_of_SomeD)
  then obtain singles where "(fp, cert) \<in> set (fst (add_certs X singles root_pem now singles []))"
    by (auto simp: build_cert_map_def Let_def split: option.splits if_splits sum.splits)
  from add_certs_sound [OF this] show ?thesis by auto
qed

lemma all_attested:
  assumes "unattested d = 0" and "d_attested_seqs d \<subseteq> fst ` set (d_hashes_by_seq d)"
    and "sorted_wrt (<) (map fst (d_hashes_by_seq d))" and "length (d_hashes_by_seq d) < 2 ^ 64"
  shows "fst ` set (d_hashes_by_seq d) \<subseteq> d_attested_seqs d"
proof -
  let ?K = "fst ` set (d_hashes_by_seq d)"
  have k: "card ?K = length (d_hashes_by_seq d)"
    using assms(3) distinct_card [of "map fst (d_hashes_by_seq d)"] by (simp add: strict_sorted_iff)
  have c: "card (d_attested_seqs d) \<le> card ?K" using assms(2) by (intro card_mono) auto
  have u: "unat (of_nat n :: u64) = n" if "n < 2 ^ 64" for n using that by (simp add: unat_of_nat)
  from assms(1) have "(of_nat (length (d_hashes_by_seq d)) :: u64) \<le> of_nat (card (d_attested_seqs d))"
    by (auto simp: unattested_def Let_def split: if_splits)
  then have "length (d_hashes_by_seq d) \<le> card (d_attested_seqs d)"
    using u [of "length (d_hashes_by_seq d)"] u [of "card (d_attested_seqs d)"] assms(4) c k
    by (simp add: word_le_nat_alt)
  with c k have "d_attested_seqs d = ?K" using assms(2) by (intro card_seteq) auto
  then show ?thesis by simp
qed

lemma attested_record:
  assumes e: "examined X r opts i d d' fs" and u: "unattested d' = 0" and n: "length vs < 2 ^ 64" and "w \<in> set vs"
    and v: "d_hashes_by_seq (fst (chain_data X r i)) = map (\<lambda>v. (record_seq v, own_hash v)) vs"
  shows "\<exists>c bc hs. stream_checkpoints X r i = Inr c \<and> bc \<in> set (st_checkpoints c) \<and>
    vouched X i (tru_cert_map (trust_of X r opts)) (tru_revocations (trust_of X r opts)) (bc_checkpoint bc) \<and>
    n_seq_from (sc_note (bc_checkpoint bc)) \<le> record_seq w \<and> record_seq w \<le> n_seq_to (sc_note (bc_checkpoint bc)) \<and>
    own_hash w \<in> set hs \<and> verify_root X (bc_checkpoint bc) hs = Inr ()"
proof -
  let ?d1 = "fst (chain_data X r i)"
  from e have c: "checkpoint_stage X r (trust_of X r opts) (i, ?d1) = ((i, d), fs)"
    and g: "grown (anchor_evidence X r (ap_batches (proofs_of X r))) (i, d) (i, d')" by (auto simp: examined_def)
  have h: "d_hashes_by_seq d' = d_hashes_by_seq ?d1" "d_attested_seqs d' = d_attested_seqs d"
    using grown_keeps [OF g] checkpoint_stage_attests [OF c] by simp_all
  have un: "unexamined ?d1" by (rule unexamined_stream)
  have "length (d_hashes_by_seq d') < 2 ^ 64" using n v h by simp
  with all_attested [OF u] examined_nested [OF e] have att: "fst ` set (d_hashes_by_seq d') \<subseteq> d_attested_seqs d'" by blast
  have w: "(record_seq w, own_hash w) \<in> set (d_hashes_by_seq ?d1)" using assms(4) v by auto
  with att h un have "record_seq w \<in> d_attested_seqs d - d_attested_seqs ?d1" by (force simp: unexamined_def)
  with checkpoint_stage_attests [OF c] obtain co bc where cp: "stream_checkpoints X r i = Inr co" "bc \<in> set (st_checkpoints co)"
    "vouched X i (tru_cert_map (trust_of X r opts)) (tru_revocations (trust_of X r opts)) (bc_checkpoint bc)"
    "root_checked X (d_hashes_by_seq ?d1) (bc_checkpoint bc)"
    "n_seq_from (sc_note (bc_checkpoint bc)) \<le> record_seq w" "record_seq w \<le> n_seq_to (sc_note (bc_checkpoint bc))"
    by blast
  have "map_of (d_hashes_by_seq ?d1) (record_seq w) = Some (own_hash w)"
    using w un by (simp add: unexamined_def strict_sorted_iff)
  with root_checked_present [OF cp(4-6)] obtain hs where "own_hash w \<in> set hs" "verify_root X (bc_checkpoint bc) hs = Inr ()"
    by auto
  with cp show ?thesis by blast
qed

lemma pass_vouched:
  assumes "rp_result (verify_bundle X r opts) = Pass"
    and "vouched X i (tru_cert_map (trust_of X r opts)) (tru_revocations (trust_of X r opts)) cp"
  shows "\<exists>root_pem cert pem intermediates.
    (vo_root_pem_override opts = Some root_pem \<or>
     vo_root_pem_override opts = None \<and> has_embedded_roots X \<and> root_pem = x_embedded_roots X) \<and>
    validate_chain X pem intermediates root_pem (now_of X opts) = Inr cert \<and> n_stream_id (sc_note cp) = i \<and>
    n_recorder_cert_fingerprint (sc_note cp) = vc_fingerprint cert \<and> checkpoint_verify X cp (vc_public_key cert) = Inr () \<and>
    \<not> signed_after_revocation X (tru_revocations (trust_of X r opts)) (sc_note cp)"
proof -
  from assms(1) have "compute_result (snd (identity_stage X r opts (now_of X opts))) = Pass" by (simp add: bundle_findings)
  from pass_roots [OF this] obtain root_pem where root: "tru_root_pems (trust_of X r opts) = [root_pem]"
    "vo_root_pem_override opts = Some root_pem \<or>
     vo_root_pem_override opts = None \<and> has_embedded_roots X \<and> root_pem = x_embedded_roots X"
    unfolding trust_of_def by blast
  from assms(2) obtain cert where cert:
    "map_of (tru_cert_map (trust_of X r opts)) (n_recorder_cert_fingerprint (sc_note cp)) = Some cert"
    "checkpoint_verify X cp (vc_public_key cert) = Inr ()" by (auto simp: vouched_def is_ok_iff)
  from trusted_cert [OF root(1) [unfolded trust_of_def] cert(1) [unfolded trust_of_def]] root(2) cert(2) assms(2)
  show ?thesis unfolding vouched_def by metis
qed

lemma fold_proven:
  "pv_records (fold (add_proven \<circ> snd) st p) = pv_records p + of_nat (\<Sum>e\<leftarrow>st. length (d_hashes_by_seq (snd e)))"
  "pv_attested_records (fold (add_proven \<circ> snd) st p) = pv_attested_records p + of_nat (\<Sum>e\<leftarrow>st. card (d_attested_seqs (snd e)))"
  "pv_anchored_records (fold (add_proven \<circ> snd) st p) = pv_anchored_records p + of_nat (\<Sum>e\<leftarrow>st. card (d_anchored_seqs (snd e)))"
  by (induction st arbitrary: p) (simp_all add: add_proven_def Let_def split: option.split)

lemma nested_counts:
  assumes "(i, d) \<in> set (streams_of X r opts)"
  shows "card (d_anchored_seqs d) \<le> card (d_attested_seqs d)" "card (d_attested_seqs d) \<le> length (d_hashes_by_seq d)"
proof -
  from stream_examined [OF assms] examined_nested have n: "d_anchored_seqs d \<subseteq> d_attested_seqs d"
    "d_attested_seqs d \<subseteq> fst ` set (d_hashes_by_seq d)" by blast+
  then show "card (d_anchored_seqs d) \<le> card (d_attested_seqs d)" by (intro card_mono) (auto intro: finite_subset)
  have "card (d_attested_seqs d) \<le> card (fst ` set (d_hashes_by_seq d))" using n(2) by (intro card_mono) auto
  also have "\<dots> \<le> length (d_hashes_by_seq d)" using card_length [of "map fst (d_hashes_by_seq d)"] by simp
  finally show "card (d_attested_seqs d) \<le> length (d_hashes_by_seq d)" .
qed

lemma reach_high_water:
  assumes "rp_result (verify_bundle X r opts) \<noteq> Fail" and "i \<in> scoped r"
    and "map_of (vo_expected_high_water opts) i = Some hw \<or> (\<exists>c. stream_checkpoints X r i = Inr c \<and>
      (\<exists>bc \<in> set (st_checkpoints c). asserted_high_water X (tru_console_keys (trust_of X r opts)) bc = Some hw))"
  shows "\<exists>ls n line v. read_stream_records X r i = (ls, Inr n) \<and> line \<in> set ls \<and> x_json_parse X line = Inr v \<and>
    hw \<le> record_seq v"
proof -
  from assms(1,2) obtain d d' fs where e: "examined X r opts i d d' fs"
    and s: "no_errors (snd (chain_data X r i))" "no_errors fs" "no_errors (coverage_findings opts (i, d'))"
    by (rule accepted_scoped)
  from e have c: "checkpoint_stage X r (trust_of X r opts) (i, fst (chain_data X r i)) = ((i, d), fs)"
    and g: "grown (anchor_evidence X r (ap_batches (proofs_of X r))) (i, d) (i, d')" by (auto simp: examined_def)
  from assms(3) have "map_of (vo_expected_high_water opts) i = Some hw \<or>
      (\<exists>m. d_countersigned_high_water d = Some m \<and> hw \<le> m)"
  proof
    assume "\<exists>c. stream_checkpoints X r i = Inr c \<and>
      (\<exists>bc \<in> set (st_checkpoints c). asserted_high_water X (tru_console_keys (trust_of X r opts)) bc = Some hw)"
    then obtain co bc where co: "stream_checkpoints X r i = Inr co" "bc \<in> set (st_checkpoints co)"
      "asserted_high_water X (tru_console_keys (trust_of X r opts)) bc = Some hw" by blast
    from co(2,3) have "Some hw \<in> set (map (asserted_high_water X (tru_console_keys (trust_of X r opts))) (st_checkpoints co))"
      by force
    with foldl_opt_max [OF checkpoint_stage_clean(1) [OF c s(2) unexamined_stream co(1), symmetric]] show ?thesis by blast
  qed simp
  then obtain h where h: "map_of (vo_expected_high_water opts) i = Some h \<or> d_countersigned_high_water d' = Some h" "hw \<le> h"
    using grown_keeps(5) [OF g] by auto
  from opt_max_bound [OF h(1)] obtain m where
    m: "opt_max (map_of (vo_expected_high_water opts) i) (d_countersigned_high_water d') = Some m" "h \<le> m" by blast
  from truncation_clean [OF coverage_no_errors(2) [OF s(3)] m(1)] obtain k where
    k: "max_present d' = Some k" "hw \<le> k" using h(2) m(2) by fastforce
  have h: "d_hashes_by_seq d' = d_hashes_by_seq (fst (chain_data X r i))"
    using grown_keeps(1) [OF g] checkpoint_stage_attests [OF c] by simp
  from s(1) obtain ls n vs sv sv' cfs where r: "read_stream_records X r i = (ls, Inr n)"
    "map (x_json_parse X) ls = map Inr vs" "d_hashes_by_seq (fst (chain_data X r i)) = map (\<lambda>v. (record_seq v, own_hash v)) vs"
    by (rule accepted_stream)
  from k(1) h r(3) have v: "vs \<noteq> []" "record_seq (last vs) = k"
    by (auto simp: max_present_def last_map split: if_splits)
  then have "Inr (last vs) \<in> set (map (x_json_parse X) ls)" unfolding r(2) by simp
  then obtain line where "line \<in> set ls" "x_json_parse X line = Inr (last vs)" by auto
  with r(1) k(2) v(2) show ?thesis by blast
qed

lemma externally_bounded:
  assumes "examined X r opts i d d' fs" and "no_errors fs" and "unproven_tail (map_of (vo_expected_high_water opts) i) i d' = []"
    and "0 < (of_nat (length (d_hashes_by_seq d')) :: u64)"
  shows "\<exists>hw. map_of (vo_expected_high_water opts) i = Some hw \<or> (\<exists>c. stream_checkpoints X r i = Inr c \<and>
    (\<exists>bc \<in> set (st_checkpoints c). asserted_high_water X (tru_console_keys (trust_of X r opts)) bc = Some hw))"
proof (cases "map_of (vo_expected_high_water opts) i")
  case None
  from assms(1) have c: "checkpoint_stage X r (trust_of X r opts) (i, fst (chain_data X r i)) = ((i, d), fs)"
    and g: "grown (anchor_evidence X r (ap_batches (proofs_of X r))) (i, d) (i, d')" by (auto simp: examined_def)
  from assms(3,4) None grown_keeps(5) [OF g] obtain hw where hw: "d_countersigned_high_water d = Some hw"
    by (auto simp: unproven_tail_def Let_def split: if_splits)
  have u: "unexamined (fst (chain_data X r i))" by (rule unexamined_stream)
  show ?thesis
  proof (cases "stream_checkpoints X r i")
    case (Inr co)
    from foldl_opt_max [OF checkpoint_stage_clean(1) [OF c assms(2) u Inr, symmetric]] hw
    have "Some hw \<in> asserted_high_water X (tru_console_keys (trust_of X r opts)) ` set (st_checkpoints co)" by simp
    then obtain bc where "bc \<in> set (st_checkpoints co)" "asserted_high_water X (tru_console_keys (trust_of X r opts)) bc = Some hw"
      by (auto simp: image_iff dest: sym)
    with Inr show ?thesis by blast
  qed (use c hw u in \<open>auto simp: checkpoint_stage_def unexamined_def\<close>)
qed blast

lemma identity_stage_pins: "identity_stage X r (opts\<lparr>vo_expected_high_water := m\<rparr>) now = identity_stage X r opts now"
  by (simp add: identity_stage_def select_roots_def resolve_console_keys_def cong: option.case_cong)

lemma coverage_pins:
  "map_of m (fst e) = map_of (vo_expected_high_water opts) (fst e) \<Longrightarrow>
   coverage_findings (opts\<lparr>vo_expected_high_water := m\<rparr>) e = coverage_findings opts e"
  by (simp add: coverage_findings_def split_beta Let_def)

text \<open>Only the pins of scoped streams, and only their lookup, matter to the engine.\<close>

lemma verify_bundle_pins:
  assumes "\<And>i. i \<in> scoped r \<Longrightarrow> map_of m i = map_of (vo_expected_high_water opts) i"
  shows "verify_bundle X r (opts\<lparr>vo_expected_high_water := m\<rparr>) = verify_bundle X r opts"
proof -
  have n: "now_of X (opts\<lparr>vo_expected_high_water := m\<rparr>) = now_of X opts" by (simp add: now_of_def)
  have "coverage_findings (opts\<lparr>vo_expected_high_water := m\<rparr>) e = coverage_findings opts e"
    if "e \<in> set (streams_of X r opts)" for e
    using stream_examined [of "fst e" "snd e" X r opts] that assms
    by (intro coverage_pins) (auto simp: examined_def)
  then have "map (coverage_findings (opts\<lparr>vo_expected_high_water := m\<rparr>)) (streams_of X r opts) =
      map (coverage_findings opts) (streams_of X r opts)" by simp
  then show ?thesis
    unfolding verify_bundle_def n identity_stage_pins streams_of_def trust_of_def proofs_of_def
    by (simp add: Let_def split_beta del: map_eq_conv)
qed

text \<open>
  A console key that the bundle alone cannot supply: the one given on the command line or, without one, a key
  whose statement in the bundle is signed by the root given on the command line or embedded in the program.
\<close>

definition outside_root :: "('w, 'x) eext_scheme \<Rightarrow> VerifyOptions \<Rightarrow> ustr \<Rightarrow> bool" where
  "outside_root X opts root_pem \<longleftrightarrow> vo_root_pem_override opts = Some root_pem \<or>
     vo_root_pem_override opts = None \<and> has_embedded_roots X \<and> root_pem = x_embedded_roots X"

definition outside_key :: "('w, 'x) eext_scheme \<Rightarrow> BundleReader \<Rightarrow> VerifyOptions \<Rightarrow> VerifyingKey \<Rightarrow> bool" where
  "outside_key X r opts k \<longleftrightarrow>
     (case vo_console_key_override opts of
        Some pem \<Rightarrow> from_spki_pem X pem = Inr k
      | None \<Rightarrow> \<exists>ident entry sig root_pem rk. identity X r = Inr ident \<and> entry \<in> set (rf_console_keys (bi_roots ident)) \<and>
          from_spki_pem X (ck_public_key_pem (ak_statement entry)) = Inr k \<and> ak_signature entry = Some sig \<and>
          outside_root X opts root_pem \<and> rk \<in> set (root_keys_of_pem X root_pem) \<and>
          verify_jcs X rk (console_key_statement_json (ak_statement entry)) sig [T ''console key statement''] = Inr ())"

lemma pass_console_keys:
  assumes "compute_result (snd (identity_stage X r opts now)) = Pass"
    and "(key_id, k) \<in> set (tru_console_keys (fst (identity_stage X r opts now)))"
  shows "outside_key X r opts k"
proof -
  let ?roots = "map_option bi_roots (case identity X r of Inr i \<Rightarrow> Some i | Inl e \<Rightarrow> None)"
  from pass_roots [OF assms(1)] obtain root_pem where
    root: "tru_root_pems (fst (identity_stage X r opts now)) = [root_pem]" "outside_root X opts root_pem"
    unfolding outside_root_def by blast
  obtain keys fs where res: "resolve_console_keys X opts ?roots [root_pem] = (keys, fs)" by fastforce
  with root(1) assms have k: "(key_id, k) \<in> set keys" "compute_result fs = Pass"
    by (auto simp: identity_stage_def Let_def split_beta)
  show ?thesis
  proof (cases "vo_console_key_override opts")
    case None
    with res k(1) obtain ident where i: "identity X r = Inr ident"
      "add_console_keys X (root_keys_of_pem X root_pem) (rf_console_keys (bi_roots ident)) [] = (keys, fs)"
      by (auto simp: resolve_console_keys_def split: sum.splits)
    from add_console_keys_sound [OF i(2) k(2,1)] i(1) root(2) None show ?thesis
      by (fastforce simp: outside_key_def is_ok_iff)
  next
    case (Some pem)
    with res k(1) show ?thesis by (auto simp: resolve_console_keys_def outside_key_def split: sum.splits)
  qed
qed

text \<open>An extent of a stream that does not rest on the bundle alone.\<close>

definition outside_extent :: "('w, 'x) eext_scheme \<Rightarrow> BundleReader \<Rightarrow> VerifyOptions \<Rightarrow> ustr \<Rightarrow> u64 \<Rightarrow> bool" where
  "outside_extent X r opts i hw \<longleftrightarrow> map_of (vo_expected_high_water opts) i = Some hw \<or>
     (\<exists>c bc cs k. stream_checkpoints X r i = Inr c \<and> bc \<in> set (st_checkpoints c) \<and> bc_countersignature bc = Some cs \<and>
        cn_stream_high_water_seq (cs_note cs) = Some hw \<and> countersignature_verify X cs k = Inr () \<and> outside_key X r opts k)"

lemma outside_extentI:
  assumes "compute_result (snd (identity_stage X r opts (now_of X opts))) = Pass"
    and "map_of (vo_expected_high_water opts) i = Some hw \<or> (\<exists>c. stream_checkpoints X r i = Inr c \<and>
      (\<exists>bc \<in> set (st_checkpoints c). asserted_high_water X (tru_console_keys (trust_of X r opts)) bc = Some hw))"
  shows "outside_extent X r opts i hw"
  using assms(2) pass_console_keys [OF assms(1)]
  by (fastforce simp: outside_extent_def asserted_high_water_def trust_of_def list_ex_iff is_ok_iff
    Option.bind_eq_Some_conv split: if_splits)

section \<open>Properties\<close>

text \<open>
  C8: An honest export passes. Suppose that the container is intact, the recorder certificates validate
  against the root given on the command line, and the bundle names no console keys, revocations or
  anchors; and that for every scoped stream the lines read are the records a recorder appended from
  genesis with well-behaved clocks and no recorded gap, each parsed to the value of its canonical
  text, the checkpoint file holds linked checkpoints
  that were built over consecutive runs of these records and signed with certified keys, and the
  pinned extent is the last record. Then the verdict is \<open>Pass\<close>: the verifier raises no false alarm.
\<close>

theorem honest_bundle_passes:
  assumes "ulid_law X" and "ed25519_law X"
    and "m_schema_version (br_manifest r) = BUNDLE_SCHEMA_VERSION" and "verify_content_hashes X r = Inr []"
    and "identity X r = Inr ident" and "bi_revocations ident = None" and "rf_console_keys (bi_roots ident) = []"
    and "vo_root_pem_override opts = Some root_pem" and "vo_console_key_override opts = None"
    and "build_cert_map X (Some (bi_certs_pem ident)) [root_pem] (now_of X opts) = (cert_map, [])"
    and "anchor_proofs X r = Inr anchor_proofs_default"
    and "\<forall>i \<in> scoped r. honest_stream X r opts cert_map i"
  shows "rp_result (verify_bundle X r opts) = Pass"
  using assms by (rule honest_run_passes)

theorem honest_bundle_passes_witness:
  "\<exists>(X :: (ustr \<times> bytes) list eext) r cert_map. scoped r = {lit ''5''} \<and>
     honest_stream X r demo_options cert_map (lit ''5'') \<and> rp_result (verify_bundle X r demo_options) = Pass"
proof (rule demo_hypotheses)
  fix X :: "(ustr \<times> bytes) list eext" and r cert_map
  assume a: "ulid_law X" "ed25519_law X"
    "m_schema_version (br_manifest r) = BUNDLE_SCHEMA_VERSION" "verify_content_hashes X r = Inr []"
    "identity X r = Inr demo_ident"
    "build_cert_map X (Some (bi_certs_pem demo_ident)) [demo_root] (now_of X demo_options) = (cert_map, [])"
    "anchor_proofs X r = Inr anchor_proofs_default" "\<forall>i \<in> scoped r. honest_stream X r demo_options cert_map i"
    and s: "scoped r = {lit ''5''}"
  have "rp_result (verify_bundle X r demo_options) = Pass"
    by (rule honest_bundle_passes [OF a(1-5) _ _ _ _ a(6-8)]) simp_all
  with a(8) s show ?thesis by auto
qed


text \<open>
  C2: A verdict other than failure means that the bundle is intact. Every entry that the manifest
  lists has the recorded hash and length and the container has no other entry; and every stream in
  the manifest's scope was read to its end, every line of it parses, and its records verify as one
  chain, from the genesis hash when it starts with number zero, in which the only irregularities are segment breaks.
\<close>

theorem accepted_bundle_is_intact:
  assumes "rp_result (verify_bundle X r opts) \<noteq> Fail"
  shows "verify_content_hashes X r = Inr [] \<and> (\<forall>i \<in> scoped r. \<exists>ls n vs sv sv' cfs.
    read_stream_records X r i = (ls, Inr n) \<and> map (x_json_parse X) ls = map Inr vs \<and>
    verifier_new X i = Inr sv \<and> verify_records X sv vs = Inr (sv', cfs) \<and>
    list_all (\<lambda>f. \<exists>seg seq. f = SegmentBreak seg seq) cfs)"
proof
  from assms have "no_errors (check_container X r)" unfolding bundle_findings by simp
  then show "verify_content_hashes X r = Inr []"
    by (auto simp: check_container_def no_errors_iff add_def split: sum.splits)
  show "\<forall>i \<in> scoped r. \<exists>ls n vs sv sv' cfs. read_stream_records X r i = (ls, Inr n) \<and>
    map (x_json_parse X) ls = map Inr vs \<and> verifier_new X i = Inr sv \<and> verify_records X sv vs = Inr (sv', cfs) \<and>
    list_all (\<lambda>f. \<exists>seg seq. f = SegmentBreak seg seq) cfs"
  proof
    fix i assume "i \<in> scoped r"
    with assms obtain d d' fs where "no_errors (snd (chain_data X r i))" by (rule accepted_scoped)
    then show "\<exists>ls n vs sv sv' cfs. read_stream_records X r i = (ls, Inr n) \<and>
      map (x_json_parse X) ls = map Inr vs \<and> verifier_new X i = Inr sv \<and> verify_records X sv vs = Inr (sv', cfs) \<and>
      list_all (\<lambda>f. \<exists>seg seq. f = SegmentBreak seg seq) cfs" by (rule accepted_stream) blast
  qed
qed

theorem accepted_bundle_is_intact_witness:
  "\<exists>(X :: (ustr \<times> bytes) list eext) r vs sv sv' cfs. rp_result (verify_bundle X r demo_options) \<noteq> Fail \<and>
     scoped r = {lit ''5''} \<and> verify_content_hashes X r = Inr [] \<and> length vs = 2 \<and> verify_records X sv vs = Inr (sv', cfs)"
proof -
  obtain X :: "(ustr \<times> bytes) list eext" and r where p: "rp_result (verify_bundle X r demo_options) = Pass"
    "scoped r = {lit ''5''}" "read_stream_records X r (lit ''5'') = ([[0], [1]], Inr 2)" by (rule demo_honest)
  from p(1) have f: "rp_result (verify_bundle X r demo_options) \<noteq> Fail" by simp
  from accepted_bundle_is_intact [OF f] have c: "verify_content_hashes X r = Inr []"
    and a: "\<forall>i \<in> scoped r. \<exists>ls n vs sv sv' cfs. read_stream_records X r i = (ls, Inr n) \<and>
      map (x_json_parse X) ls = map Inr vs \<and> verify_records X sv vs = Inr (sv', cfs)" by blast+
  have "lit ''5'' \<in> scoped r" unfolding p(2) by simp
  from bspec [OF a this] obtain ls n vs sv sv' cfs where
    v: "map (x_json_parse X) ls = map Inr vs" "verify_records X sv vs = Inr (sv', cfs)"
      "read_stream_records X r (lit ''5'') = (ls, Inr n)" by blast
  from v(3) p(3) have "length ls = 2" by auto
  then have "length vs = 2" using arg_cong [OF v(1), of length] by simp
  with f p(2) c v(2) show ?thesis by blast
qed

text \<open>
  C4: A truncated stream is never accepted. If the operator pinned an extent for a stream, or a
  countersignature in the bundle that verifies under a console key asserts one, a verdict other
  than failure means that the stream has a record with at least that sequence number.
\<close>

theorem accepted_streams_reach_high_water:
  assumes "rp_result (verify_bundle X r opts) \<noteq> Fail" and "i \<in> scoped r"
    and "map_of (vo_expected_high_water opts) i = Some hw \<or> (\<exists>c. stream_checkpoints X r i = Inr c \<and>
      (\<exists>bc \<in> set (st_checkpoints c). asserted_high_water X (tru_console_keys (trust_of X r opts)) bc = Some hw))"
  shows "\<exists>ls n line v. read_stream_records X r i = (ls, Inr n) \<and> line \<in> set ls \<and> x_json_parse X line = Inr v \<and>
    hw \<le> record_seq v"
  using assms by (rule reach_high_water)

theorem accepted_streams_reach_high_water_witness:
  "\<exists>(X :: (ustr \<times> bytes) list eext) r line v. rp_result (verify_bundle X r demo_options) \<noteq> Fail \<and>
     map_of (vo_expected_high_water demo_options) (lit ''5'') = Some 1 \<and> x_json_parse X line = Inr v \<and> 1 \<le> record_seq v"
proof -
  obtain X :: "(ustr \<times> bytes) list eext" and r where p: "rp_result (verify_bundle X r demo_options) = Pass"
    "scoped r = {lit ''5''}" by (rule demo_honest)
  have f: "rp_result (verify_bundle X r demo_options) \<noteq> Fail" "lit ''5'' \<in> scoped r" using p by simp_all
  have hw: "map_of (vo_expected_high_water demo_options) (lit ''5'') = Some 1" by (simp add: demo_options_def)
  from accepted_streams_reach_high_water [OF f, of 1] f(1) hw show ?thesis by blast
qed

text \<open>
  C6: No interior checkpoint can be removed. In a bundle that does not fail, the predecessor that a
  checkpoint of a scoped stream names is the hash of the note of a checkpoint in the same file.
\<close>

theorem accepted_checkpoint_links_resolve:
  assumes "rp_result (verify_bundle X r opts) \<noteq> Fail" and "i \<in> scoped r"
    and "stream_checkpoints X r i = Inr c" and "bc \<in> set (st_checkpoints c)"
    and "n_prev_checkpoint_hash (sc_note (bc_checkpoint bc)) = Some prev"
  shows "\<exists>pc \<in> set (st_checkpoints c). note_hash X (sc_note (bc_checkpoint pc)) = Inr prev"
  using assms by (rule links_resolve)

theorem accepted_checkpoint_links_resolve_witness:
  "\<exists>(X :: (ustr \<times> bytes) list eext) r (bc :: BundleCheckpoint) (pc :: BundleCheckpoint) prev.
     rp_result (verify_bundle X r demo_options) \<noteq> Fail \<and> n_prev_checkpoint_hash (sc_note (bc_checkpoint bc)) = Some prev \<and>
     note_hash X (sc_note (bc_checkpoint pc)) = Inr prev"
proof -
  obtain X :: "(ustr \<times> bytes) list eext" and r c bc prev where p: "rp_result (verify_bundle X r demo_options) = Pass"
    "scoped r = {lit ''5''}" "stream_checkpoints X r (lit ''5'') = Inr c" "bc \<in> set (st_checkpoints c)"
    "n_prev_checkpoint_hash (sc_note (bc_checkpoint bc)) = Some prev" by (rule demo_honest)
  have f: "rp_result (verify_bundle X r demo_options) \<noteq> Fail" "lit ''5'' \<in> scoped r" using p by simp_all
  from accepted_checkpoint_links_resolve [OF f p(3-5)] f(1) p(5) show ?thesis by blast
qed

text \<open>
  C1: The verdict Pass means that every record is attested under a root that did not come from the
  bundle. The only trusted root is the one given on the command line or, without one, the one built
  into the verifier. Every line of a scoped stream lies in the range of a checkpoint for that stream
  which is signed by the key of a certificate that validates against this root, is not signed after
  a revocation of it, and whose Merkle root is over hashes that include the hash of the record.
\<close>

theorem pass_means_attested:
  assumes "rp_result (verify_bundle X r opts) = Pass" and "i \<in> scoped r"
    and "read_stream_records X r i = (ls, res)" and "length ls < 2 ^ 64" and "line \<in> set ls"
  shows "\<exists>root_pem v c bc cert pem intermediates hs.
    (vo_root_pem_override opts = Some root_pem \<or>
     vo_root_pem_override opts = None \<and> has_embedded_roots X \<and> root_pem = x_embedded_roots X) \<and>
    validate_chain X pem intermediates root_pem (now_of X opts) = Inr cert \<and>
    x_json_parse X line = Inr v \<and> stream_checkpoints X r i = Inr c \<and> bc \<in> set (st_checkpoints c) \<and>
    (let note = sc_note (bc_checkpoint bc) in n_stream_id note = i \<and> n_recorder_cert_fingerprint note = vc_fingerprint cert \<and>
       checkpoint_verify X (bc_checkpoint bc) (vc_public_key cert) = Inr () \<and>
       \<not> signed_after_revocation X (tru_revocations (trust_of X r opts)) note \<and>
       n_seq_from note \<le> record_seq v \<and> record_seq v \<le> n_seq_to note) \<and>
    own_hash v \<in> set hs \<and> verify_root X (bc_checkpoint bc) hs = Inr ()"
proof -
  from assms(1) have f: "compute_result (rp_findings (verify_bundle X r opts)) = Pass" by (simp add: bundle_findings(1))
  from assms(1) have "rp_result (verify_bundle X r opts) \<noteq> Fail" by simp
  from this assms(2) obtain d d' fs where e: "examined X r opts i d d' fs" and m: "(i, d') \<in> set (streams_of X r opts)"
    and s: "no_errors (snd (chain_data X r i))" by (rule accepted_scoped)
  from s obtain ks n vs sv sv' cfs where v: "read_stream_records X r i = (ks, Inr n)" "map (x_json_parse X) ks = map Inr vs"
    "d_hashes_by_seq (fst (chain_data X r i)) = map (\<lambda>v. (record_seq v, own_hash v)) vs" by (rule accepted_stream)
  from pass_subset [OF f, of "coverage_findings opts (i, d')"] scoped_findings [OF e m]
  have "compute_result (coverage_findings opts (i, d')) = Pass" by simp
  then have u: "unattested d' = 0" by (auto simp: coverage_findings_def Let_def word_gt_0 split: if_splits)
  have n: "length vs < 2 ^ 64" using assms(3,4) v(1) arg_cong [OF v(2), of length] by simp
  from assms(3,5) v(1,2) obtain w where w: "x_json_parse X line = Inr w" "w \<in> set vs"
    by (metis (no_types, lifting) Pair_inject image_iff list.set_map)
  from attested_record [OF e u n w(2) v(3)] obtain c bc hs where a: "stream_checkpoints X r i = Inr c" "bc \<in> set (st_checkpoints c)"
    "vouched X i (tru_cert_map (trust_of X r opts)) (tru_revocations (trust_of X r opts)) (bc_checkpoint bc)"
    "n_seq_from (sc_note (bc_checkpoint bc)) \<le> record_seq w" "record_seq w \<le> n_seq_to (sc_note (bc_checkpoint bc))"
    "own_hash w \<in> set hs" "verify_root X (bc_checkpoint bc) hs = Inr ()" by blast
  from pass_vouched [OF assms(1) a(3)] a w(1) show ?thesis unfolding Let_def by blast
qed

theorem pass_means_attested_witness:
  "\<exists>(X :: (ustr \<times> bytes) list eext) r pem intermediates cert (bc :: BundleCheckpoint) hs v.
     rp_result (verify_bundle X r demo_options) = Pass \<and> validate_chain X pem intermediates demo_root 5 = Inr cert \<and>
     x_json_parse X [1] = Inr v \<and> checkpoint_verify X (bc_checkpoint bc) (vc_public_key cert) = Inr () \<and>
     own_hash v \<in> set hs \<and> verify_root X (bc_checkpoint bc) hs = Inr ()"
proof -
  obtain X :: "(ustr \<times> bytes) list eext" and r where p: "rp_result (verify_bundle X r demo_options) = Pass"
    "scoped r = {lit ''5''}" "read_stream_records X r (lit ''5'') = ([[0], [1]], Inr 2)" and n: "now_of X demo_options = 5"
    by (rule demo_honest)
  have s: "lit ''5'' \<in> scoped r" "length [[0], [1 :: byte]] < 2 ^ 64" "[1] \<in> set [[0], [1 :: byte]]" using p(2) by simp_all
  from pass_means_attested [OF p(1) s(1) p(3) s(2,3)] p(1) show ?thesis
    unfolding n Let_def by (simp add: demo_options_def) blast
qed

text \<open>
  C26: The report never claims more than was established. In every stream the anchored numbers are
  attested and the attested ones are present; so, as long as the records can be counted in 64 bits,
  the report's count of anchored records is at most that of attested ones, and that at most the
  count of records, which is the true number.
\<close>

theorem proven_counts_ordered:
  assumes "(\<Sum>e\<leftarrow>streams_of X r opts. length (d_hashes_by_seq (snd e))) < 2 ^ 64"
  shows "list_all (\<lambda>(i, d). d_anchored_seqs d \<subseteq> d_attested_seqs d \<and> d_attested_seqs d \<subseteq> fst ` set (d_hashes_by_seq d))
      (streams_of X r opts) \<and>
    (let p = rp_proven (verify_bundle X r opts) in pv_anchored_records p \<le> pv_attested_records p \<and>
      pv_attested_records p \<le> pv_records p \<and>
      unat (pv_records p) = (\<Sum>e\<leftarrow>streams_of X r opts. length (d_hashes_by_seq (snd e))))"
proof
  show "list_all (\<lambda>(i, d). d_anchored_seqs d \<subseteq> d_attested_seqs d \<and> d_attested_seqs d \<subseteq> fst ` set (d_hashes_by_seq d))
      (streams_of X r opts)"
    using stream_examined examined_nested by (fastforce simp: list_all_iff)
  let ?st = "streams_of X r opts"
  let ?r = "\<Sum>e\<leftarrow>?st. length (d_hashes_by_seq (snd e))" and ?a = "\<Sum>e\<leftarrow>?st. card (d_attested_seqs (snd e))"
    and ?n = "\<Sum>e\<leftarrow>?st. card (d_anchored_seqs (snd e))"
  have le: "?n \<le> ?a" "?a \<le> ?r" by (rule sum_list_mono; metis nested_counts prod.collapse)+
  with assms have u: "unat (of_nat ?n :: u64) = ?n" "unat (of_nat ?a :: u64) = ?a" "unat (of_nat ?r :: u64) = ?r"
    by (simp_all add: unat_of_nat)
  show "let p = rp_proven (verify_bundle X r opts) in pv_anchored_records p \<le> pv_attested_records p \<and>
      pv_attested_records p \<le> pv_records p \<and> unat (pv_records p) = ?r"
    using le u by (simp add: bundle_findings(3) fold_proven proven_default_def Let_def word_le_nat_alt)
qed

theorem proven_counts_ordered_witness:
  "\<exists>(X :: (ustr \<times> bytes) list eext) r. (\<Sum>e\<leftarrow>streams_of X r demo_options. length (d_hashes_by_seq (snd e))) = 2 \<and>
     pv_records (rp_proven (verify_bundle X r demo_options)) = 2 \<and>
     pv_attested_records (rp_proven (verify_bundle X r demo_options)) \<le> 2"
proof -
  obtain X :: "(ustr \<times> bytes) list eext" and r where p: "rp_result (verify_bundle X r demo_options) = Pass"
    "scoped r = {lit ''5''}" "read_stream_records X r (lit ''5'') = ([[0], [1]], Inr 2)" by (rule demo_honest)
  obtain d where d: "streams_of X r demo_options = [(lit ''5'', d)]" using p(2) by (rule single_stream)
  from p d have "length (d_hashes_by_seq d) = length [[0], [1 :: byte]]" by (intro accepted_length [where opts = demo_options]) simp_all
  with d have s: "(\<Sum>e\<leftarrow>streams_of X r demo_options. length (d_hashes_by_seq (snd e))) = 2" by simp
  then have "(\<Sum>e\<leftarrow>streams_of X r demo_options. length (d_hashes_by_seq (snd e))) < 2 ^ 64" by simp
  from proven_counts_ordered [OF this] have q: "unat (pv_records (rp_proven (verify_bundle X r demo_options))) = 2"
    "pv_attested_records (rp_proven (verify_bundle X r demo_options)) \<le> pv_records (rp_proven (verify_bundle X r demo_options))"
    unfolding s by (simp_all add: Let_def)
  from q(1) have "pv_records (rp_proven (verify_bundle X r demo_options)) = 2"
    by (simp add: word_unat_eq_iff)
  with q(2) s show ?thesis by auto
qed

text \<open>
  C5: The verdict Pass means that the end of every stream is bounded from outside the bundle. A scoped stream
  with records has an extent that the operator pinned, or that a verified countersignature stored with one of its
  checkpoints asserts; and the key of that countersignature was given on the command line, or is
  attested by a root that was given there or is embedded in the program, so that no bundle can bring its own. A record
  with at least that number is present. Without such an extent the verifier never answers Pass: a stream cut at its
  end is not presented as complete.
\<close>

theorem pass_bounds_extent:
  assumes "rp_result (verify_bundle X r opts) = Pass" and "i \<in> scoped r"
    and "read_stream_records X r i = (ls, res)" and "ls \<noteq> []" and "length ls < 2 ^ 64"
  shows "\<exists>hw line v. outside_extent X r opts i hw \<and> line \<in> set ls \<and> x_json_parse X line = Inr v \<and> hw \<le> record_seq v"
proof -
  from assms(1) have f: "compute_result (rp_findings (verify_bundle X r opts)) = Pass" by (simp add: bundle_findings(1))
  from assms(1) have nf: "rp_result (verify_bundle X r opts) \<noteq> Fail" by simp
  from nf assms(2) obtain d d' fs where e: "examined X r opts i d d' fs" "(i, d') \<in> set (streams_of X r opts)" "no_errors fs"
    by (rule accepted_scoped)
  from pass_subset [OF f, of "coverage_findings opts (i, d')"] scoped_findings [OF e(1,2)]
  have "compute_result (coverage_findings opts (i, d')) = Pass" by simp
  then have u: "unproven_tail (map_of (vo_expected_high_water opts) i) i d' = []"
    by (auto simp: coverage_findings_def unproven_tail_def Let_def split: if_splits)
  from accepted_length [OF nf e(2) assms(3)] assms(4,5) have "0 < (of_nat (length (d_hashes_by_seq d')) :: u64)"
    by (auto simp: word_gt_0 word_of_nat_eq_0_iff dest: dvd_imp_le)
  from externally_bounded [OF e(1,3) u this] obtain hw where hw: "map_of (vo_expected_high_water opts) i = Some hw \<or>
      (\<exists>c. stream_checkpoints X r i = Inr c \<and>
      (\<exists>bc \<in> set (st_checkpoints c). asserted_high_water X (tru_console_keys (trust_of X r opts)) bc = Some hw))" by blast
  from assms(1) have "compute_result (snd (identity_stage X r opts (now_of X opts))) = Pass" by (simp add: bundle_findings)
  from outside_extentI [OF this hw] reach_high_water [OF nf assms(2) hw] assms(3) show ?thesis by auto
qed

theorem pass_bounds_extent_witness:
  "\<exists>(X :: (ustr \<times> bytes) list eext) r hw line v. rp_result (verify_bundle X r demo_options) = Pass \<and>
     outside_extent X r demo_options (lit ''5'') hw \<and> line \<in> set [[0], [1]] \<and> x_json_parse X line = Inr v \<and> hw \<le> record_seq v"
proof -
  obtain X :: "(ustr \<times> bytes) list eext" and r where p: "rp_result (verify_bundle X r demo_options) = Pass"
    "scoped r = {lit ''5''}" "read_stream_records X r (lit ''5'') = ([[0], [1]], Inr 2)" by (rule demo_honest)
  have s: "lit ''5'' \<in> scoped r" "[[0], [1 :: byte]] \<noteq> []" "length [[0], [1 :: byte]] < 2 ^ 64" using p(2) by simp_all
  from pass_bounds_extent [OF p(1) s(1) p(3) s(2,3)] p(1) show ?thesis by blast
qed

end
