(* ===== verification/Report_Json.thy ===== *)
theory Report_Json
  imports Report Records
begin

text \<open>
  The machine-readable report: what serde derives for the types of \<open>verify/src/report.rs\<close>. A message is
  printed as text first; \<open>dbg\<close> gives the text of the parts in \<open>Debug\<close> form and of JSON numbers.
\<close>

section \<open>Text of a message\<close>

definition int_text :: "int \<Rightarrow> ustr" where
  "int_text i = (if i < 0 then 45 # dec_digits (nat (- i)) else dec_digits (nat i))"

fun part_text :: "(part \<Rightarrow> ustr) \<Rightarrow> part \<Rightarrow> ustr" where
  "part_text dbg (T s) = lit s"
| "part_text dbg (S s) = s"
| "part_text dbg (N n) = dec_digits n"
| "part_text dbg (Z i) = int_text i"
| "part_text dbg p = dbg p"

definition msg_text :: "(part \<Rightarrow> ustr) \<Rightarrow> msg \<Rightarrow> ustr" where
  "msg_text dbg m = concat (map (part_text dbg) m)"

section \<open>Serialization\<close>

fun verify_result_str :: "VerifyResult \<Rightarrow> string" where
  "verify_result_str Pass = ''pass''"
| "verify_result_str PassWithFindings = ''pass_with_findings''"
| "verify_result_str Fail = ''fail''"

fun severity_str :: "Severity \<Rightarrow> string" where
  "severity_str Info = ''info''"
| "severity_str Warning = ''warning''"
| "severity_str Error = ''error''"

definition finding_json :: "(part \<Rightarrow> ustr) \<Rightarrow> Finding \<Rightarrow> json" where
  "finding_json dbg f = Object (
     fld ''severity'' (String (lit (severity_str (f_severity f)))) @
     fld ''class'' (String (lit (f_class f))) @
     fld ''message'' (String (msg_text dbg (f_message f))) @
     opt_fld ''stream_id'' (map_option String (f_stream_id f)) @
     opt_fld ''seq'' (map_option U64 (f_seq f)))"

definition proven_json :: "Proven \<Rightarrow> json" where
  "proven_json p = Object (
     fld ''records'' (U64 (pv_records p)) @
     fld ''streams'' (U64 (pv_streams p)) @
     opt_fld ''span_from'' (map_option String (pv_span_from p)) @
     opt_fld ''span_to'' (map_option String (pv_span_to p)) @
     opt_fld ''earliest_anchor'' (map_option String (pv_earliest_anchor p)) @
     fld ''attested_records'' (U64 (pv_attested_records p)) @
     fld ''anchored_records'' (U64 (pv_anchored_records p)))"

definition tool_versions_json :: "ToolVersions \<Rightarrow> json" where
  "tool_versions_json t = Object (
     fld ''verifier'' (String (tv_verifier t)) @ fld ''bundle_schema'' (String (tv_bundle_schema t)))"

definition report_json :: "(part \<Rightarrow> ustr) \<Rightarrow> Report \<Rightarrow> json" where
  "report_json dbg r = Object (
     fld ''result'' (String (lit (verify_result_str (rp_result r)))) @
     fld ''bundle_id'' (String (rp_bundle_id r)) @
     fld ''manifest_hash'' (String (rp_manifest_hash r)) @
     fld ''tool'' (tool_versions_json (rp_tool r)) @
     fld ''proven'' (proven_json (rp_proven r)) @
     fld ''findings'' (Array (map (finding_json dbg) (rp_findings r))) @
     fld ''limits'' (str_list (rp_limits r)))"

section \<open>Nothing is lost\<close>

definition same_finding :: "(part \<Rightarrow> ustr) \<Rightarrow> Finding \<Rightarrow> Finding \<Rightarrow> bool" where
  "same_finding dbg f g \<longleftrightarrow> f_severity f = f_severity g \<and> f_class f = f_class g \<and> f_stream_id f = f_stream_id g \<and>
     f_seq f = f_seq g \<and> msg_text dbg (f_message f) = msg_text dbg (f_message g)"

lemma verify_result_str_inj: "verify_result_str a = verify_result_str b \<Longrightarrow> a = b"
  by (cases a; cases b) simp_all

lemma severity_str_inj: "severity_str a = severity_str b \<Longrightarrow> a = b"
  by (cases a; cases b) simp_all

lemma members_eq: "Object a = Object b \<Longrightarrow> map_of a k = map_of b k"
  by simp

lemma option_map_inj: "inj f \<Longrightarrow> map_option f a = map_option f b \<Longrightarrow> a = b"
  by (metis option.inj_map_strong injD)

lemma finding_json_inj: "finding_json dbg f = finding_json dbg g \<Longrightarrow> same_finding dbg f g"
proof -
  assume "finding_json dbg f = finding_json dbg g"
  note m = members_eq [OF this [unfolded finding_json_def], unfolded lookup_append]
  have "f_stream_id f = f_stream_id g" using m [of "lit ''stream_id''"]
    by (intro option_map_inj [of String]) (simp_all add: inj_def)
  moreover have "f_seq f = f_seq g" using m [of "lit ''seq''"]
    by (intro option_map_inj [of U64]) (simp_all add: inj_def)
  ultimately show ?thesis using m [of "lit ''severity''"] m [of "lit ''class''"] m [of "lit ''message''"]
    by (simp add: same_finding_def severity_str_inj)
qed

lemma proven_json_inj: "proven_json p = proven_json q \<Longrightarrow> p = q"
proof -
  assume "proven_json p = proven_json q"
  note m = members_eq [OF this [unfolded proven_json_def], unfolded lookup_append]
  have "pv_span_from p = pv_span_from q" "pv_span_to p = pv_span_to q" "pv_earliest_anchor p = pv_earliest_anchor q"
    using m [of "lit ''span_from''"] m [of "lit ''span_to''"] m [of "lit ''earliest_anchor''"]
    by (intro option_map_inj [of String]; simp add: inj_def)+
  then show "p = q"
    using m [of "lit ''records''"] m [of "lit ''streams''"] m [of "lit ''attested_records''"] m [of "lit ''anchored_records''"]
    by (intro Proven.equality) simp_all
qed

text \<open>
  The JSON report determines the report: equal documents mean the same verdict, identifiers, counts and limits,
  and the same findings in the same order, with messages that read the same.
\<close>

lemma json_report_lossless:
  assumes "report_json dbg r = report_json dbg q"
  shows "rp_result r = rp_result q \<and> rp_bundle_id r = rp_bundle_id q \<and> rp_manifest_hash r = rp_manifest_hash q \<and>
    rp_tool r = rp_tool q \<and> rp_proven r = rp_proven q \<and> rp_limits r = rp_limits q \<and>
    list_all2 (same_finding dbg) (rp_findings r) (rp_findings q)"
proof -
  note m = members_eq [OF assms [unfolded report_json_def], unfolded lookup_append]
  have "map (finding_json dbg) (rp_findings r) = map (finding_json dbg) (rp_findings q)"
    using m [of "lit ''findings''"] by simp
  then have "list_all2 (same_finding dbg) (rp_findings r) (rp_findings q)"
    by (auto simp: list_all2_conv_all_nth dest: map_eq_imp_length_eq intro!: finding_json_inj) (metis map_eq_imp_length_eq nth_map)
  moreover have "rp_limits r = rp_limits q"
    using m [of "lit ''limits''"] by (simp add: str_list_def inj_map_eq_map inj_def)
  moreover have "rp_tool r = rp_tool q"
    using m [of "lit ''tool''"] by (intro ToolVersions.equality) (simp_all add: tool_versions_json_def fld_def)
  ultimately show ?thesis
    using m [of "lit ''result''"] m [of "lit ''bundle_id''"] m [of "lit ''manifest_hash''"] m [of "lit ''proven''"]
    by (simp add: verify_result_str_inj proven_json_inj)
qed

end
