(* ===== verification/Cli.thy ===== *)
theory Cli
  imports Verdict Report_Json
begin

text \<open>
  The command line (\<open>verify/src/main.rs\<close>): splitting it into arguments, reading the
  files it names, opening the bundle, parsing the pinned extents, running the engine, printing the
  report and choosing the exit code. The argument parser that \<open>clap\<close> generates (which ends the process itself
  on \<open>--help\<close> and on errors), the file system, the \<open>Debug\<close> form of text and the JSON printer are fields of \<open>host\<close>.
\<close>

section \<open>Arguments and outcome\<close>

record Args =
  a_bundle :: ustr
  a_root :: "ustr option"
  a_console_key :: "ustr option"
  a_expect_high_water :: "ustr list"
  a_json :: bool

record Outcome =
  o_stdout :: msg
  o_stderr :: msg
  o_code :: byte

record 'w host =
  x_parse_args :: "ustr list \<Rightarrow> Outcome + Args"
  x_read_to_string :: "ustr \<Rightarrow> ustr + ustr"
  x_file_open :: "ustr \<Rightarrow> ustr + 'w"
  x_debug :: "part \<Rightarrow> ustr"
  x_to_string_pretty :: "json \<Rightarrow> ustr + ustr"

definition usage_error :: "msg \<Rightarrow> Outcome" where
  "usage_error m = \<lparr>o_stdout = [], o_stderr = T ''sealr-verify: '' # m @ [newline], o_code = 30\<rparr>"

definition bad_extent :: "msg \<Rightarrow> Outcome" where
  "bad_extent m = \<lparr>o_stdout = [], o_stderr = m @ [newline], o_code = 2\<rparr>"

definition read_opt_file :: "'w host \<Rightarrow> ustr option \<Rightarrow> string \<Rightarrow> msg + ustr option" where
  "read_opt_file H name what =
     (case name of
        None \<Rightarrow> Inr None
      | Some p \<Rightarrow>
          (case x_read_to_string H p of
             Inl e \<Rightarrow> Inl [T ''cannot read '', T what, T '' '', S p, T '': '', S e]
           | Inr s \<Rightarrow> Inr (Some s)))"

section \<open>Pinned extents\<close>

fun split_once :: "uchar \<Rightarrow> ustr \<Rightarrow> (ustr \<times> ustr) option" where
  "split_once c [] = None"
| "split_once c (x # s) = (if x = c then Some ([], s) else map_option (\<lambda>(a, b). (x # a, b)) (split_once c s))"

definition trim :: "ustr \<Rightarrow> ustr" where
  "trim s = rev (dropWhile is_whitespace (rev (dropWhile is_whitespace s)))"

text \<open>\<open>str::parse::<u64>\<close>: an optional plus sign, then at least one digit, no overflow.\<close>

definition parse_u64 :: "ustr \<Rightarrow> u64 option" where
  "parse_u64 s =
     (let digits = (case s of [] \<Rightarrow> [] | c # rest \<Rightarrow> if c = 43 then rest else s)
      in if digits \<noteq> [] \<and> list_all is_digit digits \<and> digits_val digits < 2 ^ 64
         then Some (of_nat (digits_val digits)) else None)"

fun parse_extents :: "ustr list \<Rightarrow> (ustr \<times> u64) list \<Rightarrow> msg + (ustr \<times> u64) list" where
  "parse_extents [] m = Inr m"
| "parse_extents (spec # specs) m =
     (case split_once 61 spec of
        None \<Rightarrow> Inl [T ''--expect-high-water expects STREAM_ID=SEQ, got '', D spec]
      | Some (stream, seq) \<Rightarrow>
          (case parse_u64 (trim seq) of
             None \<Rightarrow> Inl [T ''--expect-high-water: '', D seq, T '' is not a sequence number'']
           | Some n \<Rightarrow> parse_extents specs (hash_insert (trim stream) n m)))"

section \<open>The program\<close>

definition print_report :: "'w host \<Rightarrow> bool \<Rightarrow> Report \<Rightarrow> Outcome" where
  "print_report H json report =
     (let code = of_int (exit_code report) in
      if json
      then case x_to_string_pretty H (report_json (x_debug H) report) of
             Inl e \<Rightarrow> usage_error [T ''report serialization failed: '', S e]
           | Inr s \<Rightarrow> \<lparr>o_stdout = [S s, newline], o_stderr = [], o_code = code\<rparr>
      else \<lparr>o_stdout = render_text report, o_stderr = [], o_code = code\<rparr>)"

definition cli_main :: "('w, 'x) eext_scheme \<Rightarrow> 'w host \<Rightarrow> Args \<Rightarrow> Outcome" where
  "cli_main X H args =
     (case read_opt_file H (a_root args) ''--root'' of
        Inl e \<Rightarrow> usage_error e
      | Inr root_pem_override \<Rightarrow>
     (case read_opt_file H (a_console_key args) ''--console-key'' of
        Inl e \<Rightarrow> usage_error e
      | Inr console_key_override \<Rightarrow>
     (case x_file_open H (a_bundle args) of
        Inl e \<Rightarrow> usage_error [T ''cannot open bundle '', S (a_bundle args), T '': '', S e]
      | Inr fil \<Rightarrow>
     (case reader_open X fil of
        Inl e \<Rightarrow> usage_error (T ''not a readable .seal bundle: '' # display_bundle_error X e)
      | Inr reader \<Rightarrow>
     (case parse_extents (a_expect_high_water args) [] of
        Inl m \<Rightarrow> bad_extent m
      | Inr expected_high_water \<Rightarrow>
          print_report H (a_json args) (verify_bundle X reader
            \<lparr>vo_root_pem_override = root_pem_override, vo_console_key_override = console_key_override,
             vo_now_unix = None, vo_expected_high_water = expected_high_water\<rparr>))))))"

definition sealr_verify :: "('w, 'x) eext_scheme \<Rightarrow> 'w host \<Rightarrow> ustr list \<Rightarrow> Outcome" where
  "sealr_verify X H argv = (case x_parse_args H argv of Inl outcome \<Rightarrow> outcome | Inr args \<Rightarrow> cli_main X H args)"

section \<open>Exit codes\<close>

lemma report_code:
  "(of_int (exit_code r) :: byte) = (case rp_result r of Pass \<Rightarrow> 0 | PassWithFindings \<Rightarrow> 10 | Fail \<Rightarrow> 11)"
  by (simp add: exit_code_def split: VerifyResult.split)

lemma print_report_code:
  "o_code (print_report H json r) =
     (if json \<and> \<not> is_ok (x_to_string_pretty H (report_json (x_debug H) r)) then 30 else case rp_result r of Pass \<Rightarrow> 0 | PassWithFindings \<Rightarrow> 10 | Fail \<Rightarrow> 11)"
  by (auto simp: print_report_def report_code usage_error_def Let_def is_ok_iff split: sum.split)

lemma report_result_member: "get (report_json dbg r) (lit ''result'') = Some (String (lit (verify_result_str (rp_result r))))"
  by (simp add: get_def report_json_def lookup_append or_else_def)

section \<open>What the arguments ask for\<close>

text \<open>
  The meaning of the arguments, stated without the program. An extent is a text with an equals sign; what stands before the
  first one names the stream, what stands after it is a decimal number below \<open>2 ^ 64\<close>, with an
  optional plus sign, and blanks around either do not count. The last extent given for a stream decides.
\<close>

definition extent_of :: "ustr \<Rightarrow> (ustr \<times> u64) option" where
  "extent_of spec =
     (let number = trim (drop 1 (dropWhile (\<lambda>c. c \<noteq> 61) spec));
          digits = (if take 1 number = [43] then drop 1 number else number)
      in if 61 \<in> set spec \<and> digits \<noteq> [] \<and> list_all is_digit digits \<and> digits_val digits < 2 ^ 64
         then Some (trim (takeWhile (\<lambda>c. c \<noteq> 61) spec), of_nat (digits_val digits)) else None)"

definition pinned :: "ustr list \<Rightarrow> ustr \<Rightarrow> u64 option" where
  "pinned specs = map_of (rev (List.map_filter extent_of specs))"

definition file_text :: "'w host \<Rightarrow> ustr option \<Rightarrow> ustr option \<Rightarrow> bool" where
  "file_text H name got =
     (case name of None \<Rightarrow> got = None | Some p \<Rightarrow> (\<exists>s. x_read_to_string H p = Inr s \<and> got = Some s))"

definition inputs_open :: "('w, 'x) eext_scheme \<Rightarrow> 'w host \<Rightarrow> Args \<Rightarrow> BundleReader \<Rightarrow> bool" where
  "inputs_open X H args r \<longleftrightarrow> (\<exists>a. file_text H (a_root args) a) \<and> (\<exists>b. file_text H (a_console_key args) b) \<and>
     (\<exists>fil. x_file_open H (a_bundle args) = Inr fil \<and> reader_open X fil = Inr r)"

definition asked :: "'w host \<Rightarrow> Args \<Rightarrow> VerifyOptions \<Rightarrow> bool" where
  "asked H args opts \<longleftrightarrow> file_text H (a_root args) (vo_root_pem_override opts) \<and>
     file_text H (a_console_key args) (vo_console_key_override opts) \<and> vo_now_unix opts = None \<and>
     list_all (\<lambda>spec. extent_of spec \<noteq> None) (a_expect_high_water args) \<and>
     map_of (vo_expected_high_water opts) = pinned (a_expect_high_water args)"

definition reported :: "('w, 'x) eext_scheme \<Rightarrow> 'w host \<Rightarrow> Args \<Rightarrow> Report \<Rightarrow> bool" where
  "reported X H args report \<longleftrightarrow> (\<exists>r opts. inputs_open X H args r \<and> asked H args opts \<and> report = verify_bundle X r opts)"

definition unprintable :: "'w host \<Rightarrow> Args \<Rightarrow> Report \<Rightarrow> bool" where
  "unprintable H args report \<longleftrightarrow> a_json args \<and> \<not> is_ok (x_to_string_pretty H (report_json (x_debug H) report))"

lemma split_once_at:
  "split_once c s = (if c \<in> set s then Some (takeWhile (\<lambda>x. x \<noteq> c) s, drop 1 (dropWhile (\<lambda>x. x \<noteq> c) s)) else None)"
  by (induction s) auto

lemma parse_u64_digits_of:
  "parse_u64 s = (let digits = (if take 1 s = [43] then drop 1 s else s) in
     if digits \<noteq> [] \<and> list_all is_digit digits \<and> digits_val digits < 2 ^ 64 then Some (of_nat (digits_val digits)) else None)"
  by (cases s) (auto simp: parse_u64_def Let_def)

lemma parse_extents_Cons:
  "parse_extents (spec # specs) m = (case extent_of spec of
     None \<Rightarrow> Inl (if 61 \<in> set spec then [T ''--expect-high-water: '', D (drop 1 (dropWhile (\<lambda>c. c \<noteq> 61) spec)), T '' is not a sequence number'']
       else [T ''--expect-high-water expects STREAM_ID=SEQ, got '', D spec])
   | Some (i, hw) \<Rightarrow> parse_extents specs (hash_insert i hw m))"
  by (simp add: split_once_at parse_u64_digits_of extent_of_def Let_def)

lemma parse_extents_append: "parse_extents (xs @ ys) m = rbind (parse_extents xs m) (parse_extents ys)"
  by (induction xs arbitrary: m) (simp_all add: parse_extents_Cons del: parse_extents.simps(2) split: option.split)

lemma parse_extents_lookup:
  "parse_extents specs m = Inr m' \<Longrightarrow> list_all (\<lambda>spec. extent_of spec \<noteq> None) specs \<and> map_of m' = map_of m ++ pinned specs"
proof (induction specs arbitrary: m)
  case (Cons spec specs)
  then show ?case
    by (auto simp: parse_extents_Cons map_of_hash_insert pinned_def List.map_filter_simps map_add_def fun_eq_iff
      simp del: parse_extents.simps(2) split: option.splits)
qed (simp add: pinned_def List.map_filter_simps)

lemma parse_extents_refused: "(\<exists>e. parse_extents specs m = Inl e) \<longleftrightarrow> \<not> list_all (\<lambda>spec. extent_of spec \<noteq> None) specs"
  by (induction specs arbitrary: m) (auto simp: parse_extents_Cons simp del: parse_extents.simps(2) split: option.splits)

lemma parse_extents_same_error: "parse_extents specs m = Inl e \<Longrightarrow> parse_extents specs m' = Inl e"
  by (induction specs arbitrary: m m') (auto simp: parse_extents_Cons simp del: parse_extents.simps(2) split: option.splits)

lemma read_opt_file_iff: "read_opt_file H name what = Inr c \<longleftrightarrow> file_text H name c"
  by (auto simp: read_opt_file_def file_text_def split: option.splits sum.splits)

section \<open>The endings of a run\<close>

lemma cli_reports:
  assumes "inputs_open X H args r" and "asked H args opts"
  shows "cli_main X H args = print_report H (a_json args) (verify_bundle X r opts)"
proof -
  from assms(2) parse_extents_refused [of "a_expect_high_water args" "[]"] obtain hw where
    hw: "parse_extents (a_expect_high_water args) [] = Inr hw" by (cases "parse_extents (a_expect_high_water args) []") (auto simp: asked_def)
  with assms(2) have "map_of hw = map_of (vo_expected_high_water opts)"
    using parse_extents_lookup [OF hw] by (simp add: asked_def)
  then have "verify_bundle X r (opts\<lparr>vo_expected_high_water := hw\<rparr>) = verify_bundle X r opts"
    by (intro verify_bundle_pins) simp
  moreover from assms(2) have "opts\<lparr>vo_expected_high_water := hw\<rparr> = \<lparr>vo_root_pem_override = vo_root_pem_override opts,
      vo_console_key_override = vo_console_key_override opts, vo_now_unix = None, vo_expected_high_water = hw\<rparr>"
    by (intro VerifyOptions.equality) (simp_all add: asked_def)
  moreover from assms(2) have "read_opt_file H (a_root args) ''--root'' = Inr (vo_root_pem_override opts)"
    "read_opt_file H (a_console_key args) ''--console-key'' = Inr (vo_console_key_override opts)"
    by (simp_all add: asked_def read_opt_file_iff)
  ultimately show ?thesis using assms(1) hw by (auto simp: cli_main_def inputs_open_def)
qed

lemma cli_closed: "(\<And>r. \<not> inputs_open X H args r) \<Longrightarrow> o_code (cli_main X H args) = 30"
  by (auto simp: cli_main_def usage_error_def inputs_open_def read_opt_file_iff split: sum.splits)

lemma cli_refused:
  assumes "inputs_open X H args r" and "\<not> list_all (\<lambda>spec. extent_of spec \<noteq> None) (a_expect_high_water args)"
  shows "o_code (cli_main X H args) = 2"
proof -
  from assms(2) parse_extents_refused obtain e where "parse_extents (a_expect_high_water args) [] = Inl e" by metis
  moreover from assms(1) obtain a b where "read_opt_file H (a_root args) ''--root'' = Inr a"
    "read_opt_file H (a_console_key args) ''--console-key'' = Inr b" by (auto simp: inputs_open_def read_opt_file_iff)
  ultimately show ?thesis using assms(1) by (auto simp: cli_main_def bad_extent_def inputs_open_def)
qed

lemma asked_exists:
  assumes "inputs_open X H args r" and "list_all (\<lambda>spec. extent_of spec \<noteq> None) (a_expect_high_water args)"
  shows "\<exists>opts. asked H args opts"
proof -
  from assms(1) obtain a b where "file_text H (a_root args) a" "file_text H (a_console_key args) b" by (auto simp: inputs_open_def)
  with assms(2) have "asked H args \<lparr>vo_root_pem_override = a, vo_console_key_override = b, vo_now_unix = None,
      vo_expected_high_water = rev (List.map_filter extent_of (a_expect_high_water args))\<rparr>" by (simp add: asked_def pinned_def)
  then show ?thesis ..
qed

lemma cli_endings:
  obtains (closed) "\<And>r. \<not> inputs_open X H args r" "o_code (cli_main X H args) = 30"
  | (refused) r where "inputs_open X H args r" "\<not> list_all (\<lambda>spec. extent_of spec \<noteq> None) (a_expect_high_water args)"
      "o_code (cli_main X H args) = 2"
  | (printed) r opts where "inputs_open X H args r" "asked H args opts"
      "cli_main X H args = print_report H (a_json args) (verify_bundle X r opts)"
  by (metis asked_exists cli_closed cli_refused cli_reports)

lemma reported_once: "reported X H args a \<Longrightarrow> reported X H args b \<Longrightarrow> a = b"
proof -
  assume "reported X H args a" "reported X H args b"
  then obtain r opts opts' where a: "asked H args opts" "a = verify_bundle X r opts"
    and b: "asked H args opts'" "b = verify_bundle X r opts'" by (auto simp: reported_def inputs_open_def)
  from a(1) b(1) have "opts' = opts\<lparr>vo_expected_high_water := vo_expected_high_water opts'\<rparr>"
    by (intro VerifyOptions.equality) (auto simp: asked_def file_text_def split: option.splits)
  moreover from a(1) b(1) have "map_of (vo_expected_high_water opts') = map_of (vo_expected_high_water opts)" by (simp add: asked_def)
  ultimately show "a = b" using a(2) b(2) verify_bundle_pins [of r "vo_expected_high_water opts'" opts X] by metis
qed

definition severities :: "Report \<Rightarrow> Severity set" where
  "severities report = f_severity ` set (rp_findings report)"

lemma verdict_severities:
  "rp_result (verify_bundle X r opts) = (if Error \<in> severities (verify_bundle X r opts) then Fail
     else if Warning \<in> severities (verify_bundle X r opts) then PassWithFindings else Pass)"
  by (auto simp: bundle_findings(1) compute_result_def list_ex_iff severities_def image_iff) metis+

lemma printed_code:
  assumes "inputs_open X H args r" and "asked H args opts" and "report = verify_bundle X r opts"
  shows "o_code (cli_main X H args) = (if unprintable H args report then 30 else if Error \<in> severities report then 11
    else if Warning \<in> severities report then 10 else 0)"
  unfolding cli_reports [OF assms(1,2)] print_report_code assms(3) verdict_severities by (simp add: unprintable_def)

lemma passing_run:
  assumes "o_code (cli_main X H args) \<in> {0, 10}"
  obtains r opts where "inputs_open X H args r" "asked H args opts" "rp_result (verify_bundle X r opts) \<noteq> Fail"
proof (cases rule: cli_endings [of X H args])
  case (printed r opts)
  with assms have "rp_result (verify_bundle X r opts) \<noteq> Fail" by (auto simp: print_report_code split: if_splits)
  with printed(1,2) show ?thesis by (rule that)
qed (use assms in simp_all)

lemma verdict_run:
  assumes "o_code (cli_main X H args) \<in> {0, 10, 11}"
  obtains r opts where "inputs_open X H args r" "asked H args opts"
    "cli_main X H args = print_report H (a_json args) (verify_bundle X r opts)"
  by (cases rule: cli_endings [of X H args]) (use assms that in simp_all)

lemma pinned_last:
  assumes "extent_of spec = Some (i, hw)" and "\<forall>s \<in> set after. \<forall>n. extent_of s \<noteq> Some (i, n)"
  shows "pinned (before @ spec # after) i = Some hw"
proof -
  have "map_of (rev (List.map_filter extent_of after)) i = None"
    using assms(2) by (auto simp: map_of_eq_None_iff List.map_filter_def)
  moreover have "List.map_filter extent_of (before @ spec # after) =
      List.map_filter extent_of before @ (i, hw) # List.map_filter extent_of after"
    using assms(1) by (simp add: List.map_filter_def)
  ultimately show ?thesis by (simp add: pinned_def map_add_def)
qed

lemma cli_pins:
  assumes "parse_extents (a_expect_high_water args) [] = Inr m" and "parse_extents specs [] = Inr m'"
    and "x_file_open H (a_bundle args) = Inr fil" and "reader_open X fil = Inr r"
    and "\<And>i. i \<in> scoped r \<Longrightarrow> map_of m' i = map_of m i"
  shows "cli_main X H (args\<lparr>a_expect_high_water := specs\<rparr>) = cli_main X H args"
  using assms(1-4) verify_bundle_pins [of r m' "\<lparr>vo_root_pem_override = a, vo_console_key_override = b, vo_now_unix = None,
    vo_expected_high_water = m\<rparr>" X for a b] assms(5)
  by (cases "read_opt_file H (a_root args) ''--root''"; cases "read_opt_file H (a_console_key args) ''--console-key''")
    (simp_all add: cli_main_def)

lemma unscoped_pin:
  assumes "extent_of spec = Some (i, hw)" and "x_file_open H (a_bundle args) = Inr fil" and "reader_open X fil = Inr r"
    and "i \<notin> scoped r" and "a_expect_high_water args = before @ spec # after"
  shows "cli_main X H (args\<lparr>a_expect_high_water := before @ after\<rparr>) = cli_main X H args"
proof (cases "parse_extents (before @ spec # after) []")
  case (Inl e)
  have "parse_extents (before @ after) [] = Inl e"
  proof (cases "parse_extents before []")
    case (Inr m)
    with Inl assms(1) have "parse_extents after (hash_insert i hw m) = Inl e"
      by (simp add: parse_extents_append parse_extents_Cons del: parse_extents.simps(2))
    from parse_extents_same_error [OF this] Inr show ?thesis by (simp add: parse_extents_append)
  qed (use Inl in \<open>simp add: parse_extents_append\<close>)
  with Inl assms(5) show ?thesis by (simp add: cli_main_def cong: sum.case_cong)
next
  case (Inr m1)
  with assms(1) obtain m where m: "parse_extents before [] = Inr m" "parse_extents after (hash_insert i hw m) = Inr m1"
    by (auto simp: parse_extents_append parse_extents_Cons rbind_eq_Inr simp del: parse_extents.simps(2))
  then obtain m2 where m2: "parse_extents after m = Inr m2"
    using parse_extents_refused [of after m] parse_extents_refused [of after "hash_insert i hw m"]
    by (cases "parse_extents after m") auto
  show ?thesis
  proof (rule cli_pins [OF _ _ assms(2,3)])
    show "parse_extents (a_expect_high_water args) [] = Inr m1" using Inr assms(5) by simp
    show "parse_extents (before @ after) [] = Inr m2" using m(1) m2 by (simp add: parse_extents_append)
    show "map_of m2 j = map_of m1 j" if "j \<in> scoped r" for j
    proof -
      have "j \<noteq> i" using that assms(4) by blast
      then show ?thesis using parse_extents_lookup [OF m(2)] parse_extents_lookup [OF m2]
        by (simp add: map_of_hash_insert map_add_def split: option.split)
    qed
  qed
qed

section \<open>A concrete host\<close>

definition demo_args :: "ustr list \<Rightarrow> Args" where
  "demo_args specs = \<lparr>a_bundle = [], a_root = Some [], a_console_key = None, a_expect_high_water = specs, a_json = True\<rparr>"

definition demo_host :: "(ustr \<times> bytes) list host" where
  "demo_host = \<lparr>x_parse_args = (\<lambda>argv. Inr (demo_args argv)),
     x_read_to_string = (\<lambda>p. Inr demo_root), x_file_open = (\<lambda>p. Inr demo_archive),
     x_debug = (\<lambda>p. []), x_to_string_pretty = (\<lambda>v. Inr [])\<rparr>"

lemma demo_host_simps [simp]:
  "x_read_to_string demo_host p = Inr demo_root" "x_file_open demo_host p = Inr demo_archive"
  "x_to_string_pretty demo_host v = Inr []"
  "x_parse_args demo_host argv = Inr (demo_args argv)"
  by (simp_all add: demo_host_def)

lemma demo_inputs: "reader_open X demo_archive = Inr r \<Longrightarrow> inputs_open X demo_host (demo_args specs) r"
  by (simp add: inputs_open_def file_text_def demo_args_def)

lemma demo_extents [simp]: "extent_of (lit ''5=1'') = Some (lit ''5'', 1)" "extent_of (lit ''7=+9'') = Some (lit ''7'', 9)"
  by (simp_all add: extent_of_def lit_def trim_def is_whitespace_def digits_val_def)

lemma demo_asked:
  assumes "reader_open X demo_archive = Inr r" and "scoped r = {lit ''5''}" and "specs \<in> {[lit ''5=1''], [lit ''5=1'', lit ''7=+9'']}"
  shows "cli_main X demo_host (demo_args specs) = print_report demo_host True (verify_bundle X r demo_options)"
proof -
  let ?m = "rev (List.map_filter extent_of specs)"
  have "cli_main X demo_host (demo_args specs) = print_report demo_host True (verify_bundle X r (demo_options\<lparr>vo_expected_high_water := ?m\<rparr>))"
    using assms(3) cli_reports [OF demo_inputs [OF assms(1), of specs], of "demo_options\<lparr>vo_expected_high_water := ?m\<rparr>"]
    by (auto simp: asked_def file_text_def pinned_def demo_args_def demo_options_def)
  also have "verify_bundle X r (demo_options\<lparr>vo_expected_high_water := ?m\<rparr>) = verify_bundle X r demo_options"
    using assms(2,3) by (intro verify_bundle_pins) (auto simp: List.map_filter_def demo_options_def)
  finally show ?thesis .
qed

lemma demo_exit:
  assumes "rp_result (verify_bundle X r demo_options) = Pass" and "reader_open X demo_archive = Inr r" and "scoped r = {lit ''5''}"
    and "specs \<in> {[lit ''5=1''], [lit ''5=1'', lit ''7=+9'']}"
  shows "o_code (cli_main X demo_host (demo_args specs)) = 0"
  using assms(1) by (simp add: demo_asked [OF assms(2-4)] print_report_code)

section \<open>Properties\<close>

text \<open>
  C29: The exit code tells how the run ended. When the argument parser accepts the command line, the program exits with
  30 exactly if a file it names cannot be read, the bundle cannot be opened or the JSON report cannot be
  printed; with 2 exactly if all inputs open but an extent is malformed; and otherwise with the code of what the engine
  found in that bundle, under the roots, console key and extents that were given: 11 if a finding is an error, 10 if there
  are warnings but no error, 0 if every finding is informational.
\<close>

theorem exit_code_tells_ending:
  assumes "x_parse_args H argv = Inr args"
  shows "let code = o_code (sealr_verify X H argv) in
    (code = 30 \<longleftrightarrow> (\<nexists>r. inputs_open X H args r) \<or> (\<exists>report. reported X H args report \<and> unprintable H args report)) \<and>
    (code = 2 \<longleftrightarrow> (\<exists>r. inputs_open X H args r) \<and> (\<exists>spec \<in> set (a_expect_high_water args). extent_of spec = None)) \<and>
    (code = 11 \<longleftrightarrow> (\<exists>report. reported X H args report \<and> \<not> unprintable H args report \<and> Error \<in> severities report)) \<and>
    (code = 10 \<longleftrightarrow> (\<exists>report. reported X H args report \<and> \<not> unprintable H args report \<and>
       Error \<notin> severities report \<and> Warning \<in> severities report)) \<and>
    (code = 0 \<longleftrightarrow> (\<exists>report. reported X H args report \<and> \<not> unprintable H args report \<and> severities report \<subseteq> {Info}))"
proof -
  have run: "sealr_verify X H argv = cli_main X H args" using assms by (simp add: sealr_verify_def)
  have ok: "reported X H args report \<Longrightarrow> \<forall>spec \<in> set (a_expect_high_water args). extent_of spec \<noteq> None" for report
    by (auto simp: reported_def asked_def list_all_iff)
  show ?thesis
  proof (cases rule: cli_endings [of X H args])
    case closed
    then show ?thesis unfolding run by (auto simp: reported_def)
  next
    case (refused r)
    then show ?thesis unfolding run using ok by (auto simp: list_all_iff simp del: not_None_eq)
  next
    case (printed r opts)
    let ?report = "verify_bundle X r opts"
    have r: "reported X H args report \<longleftrightarrow> report = ?report" for report
      using printed(1,2) reported_once [of X H args ?report report] reported_def [of X H args ?report] by metis
    have s: "severities report \<subseteq> {Info} \<longleftrightarrow> Error \<notin> severities report \<and> Warning \<notin> severities report" for report
      by (auto, metis Severity.exhaust)
    show ?thesis unfolding run printed_code [OF printed(1,2) refl] r s using printed(1) ok [unfolded r] by auto
  qed
qed


theorem exit_code_tells_ending_witness:
  "\<exists>(X :: (ustr \<times> bytes) list eext). (\<exists>report. reported X demo_host (demo_args [lit ''5=1'']) report \<and> severities report \<subseteq> {Info}) \<and>
     o_code (sealr_verify X demo_host [lit ''5:1'']) = 2"
proof (rule demo_honest)
  fix X :: "(ustr \<times> bytes) list eext" and r
  assume p: "rp_result (verify_bundle X r demo_options) = Pass" and o: "reader_open X demo_archive = Inr r" and s: "scoped r = {lit ''5''}"
  note a = demo_host_simps(4)
  from demo_exit [OF p o s] have "o_code (sealr_verify X demo_host [lit ''5=1'']) = 0" by (simp add: sealr_verify_def)
  then have "\<exists>report. reported X demo_host (demo_args [lit ''5=1'']) report \<and> severities report \<subseteq> {Info}"
    using exit_code_tells_ending [OF a, of X "[lit ''5=1'']"] by (auto simp: Let_def)
  moreover have "inputs_open X demo_host (demo_args [lit ''5:1'']) r" using o by (rule demo_inputs)
  then have "o_code (sealr_verify X demo_host [lit ''5:1'']) = 2"
    using exit_code_tells_ending [OF a, of X "[lit ''5:1'']"]
    by (auto simp: Let_def extent_of_def lit_def demo_args_def)
  ultimately show ?thesis by blast
qed

text \<open>
  C31: What an extent on the command line does. Take any well-formed \<open>--expect-high-water\<close> among those given. If its
  stream is in the scope of the bundle that opens, no later one names the same stream, and the exit code is one of the two
  passing ones, then the bundle has a record of that stream with at least the given number. If its stream is
  not in the scope, it has no effect at all: the program prints and returns exactly what it would without it.
\<close>

theorem pinned_extent_enforced_in_scope:
  assumes "a_expect_high_water args = before @ spec # after" and "extent_of spec = Some (i, hw)"
    and "x_file_open H (a_bundle args) = Inr fil" and "reader_open X fil = Inr r"
  shows "if i \<in> scoped r
    then (\<forall>s \<in> set after. \<forall>n. extent_of s \<noteq> Some (i, n)) \<and> o_code (cli_main X H args) \<in> {0, 10} \<longrightarrow>
      (\<exists>ls n line v. read_stream_records X r i = (ls, Inr n) \<and> line \<in> set ls \<and> x_json_parse X line = Inr v \<and> hw \<le> record_seq v)
    else cli_main X H (args\<lparr>a_expect_high_water := before @ after\<rparr>) = cli_main X H args"
proof (cases "i \<in> scoped r")
  case True
  {
    assume l: "\<forall>s \<in> set after. \<forall>n. extent_of s \<noteq> Some (i, n)" and c: "o_code (cli_main X H args) \<in> {0, 10}"
    from c obtain r' opts where o: "inputs_open X H args r'" "asked H args opts" "rp_result (verify_bundle X r' opts) \<noteq> Fail"
      by (rule passing_run)
    from o(1) assms(3,4) have "r' = r" by (auto simp: inputs_open_def)
    moreover from o(2) have "map_of (vo_expected_high_water opts) i = Some hw"
      using pinned_last [OF assms(2) l] by (simp add: asked_def assms(1))
    ultimately have "\<exists>ls n line v. read_stream_records X r i = (ls, Inr n) \<and> line \<in> set ls \<and> x_json_parse X line = Inr v \<and> hw \<le> record_seq v"
      using reach_high_water o(3) True by blast
  }
  with True show ?thesis by simp
next
  case False
  with unscoped_pin [OF assms(2-4) False assms(1)] show ?thesis by simp
qed

theorem pinned_extent_enforced_in_scope_witness:
  "\<exists>(X :: (ustr \<times> bytes) list eext) r line v. reader_open X demo_archive = Inr r \<and> lit ''7'' \<notin> scoped r \<and>
     o_code (cli_main X demo_host (demo_args [lit ''5=1'', lit ''7=+9''])) = 0 \<and>
     x_json_parse X line = Inr v \<and> 1 \<le> record_seq v \<and>
     cli_main X demo_host (demo_args [lit ''5=1'']) = cli_main X demo_host (demo_args [lit ''5=1'', lit ''7=+9''])"
proof (rule demo_honest)
  fix X :: "(ustr \<times> bytes) list eext" and r
  assume p: "rp_result (verify_bundle X r demo_options) = Pass" and s: "scoped r = {lit ''5''}"
    and o: "reader_open X demo_archive = Inr r"
  let ?args = "demo_args [lit ''5=1'', lit ''7=+9'']"
  have f: "x_file_open demo_host (a_bundle ?args) = Inr demo_archive" by simp
  have a: "a_expect_high_water ?args = [] @ lit ''5=1'' # [lit ''7=+9'']" "a_expect_high_water ?args = [lit ''5=1''] @ lit ''7=+9'' # []"
    by (simp_all add: demo_args_def)
  have z: "o_code (cli_main X demo_host ?args) = 0" by (rule demo_exit [OF p o s]) simp
  have ne: "lit ''7'' \<noteq> lit ''5''" by (simp add: lit_def)
  from pinned_extent_enforced_in_scope [OF a(1) demo_extents(1) f o] s z ne obtain line v where
    "x_json_parse X line = Inr v" "1 \<le> record_seq v" by auto
  moreover from pinned_extent_enforced_in_scope [OF a(2) demo_extents(2) f o] s ne have
    "cli_main X demo_host (demo_args [lit ''5=1'']) = cli_main X demo_host ?args" by (simp add: demo_args_def)
  ultimately show ?thesis using o s z ne by blast
qed

text \<open>
  A malformed extent is refused, but not with the documented code: when the files can be read and
  the bundle opens, an \<open>--expect-high-water\<close> without an equals sign ends the run with exit code 2,
  although the program documents 30 for usage errors. No verdict is given.
\<close>

theorem malformed_extent_exits_with_two:
  assumes "61 \<notin> set spec" and "a_expect_high_water args = spec # specs" and "a_root args = None" and "a_console_key args = None"
    and "x_file_open H (a_bundle args) = Inr fil" and "reader_open X fil = Inr r"
  shows "o_code (cli_main X H args) = 2 \<and> o_stdout (cli_main X H args) = []"
proof -
  have "split_once 61 spec = None" using assms(1) by (induction spec) auto
  with assms(2-6) show ?thesis by (simp add: cli_main_def read_opt_file_def bad_extent_def)
qed

theorem malformed_extent_exits_with_two_witness:
  "\<exists>(X :: (ustr \<times> bytes) list eext) H. o_code (cli_main X H \<lparr>a_bundle = [], a_root = None, a_console_key = None,
     a_expect_high_water = [lit ''5:1''], a_json = False\<rparr>) = 2"
proof (rule demo_honest)
  fix X :: "(ustr \<times> bytes) list eext" and r
  assume o: "reader_open X demo_archive = Inr r"
  let ?H = demo_host
  let ?args = "\<lparr>a_bundle = [], a_root = None, a_console_key = None, a_expect_high_water = [lit ''5:1''], a_json = False\<rparr>"
  have "o_code (cli_main X ?H ?args) = 2"
    by (rule malformed_extent_exits_with_two [where fil = demo_archive, OF _ _ _ _ _ o, THEN conjunct1]) (simp_all add: lit_def)
  then show ?thesis by blast
qed

text \<open>
  C30: What the program prints for machines says what its exit code says. If \<open>--json\<close> is among the arguments and the exit code
  is one of the three verdict codes, the output is the JSON form of the engine's report on the bundle that was
  opened, under the roots, console key and extents that were asked for. Its member \<open>result\<close> is \<open>pass\<close>
  exactly for the code 0, \<open>pass_with_findings\<close> for 10 and \<open>fail\<close> for 11; the standing limits are part of it; and no other
  report with another verdict, other counts or other findings has the same JSON form.
\<close>

theorem json_output_matches_exit_code:
  assumes "x_parse_args H argv = Inr args" and "a_json args" and "o_code (sealr_verify X H argv) \<in> {0, 10, 11}"
  shows "\<exists>r opts printed verdict. let report = verify_bundle X r opts; doc = report_json (x_debug H) report in
    inputs_open X H args r \<and> asked H args opts \<and>
    o_stdout (sealr_verify X H argv) = [S printed, newline] \<and> x_to_string_pretty H doc = Inr printed \<and>
    get doc (lit ''result'') = Some (String (lit verdict)) \<and>
    (o_code (sealr_verify X H argv), verdict) \<in> {(0, ''pass''), (10, ''pass_with_findings''), (11, ''fail'')} \<and>
    rp_limits report = STANDING_LIMITS \<and>
    (\<forall>other. report_json (x_debug H) other = doc \<longrightarrow> rp_result other = rp_result report \<and> rp_proven other = rp_proven report \<and>
       list_all2 (same_finding (x_debug H)) (rp_findings other) (rp_findings report))"
proof -
  have run: "sealr_verify X H argv = cli_main X H args" using assms(1) by (simp add: sealr_verify_def)
  from assms(3) obtain r opts where o: "inputs_open X H args r" "asked H args opts"
    and c: "cli_main X H args = print_report H (a_json args) (verify_bundle X r opts)" unfolding run by (rule verdict_run)
  let ?report = "verify_bundle X r opts"
  let ?verdict = "verify_result_str (rp_result ?report)"
  from assms(2,3) c obtain printed where "x_to_string_pretty H (report_json (x_debug H) ?report) = Inr printed"
    "o_stdout (cli_main X H args) = [S printed, newline]" "o_code (cli_main X H args) = of_int (exit_code ?report)"
    unfolding run by (auto simp: print_report_def usage_error_def Let_def split: sum.splits)
  moreover have "(of_int (exit_code ?report) :: byte, ?verdict) \<in> {(0, ''pass''), (10, ''pass_with_findings''), (11, ''fail'')}"
    by (simp add: report_code split: VerifyResult.split)
  moreover have "rp_limits ?report = STANDING_LIMITS" by (rule bundle_findings(4))
  ultimately show ?thesis
    using o unfolding run Let_def
    by (intro exI [of _ r] exI [of _ opts] exI [of _ printed] exI [of _ ?verdict] conjI)
      (auto simp only: report_result_member dest: json_report_lossless)
qed

theorem json_output_matches_exit_code_witness:
  "\<exists>(X :: (ustr \<times> bytes) list eext) r opts. o_code (sealr_verify X demo_host [lit ''5=1'']) = 0 \<and>
     asked demo_host (demo_args [lit ''5=1'']) opts \<and>
     get (report_json (x_debug demo_host) (verify_bundle X r opts)) (lit ''result'') = Some (String (lit ''pass''))"
proof (rule demo_honest)
  fix X :: "(ustr \<times> bytes) list eext" and r
  assume p: "rp_result (verify_bundle X r demo_options) = Pass" and o: "reader_open X demo_archive = Inr r"
    and s: "scoped r = {lit ''5''}"
  have z: "o_code (sealr_verify X demo_host [lit ''5=1'']) = 0"
    using demo_exit [OF p o s, of "[lit ''5=1'']"] by (simp add: sealr_verify_def)
  have j: "a_json (demo_args [lit ''5=1''])" by (simp add: demo_args_def)
  from json_output_matches_exit_code [OF demo_host_simps(4) j, of X] z show ?thesis by (auto simp: Let_def)
qed

end
