(* ===== verification/Agreement.thy ===== *)
theory Agreement
  imports Verdict
begin

text \<open>
  What two accepted copies of a stream have in common. A checkpoint note is signed once; if two
  bundles both hold it and neither fails, then the records it covers are the same records, and so are those
  under every earlier checkpoint that it reaches through its links.
\<close>

section \<open>Copies of a stream\<close>

definition parsed :: "'x vext_scheme \<Rightarrow> bytes list \<Rightarrow> json list" where
  "parsed X ls = List.map_filter (\<lambda>l. case x_json_parse X l of Inl e \<Rightarrow> None | Inr v \<Rightarrow> Some v) ls"

definition hash_table :: "'x vext_scheme \<Rightarrow> bytes list \<Rightarrow> (u64 \<times> ustr) list" where
  "hash_table X ls = map (\<lambda>v. (record_seq v, own_hash v)) (parsed X ls)"

definition covers :: "CheckpointNote \<Rightarrow> u64 \<Rightarrow> bool" where
  "covers nt s \<longleftrightarrow> n_seq_from nt \<le> s \<and> s \<le> n_seq_to nt"

definition fully_exported :: "'x vext_scheme \<Rightarrow> bytes list \<Rightarrow> CheckpointNote \<Rightarrow> bool" where
  "fully_exported X ls nt \<longleftrightarrow> (\<forall>s. covers nt s \<longrightarrow> s \<in> record_seq ` set (parsed X ls))"

definition range_hashes :: "'x vext_scheme \<Rightarrow> bytes list \<Rightarrow> CheckpointNote \<Rightarrow> ustr list" where
  "range_hashes X ls nt = map (the \<circ> map_of (hash_table X ls)) (seq_range (n_seq_from nt) (n_seq_to nt))"

definition accepted_copy ::
  "('w, 'x) eext_scheme \<Rightarrow> BundleReader \<Rightarrow> VerifyOptions \<Rightarrow> ustr \<Rightarrow> bytes list \<Rightarrow> BundleCheckpoint list \<Rightarrow> bool" where
  "accepted_copy X r opts i ls bcs \<longleftrightarrow> rp_result (verify_bundle X r opts) \<noteq> Fail \<and> i \<in> scoped r \<and>
     fst (read_stream_records X r i) = ls \<and> (\<exists>c. stream_checkpoints X r i = Inr c \<and> st_checkpoints c = bcs)"

text \<open>The notes that a note reaches through the links to earlier checkpoints.\<close>

inductive reaches :: "'x ext_scheme \<Rightarrow> BundleCheckpoint list \<Rightarrow> CheckpointNote \<Rightarrow> CheckpointNote \<Rightarrow> bool"
  for X :: "'x ext_scheme" and bcs :: "BundleCheckpoint list" and newest :: CheckpointNote where
  itself: "reaches X bcs newest newest"
| earlier_note: "reaches X bcs newest nt \<Longrightarrow> n_prev_checkpoint_hash nt = Some h \<Longrightarrow> bc \<in> set bcs \<Longrightarrow>
    note_hash X (sc_note (bc_checkpoint bc)) = Inr h \<Longrightarrow> reaches X bcs newest (sc_note (bc_checkpoint bc))"

lemma parsed_all: "map (x_json_parse X) ls = map Inr vs \<Longrightarrow> parsed X ls = vs"
  by (induction ls arbitrary: vs) (auto simp: parsed_def List.map_filter_def Cons_eq_map_conv)

section \<open>The records of an accepted copy\<close>

lemma verify_records_breaks:
  "verify_records X sv vs = Inr (sv', cfs) \<Longrightarrow> only_breaks cfs \<Longrightarrow>
   \<forall>v \<in> set vs. wf_json v \<longrightarrow> hash_ok X v"
proof (induction vs arbitrary: sv cfs)
  case (Cons v vs)
  then obtain sv1 fs gs where 1: "verify_next X sv v = Inr (sv1, fs)" and 2: "verify_records X sv1 vs = Inr (sv', gs)"
    and "only_breaks fs" "only_breaks gs" by (auto simp: rbind_eq_Inr)
  with only_breaks_seq [OF 1] Cons.IH [OF 2] show ?case by (auto simp: hash_ok_def)
qed simp

lemma breaks_only: "list_all (\<lambda>f. \<exists>seg seq. f = SegmentBreak seg seq) cfs \<Longrightarrow> only_breaks cfs"
  by (auto simp: list_all_iff)

lemma copy_records:
  assumes "accepted_copy X r opts i ls bcs"
  shows "\<forall>v \<in> set (parsed X ls). wf_json v \<longrightarrow> hash_ok X v"
    "d_hashes_by_seq (fst (chain_data X r i)) = hash_table X ls"
    "distinct (map fst (hash_table X ls))"
proof -
  from assms have a: "rp_result (verify_bundle X r opts) \<noteq> Fail" "i \<in> scoped r" by (auto simp: accepted_copy_def)
  obtain d d' fs where "no_errors (snd (chain_data X r i))" by (rule accepted_scoped [OF a])
  then obtain ks n vs sv sv' cfs where v: "read_stream_records X r i = (ks, Inr n)" "map (x_json_parse X) ks = map Inr vs"
    "verify_records X sv vs = Inr (sv', cfs)" "list_all (\<lambda>f. \<exists>seg seq. f = SegmentBreak seg seq) cfs"
    "d_hashes_by_seq (fst (chain_data X r i)) = map (\<lambda>v. (record_seq v, own_hash v)) vs" by (rule accepted_stream)
  from assms v(1) have ls: "ls = ks" by (auto simp: accepted_copy_def)
  have p: "parsed X ls = vs" unfolding ls by (rule parsed_all [OF v(2)])
  show "\<forall>v \<in> set (parsed X ls). wf_json v \<longrightarrow> hash_ok X v"
    unfolding p by (rule verify_records_breaks [OF v(3) breaks_only [OF v(4)]])
  show h: "d_hashes_by_seq (fst (chain_data X r i)) = hash_table X ls" by (simp add: v(5) hash_table_def p)
  have "unexamined (fst (chain_data X r i))" by (rule unexamined_stream)
  then show "distinct (map fst (hash_table X ls))" by (simp add: unexamined_def h strict_sorted_iff)
qed

section \<open>The checkpoints of an accepted copy\<close>

lemma check_books_root:
  assumes "check_books X st ks bc d = (d', fs)" and "no_errors fs"
    and "of_nat (length (covered_hashes d (sc_note (bc_checkpoint bc)))) =
      n_seq_to (sc_note (bc_checkpoint bc)) - n_seq_from (sc_note (bc_checkpoint bc)) + 1"
  shows "verify_root X (bc_checkpoint bc) (covered_hashes d (sc_note (bc_checkpoint bc))) = Inr ()"
  using assms by (auto simp: check_books_def check_root_def Let_def split: prod.splits sum.splits if_splits)

lemma checkpoint_loop_roots:
  "checkpoint_loop X st cm rv ks p bcs = (p', fs) \<Longrightarrow> no_errors fs \<Longrightarrow> bc \<in> set bcs \<Longrightarrow>
   of_nat (length (covered_hashes (cp_data p) (sc_note (bc_checkpoint bc)))) =
     n_seq_to (sc_note (bc_checkpoint bc)) - n_seq_from (sc_note (bc_checkpoint bc)) + 1 \<Longrightarrow>
   verify_root X (bc_checkpoint bc) (covered_hashes (cp_data p) (sc_note (bc_checkpoint bc))) = Inr ()"
proof (induction bcs arbitrary: p fs)
  case (Cons b bcs)
  obtain p1 f1 f2 where 1: "verify_checkpoint X st cm rv ks p b = (p1, f1)"
    and 2: "checkpoint_loop X st cm rv ks p1 bcs = (p', f2)" and fs: "fs = f1 @ f2"
    using Cons.prems(1) by (auto split: prod.splits)
  obtain d' gs where b: "check_books X st ks b (cp_data p) = (d', gs)" by fastforce
  from verify_checkpoint_cases [OF 1, unfolded b] Cons.prems(2) fs have "no_errors gs" by (auto simp: Let_def split: if_splits)
  note here = check_books_root [OF b this]
  have one: "checkpoint_loop X st cm rv ks p [b] = (p1, f1)" using 1 by simp
  have h: "covered_hashes (cp_data p1) nt = covered_hashes (cp_data p) nt" for nt
    using checkpoint_loop_attests [OF one] by (simp add: covered_hashes_def)
  from Cons.IH [OF 2] here Cons.prems fs show ?case by (auto simp: h)
qed simp


lemma word_range_width:
  fixes a b :: u64
  assumes "a \<le> b"
  shows "of_nat (length (seq_range a b)) = b - a + 1"
proof -
  have "unat a \<le> unat b" using assms by (simp add: word_le_nat_alt)
  then have "length (seq_range a b) = Suc (unat b - unat a)" by (simp add: seq_range_def)
  also have "(of_nat (Suc (unat b - unat a)) :: u64) = b - a + 1"
    using \<open>unat a \<le> unat b\<close> by (simp add: of_nat_diff)
  finally show ?thesis by simp
qed

lemma map_while_all: "(\<And>x. x \<in> set xs \<Longrightarrow> f x \<noteq> None) \<Longrightarrow> map_while f xs = map (the \<circ> f) xs"
  by (induction xs) (auto split: option.split)

lemma full_range_hashes:
  assumes "d_hashes_by_seq d = hash_table X ls" and "fully_exported X ls nt"
  shows "covered_hashes d nt = range_hashes X ls nt"
  unfolding covered_hashes_def range_hashes_def assms(1)
proof (rule map_while_all)
  fix s assume "s \<in> set (seq_range (n_seq_from nt) (n_seq_to nt))"
  then have "covers nt s" by (simp add: set_seq_range covers_def)
  then have "s \<in> fst ` set (hash_table X ls)" using assms(2) by (force simp: fully_exported_def hash_table_def)
  then show "map_of (hash_table X ls) s \<noteq> None" by (simp add: map_of_eq_None_iff)
qed

lemma copy_root:
  assumes "accepted_copy X r opts i ls bcs" and "bc \<in> set bcs" and "covers (sc_note (bc_checkpoint bc)) s"
    and "fully_exported X ls (sc_note (bc_checkpoint bc))"
  shows "verify_root X (bc_checkpoint bc) (range_hashes X ls (sc_note (bc_checkpoint bc))) = Inr ()"
proof -
  let ?nt = "sc_note (bc_checkpoint bc)" and ?d = "fst (chain_data X r i)" and ?t = "trust_of X r opts"
  from assms(1) obtain c where c: "rp_result (verify_bundle X r opts) \<noteq> Fail" "i \<in> scoped r"
    "stream_checkpoints X r i = Inr c" "st_checkpoints c = bcs" by (auto simp: accepted_copy_def)
  obtain d d' fs where e: "examined X r opts i d d' fs" "no_errors fs" by (rule accepted_scoped [OF c(1,2)])
  let ?loop = "checkpoint_loop X i (tru_cert_map ?t) (tru_revocations ?t) (tru_console_keys ?t)
    \<lparr>cp_data = ?d, cp_ranges = []\<rparr> bcs"
  have l: "?loop = (fst ?loop, snd ?loop)" by simp
  from e c(3,4) have "no_errors (snd ?loop)"
    by (auto simp: examined_def checkpoint_stage_def verify_checkpoints_def split_beta Let_def)
  note roots = checkpoint_loop_roots [OF l this assms(2)]
  have h: "covered_hashes ?d ?nt = range_hashes X ls ?nt" by (rule full_range_hashes [OF copy_records(2) [OF assms(1)] assms(4)])
  have "n_seq_from ?nt \<le> n_seq_to ?nt" using assms(3) by (auto simp: covers_def)
  from word_range_width [OF this] roots show ?thesis by (simp add: h range_hashes_def)
qed

lemma range_hash:
  assumes "accepted_copy X r opts i ls bcs" and "v \<in> set (parsed X ls)" and "covers nt (record_seq v)"
  shows "(the \<circ> map_of (hash_table X ls)) (record_seq v) = own_hash v"
    "record_seq v \<in> set (seq_range (n_seq_from nt) (n_seq_to nt))"
proof -
  have "(record_seq v, own_hash v) \<in> set (hash_table X ls)" using assms(2) by (force simp: hash_table_def)
  then show "(the \<circ> map_of (hash_table X ls)) (record_seq v) = own_hash v"
    using copy_records(3) [OF assms(1)] by simp
  show "record_seq v \<in> set (seq_range (n_seq_from nt) (n_seq_to nt))" using assms(3) by (simp add: covers_def set_seq_range)
qed

lemma same_leaf_same_hash:
  assumes "digest32 X" and "hash_ok X v" and "hash_ok X v'"
    and "record_leaves [own_hash v] = record_leaves [own_hash v']"
  shows "own_hash v = own_hash v'"
proof -
  have leaf: "own_hash u = hex_encode (x_blake3 X (hash_input u)) \<and> record_leaves [own_hash u] = [x_blake3 X (hash_input u)]"
    if "hash_ok X u" for u
    using that assms(1)
    by (auto simp: hash_ok_def own_hash_def compute_hash_of_value_Inr blake3_hex_def record_leaves_def digest32_def hex_decode_digest_encode)
  from leaf [OF assms(2)] leaf [OF assms(3)] assms(4) show ?thesis by (metis list.inject)
qed

lemma agree_on_range:
  assumes X: "digest32 X" and a: "accepted_copy X r opts i ls bcs" "accepted_copy X r' opts' i ls' bcs'"
    and bc: "bc \<in> set bcs" "bc' \<in> set bcs'" "sc_note (bc_checkpoint bc) = nt" "sc_note (bc_checkpoint bc') = nt"
    and full: "fully_exported X ls nt" "fully_exported X ls' nt"
    and v: "v \<in> set (parsed X ls)" "v' \<in> set (parsed X ls')" "record_seq v = record_seq v'" "covers nt (record_seq v)"
    and wf: "wf_json v" "wf_json v'"
    and trees: "blake3_distinguishes X (tree_inputs X (record_leaves (range_hashes X ls nt)) \<union>
      tree_inputs X (record_leaves (range_hashes X ls' nt)))"
    and inputs: "blake3_distinguishes X {hash_input v, hash_input v'}"
  shows "same_record v v'"
proof -
  have ok: "hash_ok X v" "hash_ok X v'" using copy_records(1) [OF a(1)] copy_records(1) [OF a(2)] v(1,2) wf by blast+
  have root: "verify_root X (bc_checkpoint bc) (range_hashes X ls nt) = Inr ()"
    "verify_root X (bc_checkpoint bc') (range_hashes X ls' nt) = Inr ()"
    using copy_root [OF a(1) bc(1)] copy_root [OF a(2) bc(2)] bc(3,4) full v(4) by simp_all
  let ?l = "record_leaves (range_hashes X ls nt)" and ?l' = "record_leaves (range_hashes X ls' nt)"
  from root bc(3,4) have ne: "?l \<noteq> []" "?l' \<noteq> []" and eq: "subtree_root X ?l = subtree_root X ?l'"
    by (auto simp: verify_root_Inr merkle_root_of_record_hashes_Inr record_leaves_def merkle_root_def)
  have "?l = ?l'" by (rule subtree_root_inj [OF ne X trees eq])
  then have "\<forall>s \<in> set (seq_range (n_seq_from nt) (n_seq_to nt)).
      record_leaves [(the \<circ> map_of (hash_table X ls)) s] = record_leaves [(the \<circ> map_of (hash_table X ls')) s]"
    by (simp add: record_leaves_def range_hashes_def)
  then have "record_leaves [own_hash v] = record_leaves [own_hash v']"
    using range_hash [OF a(1) v(1,4)] range_hash [OF a(2) v(2), of nt] v(3,4) by metis
  from same_leaf_same_hash [OF X ok this] show ?thesis by (rule same_hash_same_record [OF ok _ inputs])
qed

section \<open>Earlier checkpoints\<close>

lemma copy_links:
  assumes "accepted_copy X r opts i ls bcs" and "bc \<in> set bcs"
    and "n_prev_checkpoint_hash (sc_note (bc_checkpoint bc)) = Some h"
  shows "\<exists>pc \<in> set bcs. note_hash X (sc_note (bc_checkpoint pc)) = Inr h"
  using assms links_resolve [of X r opts i _ bc h] unfolding accepted_copy_def by blast

lemma reaches_member:
  assumes "reaches X bcs newest nt" and "newest \<in> (sc_note \<circ> bc_checkpoint) ` set bcs"
  shows "nt \<in> (sc_note \<circ> bc_checkpoint) ` set bcs"
  using assms by cases auto

lemma reaches_both:
  assumes "reaches X bcs newest nt" and "accepted_copy X r' opts' i ls' bcs'"
    and "newest \<in> (sc_note \<circ> bc_checkpoint) ` set bcs'"
    and "notes_apart X ({m. reaches X bcs newest m} \<union> {m. reaches X bcs' newest m})"
  shows "reaches X bcs' newest nt"
  using assms(1)
proof induction
  case (earlier_note nt h bc)
  from reaches_member [OF earlier_note.IH assms(3)] obtain nc where nc: "nc \<in> set bcs'" "sc_note (bc_checkpoint nc) = nt" by auto
  with copy_links [OF assms(2) nc(1)] earlier_note(2) obtain pc where
    pc: "pc \<in> set bcs'" "note_hash X (sc_note (bc_checkpoint pc)) = Inr h" by auto
  have m: "reaches X bcs' newest (sc_note (bc_checkpoint pc))"
    by (rule reaches.earlier_note [OF earlier_note.IH earlier_note(2) pc])
  have m': "reaches X bcs newest (sc_note (bc_checkpoint bc))"
    by (rule reaches.earlier_note [OF earlier_note(1-4)])
  have "sc_note (bc_checkpoint bc) = sc_note (bc_checkpoint pc)"
    by (rule checkpoint_log.binds [OF assms(4)]) (use m m' pc(2) earlier_note(4) in \<open>auto simp: note_hash_Inr\<close>)
  with m show ?case by simp
qed (rule reaches.itself)


section \<open>A concrete copy\<close>

lemma reaches_first:
  assumes "reaches X bcs newest nt" and "n_prev_checkpoint_hash newest = None"
  shows "nt = newest"
  using assms by (induction) auto

lemma singleton_inputs:
  assumes "length (range_hashes X ls nt) = 1"
  shows "blake3_distinguishes X (tree_inputs X (record_leaves (range_hashes X ls nt)))"
  using assms by (auto simp: length_Suc_conv record_leaves_def blake3_distinguishes_def)

lemma demo_copy:
  obtains X :: "(ustr \<times> bytes) list eext" and r bcs bc v where "digest32 X"
    "accepted_copy X r demo_options (lit ''5'') [[0], [1]] bcs" "bc \<in> set bcs"
    "n_prev_checkpoint_hash (sc_note (bc_checkpoint bc)) = None" "valid_note (sc_note (bc_checkpoint bc))"
    "is_ok (note_hash X (sc_note (bc_checkpoint bc)))" "n_seq_from (sc_note (bc_checkpoint bc)) = 0"
    "n_seq_to (sc_note (bc_checkpoint bc)) = 0" "v \<in> set (parsed X [[0], [1]])" "record_seq v = 0" "wf_json v"
proof (rule demo_hypotheses)
  fix X :: "(ustr \<times> bytes) list eext" and r cert_map c bc prev h a b
  assume l: "ulid_law X" "ed25519_law X"
    "m_schema_version (br_manifest r) = BUNDLE_SCHEMA_VERSION" "verify_content_hashes X r = Inr []"
    "identity X r = Inr demo_ident"
    "build_cert_map X (Some (bi_certs_pem demo_ident)) [demo_root] (now_of X demo_options) = (cert_map, [])"
    "anchor_proofs X r = Inr anchor_proofs_default" "\<forall>i \<in> scoped r. honest_stream X r demo_options cert_map i"
    and s: "scoped r = {lit ''5''}" "read_stream_records X r (lit ''5'') = ([[0], [1]], Inr 2)"
      "stream_checkpoints X r (lit ''5'') = Inr c"
    and a: "append_all X (chain_genesis X 5) [demo_record None, demo_record None] = Inr (h, [a, b])" "r_seq a = 0"
      "map (x_json_parse X) [[0], [1]] = map (\<lambda>r. Inr (read_back r)) [a, b]"
      "checkpointed X cert_map None [[a], [b]] (st_checkpoints c)"
      "valid_note (sc_note (bc_checkpoint (hd (st_checkpoints c))))" "digest32 X"
  have "rp_result (verify_bundle X r demo_options) = Pass"
    by (rule honest_run_passes [OF l(1-5) _ _ _ _ l(6-8)]) simp_all
  with s have copy: "accepted_copy X r demo_options (lit ''5'') [[0], [1]] (st_checkpoints c)"
    by (simp add: accepted_copy_def)
  have wf: "list_all wf_record [demo_record None, demo_record None]" by (simp add: wf_demo_record)
  from append_all_encodable [OF a(1) wf] have e: "encodable a" by simp
  have p: "parsed X [[0], [1]] = [read_back a, read_back b]" by (rule parsed_all) (simp add: a(3) [simplified])
  from a(4) obtain cid ts fp nt key sc hx rest where n: "build_note_linked X cid [a] ts fp None = Inr nt"
    "sign_note X nt key = Inr sc" "note_hash X nt = Inr hx" "st_checkpoints c = \<lparr>bc_checkpoint = sc, bc_countersignature = None\<rparr> # rest"
    by auto
  have sc: "sc_note sc = nt" using n(2) by (auto simp: sign_note_def rbind_eq_Inr)
  show ?thesis
  proof (rule that [OF a(6) copy])
    show "\<lparr>bc_checkpoint = sc, bc_countersignature = None\<rparr> \<in> set (st_checkpoints c)" by (simp add: n(4))
    show "read_back a \<in> set (parsed X [[0], [1]])" by (simp add: p)
    show "record_seq (read_back a) = 0" using read_back_view [OF e] a(2) by (simp add: record_seq_def view_of_record_def)
    show "wf_json (read_back a)" by (rule wf_read_back [OF e])
  qed (use n sc a(2,5) in \<open>auto simp: build_note_linked_Inr build_note_Inr\<close>)
qed

section \<open>Property\<close>

text \<open>
  C3: A signed checkpoint pins the history. Let two bundles that do not fail both hold a checkpoint with the same
  note for a stream. Then every earlier checkpoint that the note reaches through its links in the one
  bundle is reached by the same links in the other. And where the records that such a checkpoint covers are
  exported in full in both, the two records with the same number are the same record,
  unless BLAKE3 collides on the notes, on the nodes of the two Merkle trees or on the two records.
\<close>

theorem checkpoint_pins_history:
  assumes "digest32 X" and "accepted_copy X r opts i ls bcs" and "accepted_copy X r' opts' i ls' bcs'"
    and "bc \<in> set bcs" and "bc' \<in> set bcs'" and "sc_note (bc_checkpoint bc') = sc_note (bc_checkpoint bc)"
    and "reaches X bcs (sc_note (bc_checkpoint bc)) nt"
    and "notes_apart X ({m. reaches X bcs (sc_note (bc_checkpoint bc)) m} \<union> {m. reaches X bcs' (sc_note (bc_checkpoint bc)) m})"
    and "fully_exported X ls nt" and "fully_exported X ls' nt"
    and "v \<in> set (parsed X ls)" and "v' \<in> set (parsed X ls')" and "record_seq v = record_seq v'" and "covers nt (record_seq v)"
    and "wf_json v" and "wf_json v'" and "blake3_distinguishes X {hash_input v, hash_input v'}"
    and "blake3_distinguishes X (tree_inputs X (record_leaves (range_hashes X ls nt)) \<union>
      tree_inputs X (record_leaves (range_hashes X ls' nt)))"
  shows "reaches X bcs' (sc_note (bc_checkpoint bc')) nt \<and> same_record v v'"
proof -
  have new: "sc_note (bc_checkpoint bc) \<in> (sc_note \<circ> bc_checkpoint) ` set bcs"
    "sc_note (bc_checkpoint bc) \<in> (sc_note \<circ> bc_checkpoint) ` set bcs'"
    by (metis assms(4-6) comp_apply image_eqI)+
  have both: "reaches X bcs' (sc_note (bc_checkpoint bc)) nt" by (rule reaches_both [OF assms(7,3) new(2) assms(8)])
  obtain pc pc' where "pc \<in> set bcs" "sc_note (bc_checkpoint pc) = nt" "pc' \<in> set bcs'" "sc_note (bc_checkpoint pc') = nt"
    using reaches_member [OF assms(7) new(1)] reaches_member [OF both new(2)] by auto
  with agree_on_range [OF assms(1-3), of pc pc' nt v v'] assms(9-18) both assms(6) show ?thesis by auto
qed

theorem checkpoint_pins_history_witness:
  "\<exists>(X :: (ustr \<times> bytes) list eext) r bcs v. accepted_copy X r demo_options (lit ''5'') [[0], [1]] bcs \<and>
     v \<in> set (parsed X [[0], [1]]) \<and> record_seq v = 0 \<and> same_record v v"
proof -
  obtain X :: "(ustr \<times> bytes) list eext" and r bcs bc v where c: "digest32 X"
    "accepted_copy X r demo_options (lit ''5'') [[0], [1]] bcs" "bc \<in> set bcs"
    "n_prev_checkpoint_hash (sc_note (bc_checkpoint bc)) = None" "valid_note (sc_note (bc_checkpoint bc))"
    "is_ok (note_hash X (sc_note (bc_checkpoint bc)))" "n_seq_from (sc_note (bc_checkpoint bc)) = 0"
    "n_seq_to (sc_note (bc_checkpoint bc)) = 0" "v \<in> set (parsed X [[0], [1]])" "record_seq v = 0" "wf_json v"
    by (rule demo_copy)
  let ?n = "sc_note (bc_checkpoint bc)"
  have r: "{m. reaches X bcs ?n m} = {?n}" using reaches_first [OF _ c(4)] reaches.itself by blast
  have apart: "notes_apart X ({m. reaches X bcs ?n m} \<union> {m. reaches X bcs ?n m})"
    unfolding r using c(5,6) by (simp add: notes_apart_def blake3_distinguishes_def)
  have full: "fully_exported X [[0], [1]] ?n" "covers ?n (record_seq v)"
    using c(7-10) by (auto simp: fully_exported_def covers_def intro: image_eqI [of _ _ v])
  have "length (range_hashes X [[0], [1]] ?n) = 1" using c(7,8) by (simp add: range_hashes_def seq_range_def)
  note trees = singleton_inputs [OF this]
  have "same_record v v"
    using checkpoint_pins_history [OF c(1,2,2,3,3) refl reaches.itself apart full(1) full(1) c(9,9) refl full(2) c(11,11)] trees
    by (simp add: blake3_distinguishes_def)
  with c(2,9,10) show ?thesis by blast
qed

end
