(* ===== verification/Export.thy ===== *)
theory Export
  imports Writer
begin

text \<open>
  From the writer to the reader: what \<open>finish\<close> produces opens, passes the content check and gives
  back the record lines, under the documented behaviour of the zip and zstd crates and of serde; and
  the case in which the record index is lost.
\<close>

section \<open>Finished bundles\<close>

text \<open>Opening what the zip crate has written gives back the entries.\<close>

definition zip_reader_law :: "('w, 'x) bext_scheme \<Rightarrow> bool" where
  "zip_reader_law X \<longleftrightarrow> (\<forall>es out. x_zip_finish X es = Inr out \<longrightarrow> distinct (map fst es) \<longrightarrow>
     x_zip_open X out = Inr (archive_of es))"

definition manifest_law :: "('w, 'x) bext_scheme \<Rightarrow> Manifest \<Rightarrow> bool" where
  "manifest_law X m \<longleftrightarrow> (\<forall>b. to_jcs_bytes (manifest_json m) = Inr b \<longrightarrow> x_parse_manifest X b = Inr m)"

lemma wbind_Inr: "wbind m f w = (w', Inr y) \<longleftrightarrow> (\<exists>x w1. m w = (w1, Inr x) \<and> f x w1 = (w', Inr y))"
  by (auto simp: wbind_def split: prod.splits sum.splits)

lemma wthen_Inr: "wthen m n w = (w', Inr y) \<longleftrightarrow> (\<exists>w1. m w = (w1, Inr ()) \<and> n w1 = (w', Inr y))"
  by (auto simp: wthen_def wbind_Inr)

lemma wlift_Inr: "wlift r w = (w', Inr x) \<longleftrightarrow> w' = w \<and> r = Inr x"
  by (auto simp: wlift_def)

lemmas wop_Inr = wbind_Inr wthen_Inr wlift_Inr

lemma case_sum_Inr: "(case r of Inl e \<Rightarrow> Inl (f e) | Inr t \<Rightarrow> Inr (g t)) = Inr y \<longleftrightarrow> (\<exists>t. r = Inr t \<and> y = g t)"
  by (cases r) auto

lemma zip_start_fresh:
  "zip_writer_law X \<Longrightarrow> x_zip_start X (map fst es) name = None \<Longrightarrow> name \<notin> fst ` set es"
  unfolding zip_writer_law_def by (metis list.set_map)

lemma write_entry_kept:
  assumes "zip_writer_law X" and "write_entry X name bytes w = (w', Inr u)"
  shows "bw_zip w' = bw_zip w @ [(name, bytes)]" "name \<notin> fst ` set (bw_zip w)"
    "bw_index w' = bw_index w" "bw_phase w' = bw_phase w" "bw_shard_threshold w' = bw_shard_threshold w"
  using write_entry_Inr [OF assms(2)] zip_start_fresh [OF assms(1), of "bw_zip w" name] assms(1)
  by (auto simp: zip_writer_law_def)

lemma write_raw_Inr:
  assumes "zip_writer_law X" and "write_raw X name bytes w = (w', Inr u)"
  shows "w' = w\<lparr>bw_zip := bw_zip w @ [(name, bytes)]\<rparr>" "name \<notin> fst ` set (bw_zip w)"
  using assms zip_start_fresh [OF assms(1), of "bw_zip w" name]
  by (auto simp: write_raw_def zip_writer_law_def split: option.splits prod.splits)

lemma close_records_Inr:
  assumes "zip_writer_law X" and "close_records X w = (w', Inr u)"
  shows "bw_index w' = bw_index w \<and> bw_zip w' = bw_zip w \<and> bw_phase w \<noteq> Records \<or>
    (\<exists>b. x_pretty_index X (bw_index w) = Inr b \<and> bw_index w' = bw_index w \<and> bw_phase w = Records \<and>
       bw_zip w' = bw_zip w @ [(lit ''records/index.json'', b)])"
proof (cases "bw_phase w = Records")
  case True
  with assms(2) have "finish_records X w = (w', Inr u)" by (simp add: close_records_def)
  from finish_records_Inr [OF this] write_entry_kept [OF assms(1)] True show ?thesis by fastforce
next
  case False
  with assms(2) show ?thesis by (simp add: close_records_def)
qed

lemma finish_Inr:
  assumes X: "zip_writer_law X" and k: "kept X w"
    and f: "finish X level ts_from ts_to resources w = (w', Inr (m, h, out))"
  obtains w1 es mb where "close_records X w = (w1, Inr ())" "es = bw_zip w1 @ [(lit ''VERIFY.md'',
      str_bytes (verify_md_template (bw_tool w1)))]"
    "m_contents m = map (entry_of X) es" "distinct (map fst (es @ [(lit ''manifest.json'', mb)]))"
    "to_jcs_bytes (manifest_json m) = Inr mb" "jcs_hash X m = Inr h"
    "x_zip_finish X (es @ [(lit ''manifest.json'', mb)]) = Inr out"
proof -
  from f obtain w1 w2 mb w3 where 1: "close_records X w = (w1, Inr ())"
    and 2: "write_entry X (lit ''VERIFY.md'') (str_bytes (verify_md_template (bw_tool w1))) w1 = (w2, Inr ())"
    and m: "m = writer_manifest level ts_from ts_to resources w2"
    and mb: "jcs_hash X m = Inr h" "to_jcs_bytes (manifest_json m) = Inr mb"
    and 3: "write_raw X (lit ''manifest.json'') mb w2 = (w3, Inr ())"
    and out: "x_zip_finish X (bw_zip w3) = Inr out"
    by (auto simp: finish_def wop_Inr Let_def case_sum_Inr)
  have k1: "kept X w1" using wspecD [OF ok_close_records [OF X] k 1] by simp
  have "kept X w2" using wspecD [OF ok_write_entry [OF X] k1 2] by simp
  then have b: "bw_contents w2 = map (entry_of X) (bw_zip w2)" "distinct (map fst (bw_zip w2))"
    by (auto simp: booked_def)
  show ?thesis
    using that [OF 1 refl, of mb] b m mb out write_raw_Inr [OF X 3] write_entry_kept(1) [OF X 2]
    by (auto simp: writer_manifest_def)
qed

lemma open_finished:
  assumes "zip_reader_law X" and "manifest_law X m"
    and "x_zip_finish X (es @ [(lit ''manifest.json'', mb)]) = Inr out"
    and "distinct (map fst (es @ [(lit ''manifest.json'', mb)]))" and "to_jcs_bytes (manifest_json m) = Inr mb"
  shows "reader_open X out = Inr \<lparr>br_zip = archive_of (es @ [(lit ''manifest.json'', mb)]), br_manifest = m\<rparr>"
proof -
  have "x_zip_open X out = Inr (archive_of (es @ [(lit ''manifest.json'', mb)]))"
    using assms(1,3,4) unfolding zip_reader_law_def by blast
  moreover have "read_entry (archive_of (es @ [(lit ''manifest.json'', mb)])) (lit ''manifest.json'') = Inr mb"
    using read_archive_entry [OF assms(4), of "(lit ''manifest.json'', mb)"] by simp
  moreover have "x_parse_manifest X mb = Inr m" using assms(2,5) by (simp add: manifest_law_def)
  ultimately show ?thesis by (simp add: reader_open_def or_zip_def)
qed

lemma archive_names: "collect_res (map or_zip (za_index (archive_of es))) = Inr (map fst es)"
  by (simp add: archive_of_def or_zip_def comp_def)

lemma finished_contents:
  assumes "m_contents m = map (entry_of X) es" and "distinct (map fst (es @ [(lit ''manifest.json'', mb)]))"
  shows "verify_content_hashes X \<lparr>br_zip = archive_of (es @ [(lit ''manifest.json'', mb)]), br_manifest = m\<rparr> = Inr []"
proof -
  have names: "ce_path ` entry_of X ` set es = fst ` set es" by (force simp: entry_of_def image_iff)
  have "filter (is_unlisted (map (entry_of X) es)) (map fst (es @ [(lit ''manifest.json'', mb)])) = []"
    by (auto simp: filter_empty_conv is_unlisted_def names image_comp comp_def entry_of_def)
  then show ?thesis
    using check_archive [OF assms(2), of X] assms(1)
    by (simp only: verify_content_hashes_def BundleReader.simps rbind_simps archive_names)
qed

lemma finish_scope:
  assumes "finish X level ts_from ts_to resources w = (w', Inr (m, h, out))"
  shows "m_schema_version m = BUNDLE_SCHEMA_VERSION" "bs_streams (m_scope m) = map scope_of_stream (ri_streams (bw_index w))"
proof -
  from assms obtain w1 w2 where 1: "close_records X w = (w1, Inr ())"
    and 2: "write_entry X (lit ''VERIFY.md'') (str_bytes (verify_md_template (bw_tool w1))) w1 = (w2, Inr ())"
    and m: "m = writer_manifest level ts_from ts_to resources w2"
    by (auto simp: finish_def wop_Inr Let_def case_sum_Inr)
  from 1 have "bw_index w1 = bw_index w"
    by (auto simp: close_records_def finish_records_def wop_Inr split: if_splits dest!: write_entry_Inr)
  with write_entry_Inr [OF 2] m show "m_schema_version m = BUNDLE_SCHEMA_VERSION"
    "bs_streams (m_scope m) = map scope_of_stream (ri_streams (bw_index w))" by (auto simp: writer_manifest_def)
qed

section \<open>Shards\<close>

definition zstd_law :: "('w, 'x) bext_scheme \<Rightarrow> bool" where
  "zstd_law X \<longleftrightarrow> (\<forall>b c. x_zstd_encode X b = Inr c \<longrightarrow>
     x_zstd_decode X \<lparr>zf_data = c, zf_error = None\<rparr> = Inr (b, None))"

definition index_law :: "('w, 'x) bext_scheme \<Rightarrow> bool" where
  "index_law X \<longleftrightarrow> (\<forall>ix b. x_pretty_index X ix = Inr b \<longrightarrow> x_parse_index X b = Inr ix)"

text \<open>A record line: text without a newline, then a newline.\<close>

definition record_line :: "bytes \<Rightarrow> bool" where
  "record_line l \<longleftrightarrow> 2 \<le> length l \<and> last l = 0x0A \<and> 0x0A \<notin> set (butlast l)"

lemma split_lines_record:
  "0x0A \<notin> set s \<Longrightarrow> split_lines acc (s @ 0x0A # rest) = (let (ls, r) = split_lines [] rest in ((acc @ s) # ls, r))"
  by (induction s arbitrary: acc) auto

lemma record_line_split: "record_line l \<Longrightarrow> l = butlast l @ [0x0A] \<and> 0x0A \<notin> set (butlast l) \<and> butlast l \<noteq> []"
  by (cases l rule: rev_cases) (auto simp: record_line_def)

lemma shard_lines_records:
  assumes "list_all record_line g"
  shows "shard_lines (concat g, None) = map butlast g"
proof -
  have "split_lines [] (concat g) = (map butlast g, [])"
    using assms
  proof (induction g)
    case (Cons l g)
    then obtain s where l: "l = s @ [0x0A]" "0x0A \<notin> set s" using record_line_split [of l] by auto
    with Cons show ?case using split_lines_record [of s "[]" "concat g"] by simp
  qed simp
  moreover have "list_all (\<lambda>l. l \<noteq> []) (map butlast g)"
    using assms record_line_split by (auto simp: list_all_iff)
  then have "filter (\<lambda>l. l \<noteq> []) (map butlast g) = map butlast g"
    by (simp add: list_all_iff)
  ultimately show ?thesis by (simp add: shard_lines_def del: map_eq_conv)
qed

abbreviation packed :: "('w, 'x) bext_scheme \<Rightarrow> (ustr \<times> bytes) list \<Rightarrow> bytes list list \<Rightarrow> bool" where
  "packed X \<equiv> list_all2 (\<lambda>e g. x_zstd_encode X (concat g) = Inr (snd e))"

lemma read_shards_packed:
  assumes "zstd_law X" and "distinct (map fst es)"
  shows "packed X new groups \<Longrightarrow> set new \<subseteq> set es \<Longrightarrow> list_all (list_all record_line) groups \<Longrightarrow>
    read_shards X (archive_of es) (map fst new) = (map butlast (concat groups), None)"
proof (induction new groups rule: list_all2_induct)
  case (Cons e new g groups)
  have "za_by_name (archive_of es) (fst e) = Inr \<lparr>zf_data = snd e, zf_error = None\<rparr>"
    using Cons.prems(1) map_of_is_SomeI [OF assms(2), of "fst e" "snd e"] by (simp add: archive_of_def)
  moreover have "x_zstd_decode X \<lparr>zf_data = snd e, zf_error = None\<rparr> = Inr (concat g, None)"
    using Cons.hyps(1) assms(1) by (simp add: zstd_law_def)
  ultimately show ?case using Cons by (simp add: shard_lines_records)
qed simp

definition loop_inv ::
  "('w, 'x) bext_scheme \<Rightarrow> (ustr \<times> bytes) list \<Rightarrow> bytes list \<Rightarrow> ShardState \<Rightarrow> BundleWriter \<Rightarrow> bool" where
  "loop_inv X z0 ls st w \<longleftrightarrow> (\<exists>new groups pending. bw_zip w = z0 @ new \<and> sh_shards st = map fst new \<and>
     packed X new groups \<and> concat groups @ pending = ls \<and> sh_buf st = concat pending)"

lemma flush_shard_inv:
  assumes X: "zip_writer_law X" and f: "flush_shard X sid (sh_buf st) n (sh_shards st) w = (w', Inr (buf, shards))"
    and i: "loop_inv X z0 ls st w" and l: "list_all record_line ls"
  shows "loop_inv X z0 ls (st\<lparr>sh_buf := buf, sh_shards := shards\<rparr>) w' \<and> buf = [] \<and> bw_index w' = bw_index w \<and>
    bw_phase w' = bw_phase w"
proof -
  from i obtain new groups pending where i: "bw_zip w = z0 @ new" "sh_shards st = map fst new"
    "packed X new groups" "concat groups @ pending = ls" "sh_buf st = concat pending"
    by (auto simp: loop_inv_def)
  show ?thesis
  proof (cases "sh_buf st = []")
    case True
    with f i show ?thesis by (auto simp: flush_shard_def wret_def loop_inv_def)
  next
    case False
    with f obtain c where c: "x_zstd_encode X (sh_buf st) = Inr c"
      "write_entry X (shard_path sid n) c w = (w', Inr ())" "buf = []" "shards = sh_shards st @ [shard_path sid n]"
      by (auto simp: flush_shard_def wop_Inr wret_def Let_def case_sum_Inr)
    have "loop_inv X z0 ls (st\<lparr>sh_buf := buf, sh_shards := shards\<rparr>) w'"
      unfolding loop_inv_def using i c write_entry_kept(1) [OF X c(2)]
      by (intro exI [of _ "new @ [(shard_path sid n, c)]"] exI [of _ "groups @ [pending]"] exI [of _ "[]"])
        (auto intro: list_all2_appendI)
    with c write_entry_kept [OF X c(2)] show ?thesis by simp
  qed
qed

lemma shard_loop_inv:
  assumes X: "zip_writer_law X"
  shows "shard_loop X sid st (map Inr ls) w = (w', Inr st') \<Longrightarrow> loop_inv X z0 done st w \<Longrightarrow>
    list_all record_line (done @ ls) \<Longrightarrow>
    loop_inv X z0 (done @ ls) st' w' \<and> sh_count st' = sh_count st + of_nat (length ls) \<and>
    bw_index w' = bw_index w \<and> bw_phase w' = bw_phase w"
proof (induction ls arbitrary: "done" st w)
  case (Cons l ls)
  let ?st = "st\<lparr>sh_first := (case sh_first st of None \<Rightarrow> Some l | f \<Rightarrow> f), sh_last := Some l,
    sh_buf := sh_buf st @ l, sh_count := sh_count st + 1\<rparr>"
  have i: "loop_inv X z0 (done @ [l]) ?st w"
  proof -
    from Cons.prems(2) obtain new groups pending where "bw_zip w = z0 @ new" "sh_shards st = map fst new"
      "packed X new groups" "concat groups @ pending = done" "sh_buf st = concat pending"
      by (auto simp: loop_inv_def)
    then show ?thesis
      unfolding loop_inv_def by (intro exI [of _ new] exI [of _ groups] exI [of _ "pending @ [l]"]) auto
  qed
  have lines: "list_all record_line (done @ [l])" "list_all record_line ((done @ [l]) @ ls)"
    using Cons.prems(3) by simp_all
  show ?case
  proof (cases "bw_shard_threshold w \<le> of_nat (length (sh_buf st @ l))")
    case True
    with Cons.prems(1) obtain w1 buf shards
      where f: "flush_shard X sid (sh_buf ?st) (sh_no st) (sh_shards ?st) w = (w1, Inr (buf, shards))"
        and r: "shard_loop X sid (?st\<lparr>sh_buf := buf, sh_shards := shards, sh_no := sh_no st + 1\<rparr>) (map Inr ls) w1 =
          (w', Inr st')"
      by (auto simp: wbind_Inr Let_def split: prod.splits)
    have "loop_inv X z0 (done @ [l]) (?st\<lparr>sh_buf := buf, sh_shards := shards, sh_no := sh_no st + 1\<rparr>) w1"
      using flush_shard_inv [OF X f i lines(1), THEN conjunct1] by (simp add: loop_inv_def)
    from Cons.IH [OF r this lines(2)] flush_shard_inv [OF X f i lines(1)] show ?thesis by simp
  next
    case False
    with Cons.prems(1) have "shard_loop X sid ?st (map Inr ls) w = (w', Inr st')" by (simp add: Let_def)
    from Cons.IH [OF this i lines(2)] show ?thesis by simp
  qed
qed (simp add: wret_def)

lemma add_stream_records_Inr:
  assumes X: "zip_writer_law X" and a: "add_stream_records X sid (map Inr ls) w = (w', Inr entry)"
    and l: "list_all record_line ls"
  obtains new groups where "bw_zip w' = bw_zip w @ new" "ri_shards entry = map fst new" "packed X new groups"
    "concat groups = ls" "ri_stream_id entry = sid" "ri_record_count entry = of_nat (length ls)"
    "ri_streams (bw_index w') = ri_streams (bw_index w) @ [entry]" "bw_phase w' = Records"
proof -
  let ?st0 = "\<lparr>sh_shards = [], sh_buf = [], sh_no = 1, sh_count = 0, sh_first = None, sh_last = None\<rparr>"
  from a obtain w1 st w2 buf shards w3 where 1: "require_phase Records Records w = (w1, Inr ())"
    and 2: "shard_loop X sid ?st0 (map Inr ls) w1 = (w2, Inr st)"
    and 3: "flush_shard X sid (sh_buf st) (sh_no st) (sh_shards st) w2 = (w3, Inr (buf, shards))"
    and w': "w' = w3\<lparr>bw_index := \<lparr>ri_streams = ri_streams (bw_index w3) @ [entry]\<rparr>\<rparr>"
    and e: "ri_shards entry = shards" "ri_stream_id entry = sid" "ri_record_count entry = sh_count st"
    by (auto simp: add_stream_records_def wop_Inr wfail_def Let_def split: prod.splits if_splits)
  from 1 have w1: "bw_zip w1 = bw_zip w" "bw_index w1 = bw_index w" "bw_phase w1 = Records"
    by (auto simp: require_phase_def split: if_splits)
  have "loop_inv X (bw_zip w) [] ?st0 w1" by (simp add: loop_inv_def w1)
  from shard_loop_inv [OF X 2 this] l have s: "loop_inv X (bw_zip w) ls st w2" "sh_count st = of_nat (length ls)"
    "bw_index w2 = bw_index w" "bw_phase w2 = Records" by (simp_all add: w1)
  from flush_shard_inv [OF X 3 s(1) l] have "loop_inv X (bw_zip w) ls (st\<lparr>sh_buf := [], sh_shards := shards\<rparr>) w3"
    and i: "bw_index w3 = bw_index w" "bw_phase w3 = Records" using s by auto
  then obtain new groups pending where n: "bw_zip w3 = bw_zip w @ new" "shards = map fst new" "packed X new groups"
    "concat groups @ pending = ls" "concat pending = []" by (auto simp: loop_inv_def)
  have "pending = []"
    using n(4,5) l by (cases pending) (auto simp: record_line_def)
  with n e s i w' show ?thesis by (intro that [of new groups]) simp_all
qed

lemma find_append: "find P xs = None \<Longrightarrow> find P (xs @ ys) = find P ys"
  by (induction xs) (auto split: if_splits)

section \<open>A concrete export\<close>

definition demo_tool :: ToolInfo where
  "demo_tool = \<lparr>ti_name = [], ti_version = []\<rparr>"

definition demo_writer :: BundleWriter where
  "demo_writer = with_shard_threshold 4 (writer_new [] [] demo_tool)"

definition demo_parse :: "bytes \<Rightarrow> ustr + json" where
  "demo_parse b = Inr (Object [(lit ''seq'', Number (PosInt (ucast (hd b))))])"

lemma demo_laws:
  "zip_writer_law (demo_bundle parse m ix)" "zip_reader_law (demo_bundle parse m ix)"
  "zstd_law (demo_bundle parse m ix)" "index_law (demo_bundle parse m ix)"
  "manifest_law (demo_bundle parse m ix) m"
  by (auto simp: zip_writer_law_def zip_reader_law_def zstd_law_def index_law_def manifest_law_def)

lemma kept_start: "kept X (with_shard_threshold t (writer_new b c tool))"
  by (simp add: booked_def indexed_def with_shard_threshold_def writer_new_def)

definition demo_lines :: "bytes list" where
  "demo_lines = [[1, 0x0A], [2, 0x0A], [3, 0x0A]]"

definition demo_entry :: RecordIndexStream where
  "demo_entry = \<lparr>ri_stream_id = lit ''5'', ri_shards = [shard_path (lit ''5'') 1, shard_path (lit ''5'') 2],
     ri_seq_from = 1, ri_seq_to = 3, ri_record_count = 3\<rparr>"

abbreviation demo_lib :: "Manifest \<Rightarrow> (ustr \<times> bytes) list bext" where
  "demo_lib m \<equiv> demo_bundle demo_parse m \<lparr>ri_streams = [demo_entry]\<rparr>"

definition booked_writer :: "Phase \<Rightarrow> RecordIndex \<Rightarrow> (ustr \<times> bytes) list \<Rightarrow> BundleWriter" where
  "booked_writer p ix es = \<lparr>bw_zip = es, bw_contents = map (entry_of demo_ext) es, bw_index = ix, bw_phase = p,
     bw_tool = demo_tool, bw_bundle_id = [], bw_created_at = [], bw_shard_threshold = 4\<rparr>"

lemma demo_write_entry:
  "name \<notin> fst ` set es \<Longrightarrow>
   write_entry (demo_bundle parse m ix) name b (booked_writer p jx es) = (booked_writer p jx (es @ [(name, b)]), Inr ())"
  by (simp add: write_entry_def wthen_def wbind_def write_raw_def booked_writer_def entry_of_def blake3_hex_def)

lemma booked_writer_simps [simp]:
  "bw_zip (booked_writer p ix es) = es" "bw_contents (booked_writer p ix es) = map (entry_of demo_ext) es"
  "bw_phase (booked_writer p ix es) = p" "bw_index (booked_writer p ix es) = ix"
  "bw_shard_threshold (booked_writer p ix es) = 4" "bw_tool (booked_writer p ix es) = demo_tool"
  "(booked_writer p ix es)\<lparr>bw_phase := q\<rparr> = booked_writer q ix es"
  "(booked_writer p ix es)\<lparr>bw_index := jx\<rparr> = booked_writer p jx es"
  by (simp_all add: booked_writer_def)

lemma demo_paths: "shard_path (lit ''5'') 2 \<noteq> shard_path (lit ''5'') 1"
  by (simp add: shard_path_def pad5_def dec_digits.simps)

lemma demo_add:
  "add_stream_records (demo_lib m) (lit ''5'') (map Inr demo_lines) (booked_writer Records \<lparr>ri_streams = []\<rparr> []) =
   (booked_writer Records \<lparr>ri_streams = [demo_entry]\<rparr>
      [(shard_path (lit ''5'') 1, [1, 0x0A, 2, 0x0A]), (shard_path (lit ''5'') 2, [3, 0x0A])], Inr demo_entry)"
  unfolding add_stream_records_def demo_lines_def
  by (simp add: wthen_def wbind_def require_phase_def less_Phase_def flush_shard_def wret_def wlift_def
    Let_def demo_write_entry demo_paths seq_of_def or_json_def demo_parse_def get_def demo_entry_def)

lemma length_str_bytes: "length (str_bytes s) \<le> 4 * length s"
  by (induction s) (auto simp: str_bytes_def utf8_char_def)

lemma demo_md: "length (str_bytes (verify_md_template demo_tool)) < 2 ^ 32"
proof -
  have "length (verify_md_template demo_tool) < 2 ^ 30"
    by (simp add: verify_md_template_def demo_tool_def MEDIA_TYPE_def lit_def)
  with length_str_bytes [of "verify_md_template demo_tool"] show ?thesis by simp
qed

lemma demo_close:
  "lit ''records/index.json'' \<notin> fst ` set es \<Longrightarrow>
   close_records (demo_bundle parse m ix) (booked_writer Records ix es) =
     (booked_writer Checkpoints ix (es @ [(lit ''records/index.json'', [])]), Inr ())"
  "p \<noteq> Records \<Longrightarrow> close_records (demo_bundle parse m ix) (booked_writer p jx es) = (booked_writer p jx es, Inr ())"
  by (simp_all add: close_records_def finish_records_def wthen_def wbind_def wlift_def or_json_def demo_write_entry)

lemma safe_PosInt: "u \<le> MAX_SAFE_INTEGER \<Longrightarrow> \<exists>y. safe_int (PosInt u) = Some y"
  by (simp add: word_le_def MAX_SAFE_INTEGER_def)

lemma part_numbers:
  "numbers (stream_scope_json s) = [PosInt (sco_seq_from s), PosInt (sco_seq_to s), PosInt (sco_record_count s)]"
  "numbers (content_entry_json e) = [PosInt (ce_bytes e)]"
  by (simp_all add: stream_scope_json_def content_entry_json_def)

lemma demo_manifest_safe:
  assumes "list_all (\<lambda>e. length (snd e) < 2 ^ 32) es"
    and "list_all (\<lambda>s. ri_seq_from s \<le> MAX_SAFE_INTEGER \<and> ri_seq_to s \<le> MAX_SAFE_INTEGER \<and>
      ri_record_count s \<le> MAX_SAFE_INTEGER) (ri_streams ix)"
  shows "is_ok (to_jcs_bytes (manifest_json (writer_manifest Metadata None None [] (booked_writer p ix es))))"
proof -
  have "n < 2 ^ 32 \<Longrightarrow> (of_nat n :: u64) \<le> MAX_SAFE_INTEGER" for n
    by (simp add: MAX_SAFE_INTEGER_def word_le_nat_alt unat_of_nat)
  with assms show ?thesis
    by (auto simp: to_jcs_bytes_ok manifest_json_def writer_manifest_def tool_info_json_def bundle_scope_json_def
    level_json_def part_numbers entry_of_def list_all_iff list_ex_iff scope_of_stream_def not_less
    intro!: safe_PosInt)
qed

lemma demo_finish:
  assumes "p \<noteq> Records" and "set (map fst es) \<inter> {lit ''VERIFY.md'', lit ''manifest.json''} = {}"
    and "list_all (\<lambda>e. length (snd e) < 2 ^ 32) es" and "ix = \<lparr>ri_streams = [demo_entry]\<rparr>"
  obtains m h out w2 where "finish (demo_lib m) Metadata None None [] (booked_writer p ix es) = (w2, Inr (m, h, out))"
proof -
  let ?es = "es @ [(lit ''VERIFY.md'', str_bytes (verify_md_template demo_tool))]"
  let ?m = "writer_manifest Metadata None None [] (booked_writer p ix ?es)"
  have "is_ok (to_jcs_bytes (manifest_json ?m))"
    using assms(3,4) demo_md by (intro demo_manifest_safe) (simp_all add: demo_entry_def MAX_SAFE_INTEGER_def)
  then obtain mb where "to_jcs_bytes (manifest_json ?m) = Inr mb" by (auto simp: is_ok_iff)
  then have "\<exists>h out w2. finish (demo_lib ?m) Metadata None None [] (booked_writer p ix es) = (w2, Inr (?m, h, out))"
    using assms(1,2)
    by (simp add: finish_def demo_close(2) wthen_def wbind_def wlift_def or_evidence_def jcs_hash_def
      demo_write_entry write_raw_def Let_def)
  with that show ?thesis by blast
qed

lemma demo_finish_records:
  "lit ''records/index.json'' \<notin> fst ` set es \<Longrightarrow>
   finish (demo_bundle parse m ix) l a b rs (booked_writer Records ix es) =
   finish (demo_bundle parse m ix) l a b rs (booked_writer Checkpoints ix (es @ [(lit ''records/index.json'', [])]))"
  by (simp add: finish_def wthen_def wbind_def demo_close)

lemma demo_writer_booked: "demo_writer = booked_writer Records \<lparr>ri_streams = []\<rparr> []"
  by (simp add: demo_writer_def writer_new_def with_shard_threshold_def booked_writer_def)

definition demo_shards :: "(ustr \<times> bytes) list" where
  "demo_shards = [(shard_path (lit ''5'') 1, [1, 0x0A, 2, 0x0A]), (shard_path (lit ''5'') 2, [3, 0x0A])]"

lemma demo_shard_names:
  "lit ''records/index.json'' \<notin> fst ` set demo_shards" "lit ''vault/a'' \<notin> fst ` set demo_shards"
  "lit ''VERIFY.md'' \<notin> fst ` set demo_shards" "lit ''manifest.json'' \<notin> fst ` set demo_shards"
  by (simp_all add: demo_shards_def shard_path_def pad5_def dec_digits.simps lit_def)

lemma demo_add_step:
  "writer_ok_reach (demo_lib m) demo_writer (booked_writer Records \<lparr>ri_streams = [demo_entry]\<rparr> demo_shards)"
  using records [OF demo_add, of m]
  by (auto simp: writer_ok_reach_def demo_writer_booked demo_shards_def)

lemma demo_export:
  obtains m h out w2 where "finish (demo_lib m) Metadata None None []
    (booked_writer Records \<lparr>ri_streams = [demo_entry]\<rparr> demo_shards) = (w2, Inr (m, h, out))"
proof -
  have d: "set (map fst (demo_shards @ [(lit ''records/index.json'', [])])) \<inter>
      {lit ''VERIFY.md'', lit ''manifest.json''} = {}"
    using demo_shard_names by (auto simp: lit_def)
  have l: "list_all (\<lambda>e. length (snd e) < 2 ^ 32) (demo_shards @ [(lit ''records/index.json'', [])])"
    by (simp add: demo_shards_def)
  obtain m h out w2 where "finish (demo_lib m) Metadata None None [] (booked_writer Checkpoints
      \<lparr>ri_streams = [demo_entry]\<rparr> (demo_shards @ [(lit ''records/index.json'', [])])) = (w2, Inr (m, h, out))"
    by (rule demo_finish [OF Phase.distinct(2) d l refl])
  with demo_finish_records [OF demo_shard_names(1)] show ?thesis by (intro that [of m w2 h out]) simp
qed

section \<open>Properties\<close>

text \<open>
  C13: The writer's phases only move forward and its entries stay in canonical order. In every state
  that calls can reach from a new writer, in any order, with any arguments and whether they succeed
  or fail, the entries are sorted as records, checkpoints, anchors, identity, vault, and none is
  ahead of the phase; a further call never goes back to an earlier phase and never removes or
  changes an entry that is written.
\<close>

theorem writer_keeps_order:
  assumes "writer_reach X (with_shard_threshold t (writer_new bundle_id created_at tool)) w"
    and "writer_step X w ok w'"
  shows "sorted (map (entry_rank \<circ> fst) (bw_zip w')) \<and>
    (\<forall>e \<in> set (bw_zip w'). entry_rank (fst e) \<le> phase_rank (bw_phase w')) \<and>
    bw_phase w \<le> bw_phase w' \<and> (\<exists>es. bw_zip w' = bw_zip w @ es)"
proof -
  let ?w0 = "with_shard_threshold t (writer_new bundle_id created_at tool)"
  have "continues ?w0 ?w0" by (simp add: continues_def with_shard_threshold_def writer_new_def)
  from reach_continues [OF assms(1) this] have "continues w w" by (rule continues_refl)
  from step_continues [OF assms(2) this] show ?thesis by (simp add: continues_def)
qed

theorem writer_keeps_order_witness:
  "\<exists>w'. writer_step (demo_bundle demo_parse (demo_manifest []) \<lparr>ri_streams = []\<rparr>) demo_writer True w' \<and>
     map fst (bw_zip w') = [lit ''vault/a''] \<and> bw_phase demo_writer \<le> bw_phase w'"
proof -
  let ?X = "demo_bundle demo_parse (demo_manifest []) \<lparr>ri_streams = []\<rparr>"
  obtain w' where w': "add_vault_entry ?X (lit ''a'') [1] demo_writer = (w', Inr ())"
    "map fst (bw_zip w') = [lit ''vault/a'']"
    by (simp add: add_vault_entry_def wthen_def wbind_def require_phase_def demo_writer_def writer_new_def
      with_shard_threshold_def less_Phase_def write_entry_def write_raw_def lit_def)
  from vault [OF w'(1)] have s: "writer_step ?X demo_writer True w'" by simp
  have "writer_reach ?X demo_writer demo_writer" by (simp add: writer_reach_def)
  from writer_keeps_order [OF this [unfolded demo_writer_def] s [unfolded demo_writer_def]] w' s
  show ?thesis by (auto simp: demo_writer_def)
qed

text \<open>
  C11: What the writer finishes, the reader accepts. After any sequence of successful calls, if
  \<open>finish\<close> succeeds then the container opens, with the manifest that \<open>finish\<close> returned and the hash
  it printed, every entry passes the content check, and no entry is unlisted.
\<close>

theorem finished_bundle_verifies:
  assumes "zip_writer_law X" and "zip_reader_law X" and "manifest_law X m"
    and "writer_ok_reach X (with_shard_threshold t (writer_new bundle_id created_at tool)) w"
    and "finish X level ts_from ts_to resources w = (w', Inr (m, h, out))"
  shows "\<exists>r. reader_open X out = Inr r \<and> br_manifest r = m \<and> manifest_hash X r = Inr h \<and>
    verify_content_hashes X r = Inr []"
proof -
  have k: "kept X w" by (rule reach_kept [OF assms(1,4) kept_start])
  obtain es mb where f: "m_contents m = map (entry_of X) es"
    "distinct (map fst (es @ [(lit ''manifest.json'', mb)]))" "to_jcs_bytes (manifest_json m) = Inr mb"
    "jcs_hash X m = Inr h" "x_zip_finish X (es @ [(lit ''manifest.json'', mb)]) = Inr out"
    by (rule finish_Inr [OF assms(1) k assms(5)])
  from open_finished [OF assms(2,3) f(5,2,3)] finished_contents [OF f(1,2)] f(4) show ?thesis
    by (simp add: manifest_hash_def or_evidence_def)
qed

theorem finished_bundle_verifies_witness:
  "\<exists>m w h out r. finish (demo_lib m) Metadata None None []
       (booked_writer Records \<lparr>ri_streams = [demo_entry]\<rparr> demo_shards) = (w, Inr (m, h, out)) \<and>
     reader_open (demo_lib m) out = Inr r \<and> verify_content_hashes (demo_lib m) r = Inr []"
proof -
  obtain m h out w where f: "finish (demo_lib m) Metadata None None []
    (booked_writer Records \<lparr>ri_streams = [demo_entry]\<rparr> demo_shards) = (w, Inr (m, h, out))"
    by (rule demo_export)
  from finished_bundle_verifies [OF demo_laws(1,2,5) demo_add_step [unfolded demo_writer_def] f] f
  show ?thesis by blast
qed

text \<open>
  C12: Records survive the trip through a bundle. If a stream's record lines are added to a writer and
  the bundle is finished and opened, reading that stream gives exactly those lines, without their
  newlines and in order, across all shards, and counts them.
\<close>

theorem record_lines_roundtrip:
  assumes "zip_writer_law X" "zip_reader_law X" "manifest_law X m" "zstd_law X" "index_law X"
    and "writer_ok_reach X (with_shard_threshold t (writer_new bundle_id created_at tool)) w"
    and "add_stream_records X sid (map Inr ls) w = (w1, Inr entry)" and "list_all record_line ls"
    and "\<forall>s \<in> set (ri_streams (bw_index w)). ri_stream_id s \<noteq> sid"
    and "finish X level ts_from ts_to resources w1 = (w2, Inr (m, h, out))"
    and "reader_open X out = Inr r"
  shows "read_stream_records X r sid = (map butlast ls, Inr (of_nat (length ls)))"
proof -
  have k: "kept X w" by (rule reach_kept [OF assms(1,6) kept_start])
  then have k1: "kept X w1" using wspecD [OF ok_add_stream_records [OF assms(1)] k assms(7)] by simp
  obtain new groups where n: "bw_zip w1 = bw_zip w @ new" "ri_shards entry = map fst new" "packed X new groups"
    "concat groups = ls" "ri_stream_id entry = sid"
    "ri_streams (bw_index w1) = ri_streams (bw_index w) @ [entry]" "bw_phase w1 = Records"
    by (rule add_stream_records_Inr [OF assms(1,7,8)])
  obtain w3 es mb where f: "close_records X w1 = (w3, Inr ())"
    "es = bw_zip w3 @ [(lit ''VERIFY.md'', str_bytes (verify_md_template (bw_tool w3)))]"
    "distinct (map fst (es @ [(lit ''manifest.json'', mb)]))" "to_jcs_bytes (manifest_json m) = Inr mb"
    "x_zip_finish X (es @ [(lit ''manifest.json'', mb)]) = Inr out"
    by (rule finish_Inr [OF assms(1) k1 assms(10)])
  from close_records_Inr [OF assms(1) f(1)] n(7) obtain b where b: "x_pretty_index X (bw_index w1) = Inr b"
    "bw_zip w3 = bw_zip w1 @ [(lit ''records/index.json'', b)]" by auto
  let ?all = "es @ [(lit ''manifest.json'', mb)]"
  from open_finished [OF assms(2,3) f(5,3,4)] assms(11)
  have r: "r = \<lparr>br_zip = archive_of ?all, br_manifest = m\<rparr>" by simp
  have "read_entry (archive_of ?all) (lit ''records/index.json'') = Inr b"
    using read_archive_entry [OF f(3), of "(lit ''records/index.json'', b)"] b(2) f(2) by simp
  moreover have "x_parse_index X b = Inr (bw_index w1)" using b(1) assms(5) by (simp add: index_law_def)
  ultimately have "record_index X r = Inr (bw_index w1)" by (simp add: record_index_def r)
  moreover have "find (\<lambda>s. ri_stream_id s = sid) (ri_streams (bw_index w1)) = Some entry"
  proof -
    have "find (\<lambda>s. ri_stream_id s = sid) (ri_streams (bw_index w)) = None"
      using assms(9) by (simp add: find_None_iff)
    then show ?thesis using n(5,6) by (simp add: find_append)
  qed
  moreover have "read_shards X (archive_of ?all) (ri_shards entry) = (map butlast ls, None)"
    unfolding n(2) n(4) [symmetric]
  proof (rule read_shards_packed [OF assms(4) f(3) n(3)])
    show "set new \<subseteq> set ?all" using n(1) b(2) f(2) by auto
    show "list_all (list_all record_line) groups" using assms(8) n(4) by (auto simp: list_all_iff)
  qed
  ultimately show ?thesis by (simp add: read_stream_records_def r)
qed

theorem record_lines_roundtrip_witness:
  "\<exists>m w h out r. finish (demo_lib m) Metadata None None []
       (booked_writer Records \<lparr>ri_streams = [demo_entry]\<rparr> demo_shards) = (w, Inr (m, h, out)) \<and>
     reader_open (demo_lib m) out = Inr r \<and>
     read_stream_records (demo_lib m) r (lit ''5'') = ([[1], [2], [3]], Inr 3)"
proof -
  obtain m h out w where f: "finish (demo_lib m) Metadata None None []
    (booked_writer Records \<lparr>ri_streams = [demo_entry]\<rparr> demo_shards) = (w, Inr (m, h, out))"
    by (rule demo_export)
  obtain es mb where "distinct (map fst (es @ [(lit ''manifest.json'', mb)]))"
    "to_jcs_bytes (manifest_json m) = Inr mb"
    "x_zip_finish (demo_lib m) (es @ [(lit ''manifest.json'', mb)]) = Inr out"
    by (rule finish_Inr [OF demo_laws(1) reach_kept [OF demo_laws(1) demo_add_step] f])
      (simp add: demo_writer_def kept_start)
  from open_finished [OF demo_laws(2,5) this(3,1,2)] obtain r where r: "reader_open (demo_lib m) out = Inr r"
    by blast
  have "writer_ok_reach (demo_lib m) (with_shard_threshold 4 (writer_new [] [] demo_tool)) demo_writer"
    by (simp add: writer_ok_reach_def demo_writer_def)
  from record_lines_roundtrip [OF demo_laws(1,2,5,3,4) this demo_add [folded demo_writer_booked demo_shards_def] _ _ f r]
  have "read_stream_records (demo_lib m) r (lit ''5'') = ([[1], [2], [3]], Inr 3)"
    by (simp add: demo_lines_def record_line_def demo_writer_booked)
  with f r show ?thesis by blast
qed

text \<open>
  C37: A bundle can be finished without its record index. If a vault entry is added while the records
  are still open, \<open>finish\<close> does not write \<open>records/index.json\<close>: the bundle opens and passes the
  content check, but no stream of it can be read.
\<close>

theorem early_vault_entry_loses_index:
  assumes "zip_writer_law X" "zip_reader_law X" "manifest_law X m"
    and "writer_ok_reach X (with_shard_threshold t (writer_new bundle_id created_at tool)) w"
    and "bw_phase w = Records" and "lit ''records/index.json'' \<notin> fst ` set (bw_zip w)"
    and "add_vault_entry X name bytes w = (w1, Inr ())"
    and "finish X level ts_from ts_to resources w1 = (w2, Inr (m, h, out))"
    and "reader_open X out = Inr r"
  shows "read_stream_records X r sid = ([], Inl (MissingEntry [S (lit ''records/index.json'')]))"
proof -
  have k: "kept X w" by (rule reach_kept [OF assms(1,4) kept_start])
  then have k1: "kept X w1" using wspecD [OF ok_additions(6) [OF assms(1)] k assms(7)] by simp
  from assms(7) obtain w0 where "require_phase Vault Vault w = (w0, Inr ())"
    "write_entry X (lit ''vault/'' @ name) bytes w0 = (w1, Inr ())"
    by (auto simp: add_vault_entry_def wop_Inr wfail_def split: if_splits)
  with write_entry_kept [OF assms(1)] have v: "bw_zip w1 = bw_zip w @ [(lit ''vault/'' @ name, bytes)]"
    "bw_phase w1 = Vault" by (fastforce simp: require_phase_def split: if_splits)+
  obtain w3 es mb where f: "close_records X w1 = (w3, Inr ())"
    "es = bw_zip w3 @ [(lit ''VERIFY.md'', str_bytes (verify_md_template (bw_tool w3)))]"
    "distinct (map fst (es @ [(lit ''manifest.json'', mb)]))" "to_jcs_bytes (manifest_json m) = Inr mb"
    "x_zip_finish X (es @ [(lit ''manifest.json'', mb)]) = Inr out"
    by (rule finish_Inr [OF assms(1) k1 assms(8)])
  from f(1) v(2) have "w3 = w1" by (simp add: close_records_def)
  then have "lit ''records/index.json'' \<notin> fst ` set (es @ [(lit ''manifest.json'', mb)])"
    using f(2) v(1) assms(6) by (auto simp: lit_def)
  then have "map_of (es @ [(lit ''manifest.json'', mb)]) (lit ''records/index.json'') = None"
    by (simp only: map_of_eq_None_iff not_False_eq_True)
  then have "read_entry (archive_of (es @ [(lit ''manifest.json'', mb)])) (lit ''records/index.json'') =
      Inl (MissingEntry [S (lit ''records/index.json'')])" by (simp only: read_archive option.case)
  moreover from open_finished [OF assms(2,3) f(5,3,4)] assms(9)
  have "r = \<lparr>br_zip = archive_of (es @ [(lit ''manifest.json'', mb)]), br_manifest = m\<rparr>" by simp
  ultimately show ?thesis by (simp add: read_stream_records_def record_index_def)
qed

theorem early_vault_entry_loses_index_witness:
  "\<exists>m w h out r. finish (demo_lib m) Metadata None None [] (booked_writer Vault \<lparr>ri_streams = [demo_entry]\<rparr>
       (demo_shards @ [(lit ''vault/a'', [9])])) = (w, Inr (m, h, out)) \<and> reader_open (demo_lib m) out = Inr r \<and>
     read_stream_records (demo_lib m) r (lit ''5'') = ([], Inl (MissingEntry [S (lit ''records/index.json'')]))"
proof -
  let ?es = "demo_shards @ [(lit ''vault/a'', [9])]"
  let ?w = "booked_writer Records \<lparr>ri_streams = [demo_entry]\<rparr> demo_shards"
  let ?w1 = "booked_writer Vault \<lparr>ri_streams = [demo_entry]\<rparr> ?es"
  have d: "set (map fst ?es) \<inter> {lit ''VERIFY.md'', lit ''manifest.json''} = {}"
    using demo_shard_names by (auto simp: lit_def)
  have l: "list_all (\<lambda>e. length (snd e) < 2 ^ 32) ?es" by (simp add: demo_shards_def)
  obtain m h out w where f: "finish (demo_lib m) Metadata None None [] ?w1 = (w, Inr (m, h, out))"
    by (rule demo_finish [OF _ d l refl, where p = Vault]) auto
  have v: "add_vault_entry (demo_lib m) (lit ''a'') [9] ?w = (?w1, Inr ())"
  proof -
    have "require_phase Vault Vault ?w = (booked_writer Vault \<lparr>ri_streams = [demo_entry]\<rparr> demo_shards, Inr ())"
      by (simp add: require_phase_def less_Phase_def)
    then show ?thesis
      using demo_write_entry [OF demo_shard_names(2)]
      by (simp add: add_vault_entry_def wthen_def wbind_def) (simp add: lit_def)
  qed
  have k1: "kept (demo_lib m) ?w1"
    by (rule wspecD [OF ok_additions(6) [OF demo_laws(1)] reach_kept [OF demo_laws(1) demo_add_step] v, simplified])
      (simp add: demo_writer_def kept_start)
  obtain es mb where "distinct (map fst (es @ [(lit ''manifest.json'', mb)]))"
    "to_jcs_bytes (manifest_json m) = Inr mb"
    "x_zip_finish (demo_lib m) (es @ [(lit ''manifest.json'', mb)]) = Inr out"
    by (rule finish_Inr [OF demo_laws(1) k1 f])
  from open_finished [OF demo_laws(2,5) this(3,1,2)] obtain r where r: "reader_open (demo_lib m) out = Inr r"
    by blast
  have "read_stream_records (demo_lib m) r (lit ''5'') = ([], Inl (MissingEntry [S (lit ''records/index.json'')]))"
    by (rule early_vault_entry_loses_index [OF demo_laws(1,2,5) demo_add_step [unfolded demo_writer_def] _ _ v f r])
      (simp_all add: demo_shard_names)
  with f r show ?thesis by blast
qed

end
