(* ===== verification/End_To_End.thy ===== *)
theory End_To_End
  imports Demo_Run Export
begin

text \<open>
  From the recorder to the verdict. An exporter that feeds the lines and checkpoints of honest streams
  to the bundle writer, in the order the writer asks for, gets a file which the verifier opens and
  passes: the chain writer, the canonical encoding, the checkpoint builder, the bundle writer, the
  reader and the engine fit together.
\<close>

section \<open>An exporter\<close>

record ExportedStream =
  ex_stream_id :: ustr
  ex_lines :: "bytes list"
  ex_checkpoints :: "BundleCheckpoint list"

fun export_records :: "('w, 'x) bext_scheme \<Rightarrow> ExportedStream list \<Rightarrow> unit wop" where
  "export_records X [] = wret ()"
| "export_records X (s # ss) =
     wbind (add_stream_records X (ex_stream_id s) (map Inr (ex_lines s))) (\<lambda>_. export_records X ss)"

fun export_checkpoints :: "('w, 'x) bext_scheme \<Rightarrow> ExportedStream list \<Rightarrow> unit wop" where
  "export_checkpoints X [] = wret ()"
| "export_checkpoints X (s # ss) =
     wthen (add_stream_checkpoints X (ex_stream_id s) (ex_checkpoints s)) (export_checkpoints X ss)"

definition export_bundle ::
  "('w, 'x) bext_scheme \<Rightarrow> ExportedStream list \<Rightarrow> ustr \<Rightarrow> RootsFile \<Rightarrow> ExportLevel \<Rightarrow> (Manifest \<times> ustr \<times> 'w) wop" where
  "export_bundle X ss certs_pem roots level =
     wthen (export_records X ss) (wthen (export_checkpoints X ss)
       (wthen (add_identity X certs_pem None roots) (finish X level None None [])))"

section \<open>What the exporter's calls leave in the writer\<close>

lemma ok_export:
  assumes "zip_writer_law X"
  shows "wspec (kept X) (export_records X ss) (kept X) anything" "wspec (kept X) (export_checkpoints X ss) (kept X) anything"
  by (induction ss) (auto intro!: wspec_wret wspec_wbind [OF ok_add_stream_records [OF assms]]
    wspec_wthen [OF ok_additions(1) [OF assms]])

lemma continues_export:
  "wspec (continues w0) (export_records X ss) (continues w0) (continues w0)"
  "wspec (continues w0) (export_checkpoints X ss) (continues w0) (continues w0)"
  by (induction ss) (auto intro!: wspec_wret wspec_wbind [OF spec_add_stream_records] wspec_wthen [OF spec_additions(1)])

definition stored :: "('w, 'x) bext_scheme \<Rightarrow> (ustr \<times> bytes) list \<Rightarrow> ExportedStream \<Rightarrow> RecordIndexStream \<Rightarrow> bool" where
  "stored X es s e \<longleftrightarrow> ri_stream_id e = ex_stream_id s \<and>
     (\<exists>new groups. ri_shards e = map fst new \<and> packed X new groups \<and> concat groups = ex_lines s \<and> set new \<subseteq> set es)"

lemma stored_mono: "stored X es s e \<Longrightarrow> set es \<subseteq> set es' \<Longrightarrow> stored X es' s e"
  unfolding stored_def by blast

lemma export_records_Inr:
  assumes X: "zip_writer_law X"
  shows "export_records X ss w = (w', Inr u) \<Longrightarrow> list_all (\<lambda>s. list_all record_line (ex_lines s)) ss \<Longrightarrow>
    bw_phase w = Records \<Longrightarrow> bw_phase w' = Records \<and> set (bw_zip w) \<subseteq> set (bw_zip w') \<and>
    (\<exists>entries. ri_streams (bw_index w') = ri_streams (bw_index w) @ entries \<and> list_all2 (stored X (bw_zip w')) ss entries)"
proof (induction ss arbitrary: w)
  case (Cons s ss)
  then obtain w1 entry where a: "add_stream_records X (ex_stream_id s) (map Inr (ex_lines s)) w = (w1, Inr entry)"
    and r: "export_records X ss w1 = (w', Inr u)" by (auto simp: wbind_Inr)
  obtain new groups where n: "bw_zip w1 = bw_zip w @ new" "ri_shards entry = map fst new" "packed X new groups"
    "concat groups = ex_lines s" "ri_stream_id entry = ex_stream_id s"
    "ri_streams (bw_index w1) = ri_streams (bw_index w) @ [entry]" "bw_phase w1 = Records"
    using Cons.prems(2) by (auto intro: add_stream_records_Inr [OF X a])
  from Cons.IH [OF r _ n(7)] Cons.prems(2) obtain entries where i: "bw_phase w' = Records" "set (bw_zip w1) \<subseteq> set (bw_zip w')"
    "ri_streams (bw_index w') = ri_streams (bw_index w1) @ entries" "list_all2 (stored X (bw_zip w')) ss entries" by auto
  have "stored X (bw_zip w1) s entry"
    unfolding stored_def using n(1-5) by (intro conjI exI [of _ new] exI [of _ groups]) auto
  with stored_mono [OF this i(2)] i n show ?case by (auto intro: exI [of _ "entry # entries"])
qed (simp add: wret_def)

text \<open>Once the records are closed, the index of the bundle is the writer's.\<close>

definition index_saved :: "('w, 'x) bext_scheme \<Rightarrow> BundleWriter \<Rightarrow> bool" where
  "index_saved X w \<longleftrightarrow> (\<exists>b. x_pretty_index X (bw_index w) = Inr b \<and> (lit ''records/index.json'', b) \<in> set (bw_zip w))"

lemma close_saves:
  assumes X: "zip_writer_law X" and c: "close_records X w = (w', Inr u)" and i: "bw_phase w = Records \<or> index_saved X w"
  shows "index_saved X w'" "bw_index w' = bw_index w" "bw_phase w' \<noteq> Records"
    "\<exists>idx. bw_zip w' = bw_zip w @ idx \<and> fst ` set idx \<subseteq> {lit ''records/index.json''}"
proof -
  show "bw_phase w' \<noteq> Records"
    using c by (auto simp: close_records_def finish_records_def wop_Inr split: if_splits)
  from close_records_Inr [OF X c] i show "index_saved X w'" "bw_index w' = bw_index w"
    "\<exists>idx. bw_zip w' = bw_zip w @ idx \<and> fst ` set idx \<subseteq> {lit ''records/index.json''}"
    by (auto simp: index_saved_def)
qed

lemma require_phase_Inr: "require_phase p q w = (w', Inr u) \<longleftrightarrow> bw_phase w \<le> p \<and> w' = w\<lparr>bw_phase := q\<rparr>"
  by (auto simp: require_phase_def)

lemma index_saved_grow: "index_saved X w \<Longrightarrow> bw_index w' = bw_index w \<Longrightarrow> set (bw_zip w) \<subseteq> set (bw_zip w') \<Longrightarrow> index_saved X w'"
  unfolding index_saved_def by force

definition checkpoint_entry :: "('w, 'x) bext_scheme \<Rightarrow> (ustr \<times> bytes) list \<Rightarrow> ExportedStream \<Rightarrow> bool" where
  "checkpoint_entry X es s \<longleftrightarrow> (\<exists>b. x_pretty_checkpoints X \<lparr>st_stream_id = ex_stream_id s, st_checkpoints = ex_checkpoints s\<rparr> = Inr b \<and>
     (lit ''checkpoints/'' @ ex_stream_id s @ lit ''.json'', b) \<in> set es)"

lemma add_checkpoints_Inr:
  assumes X: "zip_writer_law X" and a: "add_stream_checkpoints X (ex_stream_id s) (ex_checkpoints s) w = (w', Inr u)"
    and i: "bw_phase w = Records \<or> index_saved X w"
  shows "index_saved X w' \<and> bw_index w' = bw_index w \<and> bw_phase w' = Checkpoints \<and> set (bw_zip w) \<subseteq> set (bw_zip w') \<and>
    checkpoint_entry X (bw_zip w') s"
proof -
  from a obtain w1 w2 b where c: "close_records X w = (w1, Inr ())" and p: "require_phase Checkpoints Checkpoints w1 = (w2, Inr ())"
    and b: "x_pretty_checkpoints X \<lparr>st_stream_id = ex_stream_id s, st_checkpoints = ex_checkpoints s\<rparr> = Inr b"
    and e: "write_entry X (lit ''checkpoints/'' @ ex_stream_id s @ lit ''.json'') b w2 = (w', Inr ())"
    by (auto simp: add_stream_checkpoints_def wop_Inr or_json_def case_sum_Inr)
  from close_saves [OF X c i] p write_entry_kept [OF X e] have
    w: "bw_index w' = bw_index w" "bw_phase w' = Checkpoints" "set (bw_zip w1) \<subseteq> set (bw_zip w')" "set (bw_zip w) \<subseteq> set (bw_zip w')"
    "(lit ''checkpoints/'' @ ex_stream_id s @ lit ''.json'', b) \<in> set (bw_zip w')"
    by (auto simp: require_phase_Inr)
  from index_saved_grow [OF close_saves(1) [OF X c i] _ w(3)] close_saves(2) [OF X c i] w b show ?thesis
    by (auto simp: checkpoint_entry_def)
qed

lemma export_checkpoints_Inr:
  assumes X: "zip_writer_law X"
  shows "export_checkpoints X ss w = (w', Inr u) \<Longrightarrow> bw_phase w = Records \<or> (index_saved X w \<and> bw_phase w = Checkpoints) \<Longrightarrow>
    (bw_phase w' = Records \<or> (index_saved X w' \<and> bw_phase w' = Checkpoints)) \<and> bw_index w' = bw_index w \<and>
    set (bw_zip w) \<subseteq> set (bw_zip w') \<and> list_all (checkpoint_entry X (bw_zip w')) ss"
proof (induction ss arbitrary: w)
  case (Cons s ss)
  then obtain w1 where a: "add_stream_checkpoints X (ex_stream_id s) (ex_checkpoints s) w = (w1, Inr ())"
    and r: "export_checkpoints X ss w1 = (w', Inr u)" by (auto simp: wthen_Inr)
  from add_checkpoints_Inr [OF X a] Cons.prems(2) have 1: "index_saved X w1" "bw_index w1 = bw_index w"
    "bw_phase w1 = Checkpoints" "set (bw_zip w) \<subseteq> set (bw_zip w1)" "checkpoint_entry X (bw_zip w1) s" by auto
  from Cons.IH [OF r] 1 have "set (bw_zip w1) \<subseteq> set (bw_zip w')" by simp
  with 1(5) have "checkpoint_entry X (bw_zip w') s" by (auto simp: checkpoint_entry_def)
  with Cons.IH [OF r] 1 show ?case by auto
qed (auto simp: wret_def)

lemma add_identity_Inr:
  assumes X: "zip_writer_law X" and a: "add_identity X certs_pem None roots w = (w', Inr u)"
    and i: "bw_phase w = Records \<or> index_saved X w"
  obtains idx rb where "x_pretty_roots X roots = Inr rb" "fst ` set idx \<subseteq> {lit ''records/index.json''}"
    "bw_zip w' = bw_zip w @ idx @ [(lit ''identity/certs.pem'', str_bytes certs_pem), (lit ''identity/roots.json'', rb)]"
    "index_saved X w'" "bw_index w' = bw_index w" "bw_phase w' \<noteq> Records"
proof -
  from a obtain w1 w2 w3 rb where c: "close_records X w = (w1, Inr ())" and p: "require_phase Anchors Identity w1 = (w2, Inr ())"
    and e: "write_entry X (lit ''identity/certs.pem'') (str_bytes certs_pem) w2 = (w3, Inr ())"
    and rb: "x_pretty_roots X roots = Inr rb" and e2: "write_entry X (lit ''identity/roots.json'') rb w3 = (w', Inr ())"
    by (auto simp: add_identity_def wop_Inr or_json_def case_sum_Inr wret_def)
  from close_saves(4) [OF X c i] obtain idx where idx: "bw_zip w1 = bw_zip w @ idx" "fst ` set idx \<subseteq> {lit ''records/index.json''}" by blast
  from p have w2: "w2 = w1\<lparr>bw_phase := Identity\<rparr>" by (simp add: require_phase_Inr)
  note k = write_entry_kept [OF X e] write_entry_kept [OF X e2]
  have "index_saved X w'"
    using index_saved_grow [OF close_saves(1) [OF X c i], of w'] k w2 by auto
  with k w2 idx rb close_saves(2) [OF X c i] show ?thesis by (intro that [of rb idx]) simp_all
qed

section \<open>What the reader finds\<close>

text \<open>Serde reads back what it has printed.\<close>

definition checkpoints_law :: "('w, 'x) bext_scheme \<Rightarrow> bool" where
  "checkpoints_law X \<longleftrightarrow> (\<forall>c b. x_pretty_checkpoints X c = Inr b \<longrightarrow> x_parse_checkpoints X b = Inr c)"

definition roots_law :: "('w, 'x) bext_scheme \<Rightarrow> bool" where
  "roots_law X \<longleftrightarrow> (\<forall>f b. x_pretty_roots X f = Inr b \<longrightarrow> x_parse_roots X b = Inr f)"

abbreviation storage_laws :: "('w, 'x) bext_scheme \<Rightarrow> bool" where
  "storage_laws X \<equiv> zip_writer_law X \<and> zip_reader_law X \<and> zstd_law X \<and> index_law X \<and> checkpoints_law X \<and> roots_law X"

lemma find_stored:
  "list_all2 (stored X es) ss entries \<Longrightarrow> distinct (map ex_stream_id ss) \<Longrightarrow> s \<in> set ss \<Longrightarrow>
   \<exists>e. find (\<lambda>e. ri_stream_id e = ex_stream_id s) entries = Some e \<and> stored X es s e"
  by (induction ss entries rule: list_all2_induct) (auto simp: stored_def image_iff)

lemma exported_bundle_opens:
  assumes laws: "storage_laws X" "manifest_law X m"
    and ls: "list_all (\<lambda>s. list_all record_line (ex_lines s)) ss" and ids: "distinct (map ex_stream_id ss)"
    and pem: "is_ustr certs_pem"
    and run: "export_bundle X ss certs_pem roots level (with_shard_threshold t (writer_new bundle_id created_at tool)) = (w', Inr (m, h, out))"
  obtains r where "reader_open X out = Inr r" "br_manifest r = m" "verify_content_hashes X r = Inr []"
    "m_schema_version m = BUNDLE_SCHEMA_VERSION" "sco_stream_id ` set (bs_streams (m_scope m)) = set (map ex_stream_id ss)"
    "identity X r = Inr \<lparr>bi_certs_pem = certs_pem, bi_revocations = None, bi_roots = roots\<rparr>"
    "anchor_proofs X r = Inr anchor_proofs_default"
    "\<And>s. s \<in> set ss \<Longrightarrow> read_stream_records X r (ex_stream_id s) = (map butlast (ex_lines s), Inr (of_nat (length (ex_lines s))))"
    "\<And>s. s \<in> set ss \<Longrightarrow> stream_checkpoints X r (ex_stream_id s) =
       Inr \<lparr>st_stream_id = ex_stream_id s, st_checkpoints = ex_checkpoints s\<rparr>"
proof -
  let ?w0 = "with_shard_threshold t (writer_new bundle_id created_at tool)"
  have X: "zip_writer_law X" "zip_reader_law X" using laws by simp_all
  from run obtain w1 w2 w3 where 1: "export_records X ss ?w0 = (w1, Inr ())" and 2: "export_checkpoints X ss w1 = (w2, Inr ())"
    and 3: "add_identity X certs_pem None roots w2 = (w3, Inr ())" and 4: "finish X level None None [] w3 = (w', Inr (m, h, out))"
    by (auto simp: export_bundle_def wthen_Inr)
  have w0: "bw_phase ?w0 = Records" "ri_streams (bw_index ?w0) = []" by (simp_all add: with_shard_threshold_def writer_new_def)
  from export_records_Inr [OF X(1) 1 ls w0(1)] w0(2) obtain entries where e: "bw_phase w1 = Records"
    "ri_streams (bw_index w1) = entries" "list_all2 (stored X (bw_zip w1)) ss entries" by auto
  from export_checkpoints_Inr [OF X(1) 2] e(1) have c: "bw_phase w2 = Records \<or> (index_saved X w2 \<and> bw_phase w2 = Checkpoints)"
    "bw_index w2 = bw_index w1" "set (bw_zip w1) \<subseteq> set (bw_zip w2)" "list_all (checkpoint_entry X (bw_zip w2)) ss" by auto
  obtain idx rb where i: "x_pretty_roots X roots = Inr rb" "fst ` set idx \<subseteq> {lit ''records/index.json''}"
    "bw_zip w3 = bw_zip w2 @ idx @ [(lit ''identity/certs.pem'', str_bytes certs_pem), (lit ''identity/roots.json'', rb)]"
    "index_saved X w3" "bw_index w3 = bw_index w2" "bw_phase w3 \<noteq> Records"
    using c(1) by (auto intro: add_identity_Inr [OF X(1) 3])
  have k: "kept X w3"
    using wspecD [OF ok_export(1) [OF X(1)] kept_start 1] wspecD [OF ok_export(2) [OF X(1)] _ 2]
      wspecD [OF ok_additions(5) [OF X(1)] _ 3] by simp
  have "continues ?w0 ?w0" by (simp add: continues_def with_shard_threshold_def writer_new_def)
  then have "continues ?w0 w2"
    using wspecD [OF continues_export(1) _ 1] wspecD [OF continues_export(2) _ 2] by simp
  then have "\<forall>q \<in> set (bw_zip w2). entry_rank (fst q) \<le> 1" using c(1) by (auto simp: continues_def)
  then have names: "n \<notin> fst ` set (bw_zip w2)" if "1 < entry_rank n" for n using that by fastforce
  obtain es mb where f: "es = bw_zip w3 @ [(lit ''VERIFY.md'', str_bytes (verify_md_template (bw_tool w3)))]"
    "m_contents m = map (entry_of X) es" "distinct (map fst (es @ [(lit ''manifest.json'', mb)]))"
    "to_jcs_bytes (manifest_json m) = Inr mb" "x_zip_finish X (es @ [(lit ''manifest.json'', mb)]) = Inr out"
    using i(6) by (auto intro: finish_Inr [OF X(1) k 4] simp: close_records_def)
  let ?all = "es @ [(lit ''manifest.json'', mb)]"
  let ?r = "\<lparr>br_zip = archive_of ?all, br_manifest = m\<rparr>"
  have o: "reader_open X out = Inr ?r" by (rule open_finished [OF X(2) laws(2) f(5,3,4)])
  have rd: "read_entry (archive_of ?all) n = Inr b" if "(n, b) \<in> set (bw_zip w3)" for n b
    using read_archive_entry [OF f(3), of "(n, b)"] that f(1) by simp
  have miss: "read_entry (archive_of ?all) n = Inl (MissingEntry [S n])" if "n \<notin> fst ` set ?all" for n
    using that using map_of_eq_None_iff [of ?all n] by (simp add: read_archive del: map_of_append)
  have absent: "read_entry (archive_of ?all) n = Inl (MissingEntry [S n])"
    if "1 < entry_rank n" "n \<notin> {lit ''identity/certs.pem'', lit ''identity/roots.json'', lit ''VERIFY.md'', lit ''manifest.json''}" for n
  proof (rule miss)
    have "n \<noteq> lit ''records/index.json''" using that(1) by auto
    with names [OF that(1)] that(2) i(2) show "n \<notin> fst ` set ?all" unfolding f(1) i(3) by auto
  qed
  have idty: "identity X ?r = Inr \<lparr>bi_certs_pem = certs_pem, bi_revocations = None, bi_roots = roots\<rparr>"
  proof -
    have "read_entry (archive_of ?all) (lit ''identity/certs.pem'') = Inr (str_bytes certs_pem)"
      "read_entry (archive_of ?all) (lit ''identity/roots.json'') = Inr rb" by (rule rd, simp add: i(3))+
    moreover have "read_revocations X ?r = Inr None"
      using absent [of "lit ''identity/revocations.json''"] by (simp add: read_revocations_def)
    moreover have "x_parse_roots X rb = Inr roots" using laws i(1) by (simp add: roots_law_def)
    ultimately show ?thesis by (simp add: identity_def utf8_decode_encode [OF pem] or_json_def)
  qed
  have anch: "anchor_proofs X ?r = Inr anchor_proofs_default"
    using absent [of "lit ''anchors/proofs.json''"] by (simp add: anchor_proofs_def)
  have cps: "stream_checkpoints X ?r (ex_stream_id s) = Inr \<lparr>st_stream_id = ex_stream_id s, st_checkpoints = ex_checkpoints s\<rparr>"
    if "s \<in> set ss" for s
  proof -
    from that c(4) obtain b where "x_pretty_checkpoints X \<lparr>st_stream_id = ex_stream_id s, st_checkpoints = ex_checkpoints s\<rparr> = Inr b"
      "(lit ''checkpoints/'' @ ex_stream_id s @ lit ''.json'', b) \<in> set (bw_zip w3)"
      unfolding i(3) by (auto simp: list_all_iff checkpoint_entry_def)
    with laws rd show ?thesis by (simp add: stream_checkpoints_def checkpoints_law_def or_json_def)
  qed
  have recs: "read_stream_records X ?r (ex_stream_id s) = (map butlast (ex_lines s), Inr (of_nat (length (ex_lines s))))"
    if s: "s \<in> set ss" for s
  proof -
    from find_stored [OF e(3) ids s] obtain en new groups where
      en: "find (\<lambda>e. ri_stream_id e = ex_stream_id s) entries = Some en" "ri_shards en = map fst new" "packed X new groups"
        "concat groups = ex_lines s" "set new \<subseteq> set (bw_zip w1)" by (auto simp: stored_def)
    from i(4) obtain b where b: "x_pretty_index X (bw_index w3) = Inr b" "(lit ''records/index.json'', b) \<in> set (bw_zip w3)"
      by (auto simp: index_saved_def)
    have ix: "record_index X ?r = Inr (bw_index w3)"
      using b(1) rd [OF b(2)] laws by (simp add: record_index_def index_law_def or_json_def)
    have "read_shards X (archive_of ?all) (ri_shards en) = (map butlast (ex_lines s), None)"
      unfolding en(2) en(4) [symmetric]
    proof (rule read_shards_packed [OF _ f(3) en(3)])
      show "zstd_law X" using laws by simp
      show "set new \<subseteq> set ?all" using en(5) c(3) unfolding f(1) i(3) by auto
      have "list_all record_line (concat groups)" using ls s unfolding en(4) by (simp add: list_all_iff)
      then show "list_all (list_all record_line) groups" by (simp add: list_all_iff)
    qed
    with ix en(1) e(2) c(2) i(5) show ?thesis by (simp add: read_stream_records_def)
  qed
  have "list_all2 (\<lambda>s e. ri_stream_id e = ex_stream_id s) ss entries"
    using e(3) by (rule list_all2_mono) (simp add: stored_def)
  then have "map ri_stream_id entries = map ex_stream_id ss" by (induction rule: list_all2_induct) simp_all
  then have scope: "sco_stream_id ` set (bs_streams (m_scope m)) = set (map ex_stream_id ss)"
    unfolding finish_scope(2) [OF 4] i(5) c(2) e(2) by (simp add: image_comp scope_of_stream_def comp_def) (metis list.set_map)
  show ?thesis
    by (rule that [OF o _ finished_contents [OF f(2,3)] finish_scope(1) [OF 4] scope idty anch recs cps]) simp
qed

section \<open>Honest streams\<close>

text \<open>The parser reads the canonical bytes of a record to the value of that text.\<close>

definition parses_back :: "'x vext_scheme \<Rightarrow> Record \<Rightarrow> bool" where
  "parses_back X r \<longleftrightarrow> (\<forall>b. to_jcs_bytes (record_to_json r) = Inr b \<longrightarrow> x_json_parse X b = Inr (read_back r))"

definition recorded :: "'x vext_scheme \<Rightarrow> VerifyOptions \<Rightarrow> CertMap \<Rightarrow> ExportedStream \<Rightarrow> bool" where
  "recorded X opts cert_map s \<longleftrightarrow> (\<exists>sid rs h runs. ex_stream_id s = x_ulid_str X sid \<and>
     append_all X (chain_genesis X sid) rs = Inr (h, concat runs) \<and> clocks_ok X rs \<and> list_all wf_record rs \<and>
     rs \<noteq> [] \<and> length rs < 2 ^ 64 \<and> list_all (\<lambda>r. r_record_type r \<noteq> CoverageGap) (concat runs) \<and>
     map to_ndjson_line (concat runs) = map Inr (ex_lines s) \<and> list_all (parses_back X) (concat runs) \<and>
     checkpointed X cert_map None runs (ex_checkpoints s) \<and>
     map_of (vo_expected_high_water opts) (ex_stream_id s) = Some (r_seq (last (concat runs))))"

lemma ndjson_record_line:
  assumes "wf_record r" and "to_ndjson_line r = Inr l"
  shows "record_line l \<and> to_jcs_bytes (record_to_json r) = Inr (butlast l)"
proof -
  from ndjson_line_single [OF assms] obtain bytes where b: "to_jcs_bytes (record_to_json r) = Inr bytes" "l = bytes @ [10]"
    "10 \<notin> set bytes" by blast
  then have "bytes \<noteq> []"
    by (auto simp: to_jcs_bytes_def write_refines_canon record_to_json_def rbind_eq_Inr)
  with b show ?thesis by (cases bytes) (simp_all add: record_line_def)
qed

lemma recorded_lines:
  assumes "map to_ndjson_line out = map Inr ls" and "list_all wf_record out"
  shows "list_all record_line ls"
    "list_all (parses_back X) out \<Longrightarrow> map (x_json_parse X) (map butlast ls) = map (\<lambda>r. Inr (read_back r)) out"
proof -
  have "list_all2 (\<lambda>r l. record_line l \<and> (parses_back X r \<longrightarrow> x_json_parse X (butlast l) = Inr (read_back r))) out ls"
    using assms
  proof (induction out arbitrary: ls)
    case (Cons r out)
    then obtain l ls' where l: "ls = l # ls'" "to_ndjson_line r = Inr l" "map to_ndjson_line out = map Inr ls'"
      by (auto simp: Cons_eq_map_conv)
    from ndjson_record_line [OF _ l(2)] Cons.prems(2) have "record_line l" "to_jcs_bytes (record_to_json r) = Inr (butlast l)"
      by simp_all
    with Cons.IH [OF l(3)] Cons.prems(2) show ?case by (simp add: l(1) parses_back_def)
  qed simp
  then show "list_all record_line ls"
    "list_all (parses_back X) out \<Longrightarrow> map (x_json_parse X) (map butlast ls) = map (\<lambda>r. Inr (read_back r)) out"
    by (induction rule: list_all2_induct) simp_all
qed

lemma recorded_wf:
  assumes "recorded X opts cm s"
  shows "list_all record_line (ex_lines s)"
proof -
  from assms obtain sid rs h runs where a: "append_all X (chain_genesis X sid) rs = Inr (h, concat runs)" "list_all wf_record rs"
    "map to_ndjson_line (concat runs) = map Inr (ex_lines s)" unfolding recorded_def by blast
  with append_all_encodable [OF a(1,2)] show ?thesis by (intro recorded_lines(1) [OF a(3)]) (simp add: list_all_iff)
qed

lemma recorded_honest:
  assumes s: "recorded X opts cm s" and r: "read_stream_records X r (ex_stream_id s) = (map butlast (ex_lines s), Inr n)"
    and c: "stream_checkpoints X r (ex_stream_id s) = Inr \<lparr>st_stream_id = ex_stream_id s, st_checkpoints = ex_checkpoints s\<rparr>"
  shows "honest_stream X r opts cm (ex_stream_id s)"
proof -
  from s obtain sid rs h runs where a: "ex_stream_id s = x_ulid_str X sid"
    "append_all X (chain_genesis X sid) rs = Inr (h, concat runs)" "clocks_ok X rs" "list_all wf_record rs"
    "rs \<noteq> []" "length rs < 2 ^ 64" "list_all (\<lambda>r. r_record_type r \<noteq> CoverageGap) (concat runs)"
    and l: "map to_ndjson_line (concat runs) = map Inr (ex_lines s)" "list_all (parses_back X) (concat runs)"
    and cp: "checkpointed X cm None runs (ex_checkpoints s)"
    and hw: "map_of (vo_expected_high_water opts) (ex_stream_id s) = Some (r_seq (last (concat runs)))"
    unfolding recorded_def by blast
  from append_all_encodable [OF a(2,4)] have "list_all wf_record (concat runs)" by (simp add: list_all_iff)
  from recorded_lines(2) [OF l(1) this l(2)] have
    p: "map (x_json_parse X) (map butlast (ex_lines s)) = map (\<lambda>r. Inr (read_back r)) (concat runs)" .
  show ?thesis
    unfolding honest_stream_def
    by (rule exI [of _ sid], rule exI [of _ rs], rule exI [of _ h], rule exI [of _ runs], rule exI [of _ "map butlast (ex_lines s)"],
        rule exI [of _ n], rule exI [of _ "\<lparr>st_stream_id = ex_stream_id s, st_checkpoints = ex_checkpoints s\<rparr>"])
      (intro conjI a r p c hw; simp add: cp)
qed

section \<open>A concrete export\<close>

definition demo_index :: RecordIndexStream where
  "demo_index = \<lparr>ri_stream_id = lit ''5'', ri_shards = [shard_path (lit ''5'') 1, shard_path (lit ''5'') 2],
     ri_seq_from = 0, ri_seq_to = 1, ri_record_count = 2\<rparr>"

definition demo_exporter ::
  "Record \<Rightarrow> Record \<Rightarrow> bytes \<Rightarrow> bytes \<Rightarrow> BundleCheckpoint list \<Rightarrow> Manifest \<Rightarrow> (ustr \<times> bytes) list eext" where
  "demo_exporter a b la lb bcs m = (demo_run [a, b] bcs)
     \<lparr>x_json_parse := (\<lambda>l. Inr (read_back (if l \<in> {la, la @ [10]} then a else b))),
      x_zstd_encode := (\<lambda>d. if d = la @ [10] then Inr [0] else if d = lb @ [10] then Inr [1] else Inl []),
      x_zstd_decode := (\<lambda>file. Inr (if zf_data file = [0] then la @ [10] else lb @ [10], zf_error file)),
      x_parse_manifest := (\<lambda>_. Inr m), x_parse_index := (\<lambda>_. Inr \<lparr>ri_streams = [demo_index]\<rparr>),
      x_pretty_index := (\<lambda>j. if j = \<lparr>ri_streams = [demo_index]\<rparr> then Inr [] else Inl []),
      x_pretty_checkpoints := (\<lambda>c. if c = \<lparr>st_stream_id = lit ''5'', st_checkpoints = bcs\<rparr> then Inr [] else Inl []),
      x_pretty_roots := (\<lambda>f. if f = \<lparr>rf_roots = [], rf_console_keys = []\<rparr> then Inr [] else Inl [])\<rparr>"

lemma demo_run_zip [simp]:
  "x_zip_open (demo_run out bcs) = Inr \<circ> archive_of"
  "x_zip_start (demo_run out bcs) = (\<lambda>names name. if name \<in> set names then Some (OtherZipError []) else None)"
  "x_zip_write (demo_run out bcs) = (\<lambda>b. (b, None))"
  "x_zip_finish (demo_run out bcs) = Inr"
  by (simp_all add: demo_run_def demo_engine_def with_engine_def with_tokens_def demo_bundle_def with_parser_def
    with_certs_def ext.defs cext.defs vext.defs bext.defs tsext.defs eext.defs)

lemma demo_exporter_simps [simp]:
  "x_zip_start (demo_exporter a b la lb bcs m) = (\<lambda>names name. if name \<in> set names then Some (OtherZipError []) else None)"
  "x_zip_write (demo_exporter a b la lb bcs m) = (\<lambda>b. (b, None))"
  "x_zip_finish (demo_exporter a b la lb bcs m) = Inr"
  "x_blake3 (demo_exporter a b la lb bcs m) = demo_digest 257"
  "x_json_parse (demo_exporter a b la lb bcs m) = (\<lambda>l. Inr (read_back (if l \<in> {la, la @ [10]} then a else b)))"
  "x_zstd_encode (demo_exporter a b la lb bcs m) = (\<lambda>d. if d = la @ [10] then Inr [0] else if d = lb @ [10] then Inr [1] else Inl [])"
  "x_pretty_index (demo_exporter a b la lb bcs m) = (\<lambda>j. if j = \<lparr>ri_streams = [demo_index]\<rparr> then Inr [] else Inl [])"
  "x_pretty_checkpoints (demo_exporter a b la lb bcs m) = (\<lambda>c. if c = \<lparr>st_stream_id = lit ''5'', st_checkpoints = bcs\<rparr> then Inr [] else Inl [])"
  "x_pretty_roots (demo_exporter a b la lb bcs m) = (\<lambda>f. if f = \<lparr>rf_roots = [], rf_console_keys = []\<rparr> then Inr [] else Inl [])"
  "x_ulid_str (demo_exporter a b la lb bcs m) = x_ulid_str demo_ext"
  "x_now (demo_exporter a b la lb bcs m) = 5"
  by (simp_all add: demo_exporter_def)

lemma demo_exporter_laws:
  "demo_crypto (demo_exporter a b la lb bcs m)" "demo_trust (demo_exporter a b la lb bcs m)"
  "manifest_law (demo_exporter a b la lb bcs m) m"
  "la \<noteq> lb \<Longrightarrow> storage_laws (demo_exporter a b la lb bcs m)"
proof -
  show "demo_crypto (demo_exporter a b la lb bcs m)"
    using demo_run_crypto [of "[a, b]" bcs] by (simp add: demo_crypto_def demo_exporter_def)
  show "demo_trust (demo_exporter a b la lb bcs m)"
    using demo_run_trust [of "[a, b]" bcs] by (simp add: demo_trust_def demo_exporter_def)
  show "manifest_law (demo_exporter a b la lb bcs m) m" by (simp add: manifest_law_def demo_exporter_def)
  show "la \<noteq> lb \<Longrightarrow> storage_laws (demo_exporter a b la lb bcs m)"
    by (simp add: demo_exporter_def zip_writer_law_def zip_reader_law_def zstd_law_def index_law_def checkpoints_law_def roots_law_def)
qed

definition demo_book :: "Phase \<Rightarrow> RecordIndexStream list \<Rightarrow> (ustr \<times> bytes) list \<Rightarrow> BundleWriter" where
  "demo_book p ixs es = with_shard_threshold 0 (booked_writer p \<lparr>ri_streams = ixs\<rparr> es)"

lemma demo_book_simps [simp]:
  "bw_phase (demo_book p ixs es) = p" "bw_zip (demo_book p ixs es) = es" "bw_index (demo_book p ixs es) = \<lparr>ri_streams = ixs\<rparr>"
  "bw_shard_threshold (demo_book p ixs es) = 0" "bw_tool (demo_book p ixs es) = demo_tool"
  "(demo_book p ixs es)\<lparr>bw_phase := q\<rparr> = demo_book q ixs es"
  "(demo_book p ixs es)\<lparr>bw_index := \<lparr>ri_streams = jxs\<rparr>\<rparr> = demo_book p jxs es"
  "writer_manifest level f t rs (demo_book p ixs es) = writer_manifest level f t rs (booked_writer p \<lparr>ri_streams = ixs\<rparr> es)"
  by (simp_all add: demo_book_def with_shard_threshold_def booked_writer_def writer_manifest_def)

lemma demo_book_new: "with_shard_threshold 0 (writer_new [] [] demo_tool) = demo_book Records [] []"
  by (simp add: demo_book_def with_shard_threshold_def booked_writer_def writer_new_def)

lemma demo_book_entry:
  "name \<notin> fst ` set es \<Longrightarrow> write_entry (demo_exporter a b la lb bcs m) name d (demo_book p ixs es) =
     (demo_book p ixs (es @ [(name, d)]), Inr ())"
  by (simp add: write_entry_def wthen_def wbind_def write_raw_def) (simp add: demo_book_def with_shard_threshold_def
    booked_writer_def entry_of_def blake3_hex_def)

lemma demo_seq_of:
  assumes "encodable r" and "read_back r = (case x_json_parse X l of Inr v \<Rightarrow> v | Inl e \<Rightarrow> Null)" and "is_ok (x_json_parse X l)"
  shows "seq_of X sid l = Inr (r_seq r)"
  using assms read_back_view [OF assms(1)]
  by (auto simp: seq_of_def or_json_def is_ok_iff view_from_value_Inr get_def view_of_record_def)

lemma demo_export_records:
  assumes "encodable a" "encodable b" "r_seq a = 0" "r_seq b = 1" "la \<noteq> lb" "10 \<notin> set la"
  shows "add_stream_records (demo_exporter a b la lb bcs m) (lit ''5'') (map Inr [la @ [10], lb @ [10]]) (demo_book Records [] []) =
    (demo_book Records [demo_index] [(shard_path (lit ''5'') 1, [0]), (shard_path (lit ''5'') 2, [1])], Inr demo_index)"
proof -
  let ?X = "demo_exporter a b la lb bcs m"
  have n: "lb @ [10] \<noteq> la" "lb @ [10] \<noteq> la @ [10]" using assms(5,6) by auto
  have s: "seq_of ?X (lit ''5'') (la @ [10]) = Inr 0" "seq_of ?X (lit ''5'') (lb @ [10]) = Inr 1"
    using demo_seq_of [OF assms(1), of ?X "la @ [10]" "lit ''5''"] demo_seq_of [OF assms(2), of ?X "lb @ [10]" "lit ''5''"] assms n by simp_all
  show ?thesis
    unfolding add_stream_records_def
    by (simp add: wthen_def wbind_def require_phase_def less_Phase_def flush_shard_def wret_def wlift_def Let_def
      demo_book_entry demo_paths s n assms(5) [symmetric] demo_index_def)
qed

abbreviation demo_entries_records :: "(ustr \<times> bytes) list" where
  "demo_entries_records \<equiv> [(shard_path (lit ''5'') 1, [0]), (shard_path (lit ''5'') 2, [1])]"

abbreviation demo_entries_final :: "(ustr \<times> bytes) list" where
  "demo_entries_final \<equiv> demo_entries_records @ [(lit ''records/index.json'', []), (lit ''checkpoints/5.json'', []),
     (lit ''identity/certs.pem'', str_bytes (map unat demo_der)), (lit ''identity/roots.json'', [])]"

lemma demo_entry_names:
  "shard_path (lit ''5'') 1 \<noteq> lit ''records/index.json''" "shard_path (lit ''5'') 2 \<noteq> lit ''records/index.json''"
  "shard_path (lit ''5'') n \<noteq> lit ''checkpoints/5.json''" "shard_path (lit ''5'') n \<noteq> lit ''identity/certs.pem''"
  "shard_path (lit ''5'') n \<noteq> lit ''identity/roots.json''" "shard_path (lit ''5'') n \<noteq> lit ''VERIFY.md''"
  "shard_path (lit ''5'') n \<noteq> lit ''manifest.json''"
  by (simp_all add: shard_path_def lit_def)

lemma demo_checkpoint_path: "lit ''checkpoints/'' @ lit ''5'' @ lit ''.json'' = lit ''checkpoints/5.json''"
  by (simp add: lit_def)

lemmas demo_names = demo_entry_names demo_entry_names [symmetric] demo_checkpoint_path

lemma demo_export_documents:
  "wthen (add_stream_checkpoints (demo_exporter a b la lb bcs m) (lit ''5'') bcs)
     (add_identity (demo_exporter a b la lb bcs m) (map unat demo_der) None \<lparr>rf_roots = [], rf_console_keys = []\<rparr>)
     (demo_book Records [demo_index] demo_entries_records) = (demo_book Identity [demo_index] demo_entries_final, Inr ())"
proof -
  note ev = wthen_def wbind_def wlift_def wret_def or_json_def require_phase_def less_Phase_def close_records_def
    finish_records_def demo_book_entry demo_names
  have "add_stream_checkpoints (demo_exporter a b la lb bcs m) (lit ''5'') bcs (demo_book Records [demo_index] demo_entries_records) =
      (demo_book Checkpoints [demo_index] (demo_entries_records @ [(lit ''records/index.json'', []), (lit ''checkpoints/5.json'', [])]), Inr ())"
    by (simp add: add_stream_checkpoints_def ev)
  moreover have "add_identity (demo_exporter a b la lb bcs m) (map unat demo_der) None \<lparr>rf_roots = [], rf_console_keys = []\<rparr>
      (demo_book Checkpoints [demo_index] (demo_entries_records @ [(lit ''records/index.json'', []), (lit ''checkpoints/5.json'', [])])) =
      (demo_book Identity [demo_index] demo_entries_final, Inr ())"
    by (simp add: add_identity_def ev)
  ultimately show ?thesis by (simp add: wthen_def wbind_def)
qed

lemma demo_export_finish:
  obtains m h out w' where "finish (demo_exporter a b la lb bcs m) Metadata None None [] (demo_book Identity [demo_index] demo_entries_final) =
    (w', Inr (m, h, out))"
proof -
  let ?es = "demo_entries_final @ [(lit ''VERIFY.md'', str_bytes (verify_md_template demo_tool))]"
  let ?m = "writer_manifest Metadata None None [] (booked_writer Identity \<lparr>ri_streams = [demo_index]\<rparr> ?es)"
  have "length (str_bytes (map unat demo_der)) < 2 ^ 32" using length_str_bytes [of "map unat demo_der"] by (simp add: demo_der_def)
  then have "is_ok (to_jcs_bytes (manifest_json ?m))"
    using demo_md by (intro demo_manifest_safe) (simp_all add: demo_index_def MAX_SAFE_INTEGER_def)
  then obtain mb where mb: "to_jcs_bytes (manifest_json ?m) = Inr mb" by (auto simp: is_ok_iff)
  let ?X = "demo_exporter a b la lb bcs ?m"
  have e: "write_entry ?X (lit ''VERIFY.md'') (str_bytes (verify_md_template demo_tool)) (demo_book Identity [demo_index] demo_entries_final) =
      (demo_book Identity [demo_index] ?es, Inr ())"
    by (simp add: demo_book_entry demo_names)
  have "\<exists>h out w'. finish ?X Metadata None None [] (demo_book Identity [demo_index] demo_entries_final) = (w', Inr (?m, h, out))"
    using mb e by (simp add: finish_def wthen_def wbind_def wlift_def or_evidence_def jcs_hash_def write_raw_def Let_def close_records_def
      demo_names)
  with that show ?thesis by blast
qed

section \<open>Properties\<close>

text \<open>
  C7: From the recorder to the verdict. Let streams be recorded honestly: every record was appended to its chain from genesis
  with well-behaved clocks, printed as its canonical line, and covered by linked checkpoints that
  were built over consecutive runs and signed with certified keys. If these lines and checkpoints and the
  certificates go through the bundle writer, whatever its shard size, and \<open>finish\<close> succeeds, then the file
  opens, and the verifier, given the root and the extents, answers \<open>Pass\<close>.
\<close>

theorem exported_bundle_passes:
  assumes "ulid_law X" and "ed25519_law X" and "storage_laws X" and "manifest_law X m"
    and "list_all (recorded X opts cert_map) ss" and "distinct (map ex_stream_id ss)"
    and "is_ustr certs_pem" and "rf_console_keys roots = []"
    and "vo_root_pem_override opts = Some root_pem" and "vo_console_key_override opts = None"
    and "build_cert_map X (Some certs_pem) [root_pem] (now_of X opts) = (cert_map, [])"
    and "export_bundle X ss certs_pem roots level (with_shard_threshold t (writer_new bundle_id created_at tool)) =
      (w', Inr (m, h, out))"
  shows "\<exists>r. reader_open X out = Inr r \<and> rp_result (verify_bundle X r opts) = Pass"
proof -
  have ls: "list_all (\<lambda>s. list_all record_line (ex_lines s)) ss"
    using assms(5) recorded_wf unfolding list_all_iff by blast
  obtain r where o: "reader_open X out = Inr r" "br_manifest r = m" "verify_content_hashes X r = Inr []"
    "m_schema_version m = BUNDLE_SCHEMA_VERSION" "sco_stream_id ` set (bs_streams (m_scope m)) = set (map ex_stream_id ss)"
    "identity X r = Inr \<lparr>bi_certs_pem = certs_pem, bi_revocations = None, bi_roots = roots\<rparr>"
    "anchor_proofs X r = Inr anchor_proofs_default"
    and rd: "\<And>s. s \<in> set ss \<Longrightarrow> read_stream_records X r (ex_stream_id s) = (map butlast (ex_lines s), Inr (of_nat (length (ex_lines s))))"
    and cp: "\<And>s. s \<in> set ss \<Longrightarrow> stream_checkpoints X r (ex_stream_id s) =
       Inr \<lparr>st_stream_id = ex_stream_id s, st_checkpoints = ex_checkpoints s\<rparr>"
    by (rule exported_bundle_opens [OF assms(3,4) ls assms(6,7,12)]) blast
  have "\<forall>i \<in> scoped r. honest_stream X r opts cert_map i"
    using recorded_honest [OF _ rd cp] assms(5) o(2,5) by (auto simp: list_all_iff)
  then have "rp_result (verify_bundle X r opts) = Pass"
    using o(2,4) by (intro honest_run_passes [OF assms(1,2) _ o(3,6) _ _ assms(9,10) _ o(7)]) (simp_all add: assms(8,11))
  with o(1) show ?thesis by blast
qed

theorem exported_bundle_passes_witness:
  "\<exists>(X :: (ustr \<times> bytes) list eext) s m h out w' r. length (ex_lines s) = 2 \<and>
     export_bundle X [s] (map unat demo_der) \<lparr>rf_roots = [], rf_console_keys = []\<rparr> Metadata
       (with_shard_threshold 0 (writer_new [] [] demo_tool)) = (w', Inr (m, h, out)) \<and>
     reader_open X out = Inr r \<and> rp_result (verify_bundle X r demo_options) = Pass"
proof -
  obtain h a b bcs bc prev where out:
    "append_all demo_ext (chain_genesis demo_ext 5) [demo_record None, demo_record None] = Inr (h, [a, b])"
    "r_seq a = 0" "r_seq b = 1" "r_record_type a \<noteq> CoverageGap" "r_record_type b \<noteq> CoverageGap"
    and cp: "\<forall>(X :: (ustr \<times> bytes) list eext) vc. demo_crypto X \<longrightarrow> vc_public_key vc = verifying_key demo_ext demo_key \<longrightarrow>
       checkpointed X [(demo_fp, vc)] None [[a], [b]] bcs"
    by (rule demo_signed_stream)
  have wf: "list_all wf_record [demo_record None, demo_record None]" by (simp add: wf_demo_record)
  from append_all_encodable [OF out(1) wf] have pr: "encodable a" "encodable b" by simp_all
  then have "is_ok (to_jcs_bytes (record_to_json a))" "is_ok (to_jcs_bytes (record_to_json b))" by (simp_all only: canon_ok)
  then obtain la lb where l: "to_jcs_bytes (record_to_json a) = Inr la" "to_jcs_bytes (record_to_json b) = Inr lb"
    unfolding is_ok_iff by blast
  have nd: "to_ndjson_line a = Inr (la @ [10])" "to_ndjson_line b = Inr (lb @ [10])" using l by (simp_all add: to_ndjson_line_def)
  from ndjson_line_single [OF _ nd(1)] ndjson_line_single [OF _ nd(2)] pr l have n: "10 \<notin> set la" "10 \<notin> set lb" by auto
  have ne: "la \<noteq> lb"
  proof
    assume "la = lb"
    with l pr have "canon (record_to_json a) = canon (record_to_json b)"
      using to_jcs_bytes_canon [of "record_to_json a" "record_to_json b" la] by (simp add: wf_record_def)
    with pr have "read_back a = read_back b" by (auto simp: read_back_def reread_def is_ok_iff)
    with read_back_view [OF pr(1)] read_back_view [OF pr(2)] out(2,3) show False by (simp add: view_of_record_def)
  qed
  obtain m hh ot w' where f: "finish (demo_exporter a b la lb bcs m) Metadata None None [] (demo_book Identity [demo_index] demo_entries_final) =
    (w', Inr (m, hh, ot))" by (rule demo_export_finish)
  let ?X = "demo_exporter a b la lb bcs m"
  let ?s = "\<lparr>ex_stream_id = lit ''5'', ex_lines = [la @ [10], lb @ [10]], ex_checkpoints = bcs\<rparr>"
  note X = demo_exporter_laws [where a = a and b = b and la = la and lb = lb and bcs = bcs and m = m]
  have run: "export_bundle ?X [?s] (map unat demo_der) \<lparr>rf_roots = [], rf_console_keys = []\<rparr> Metadata
      (with_shard_threshold 0 (writer_new [] [] demo_tool)) = (w', Inr (m, hh, ot))"
    using demo_export_records [OF pr out(2,3) ne n(1), of bcs m] demo_export_documents [of a b la lb bcs m] f
    by (simp add: export_bundle_def demo_book_new wthen_def wbind_def wret_def split: prod.splits sum.splits)
  obtain vc where vc: "build_cert_map ?X (Some (map unat demo_der)) [demo_root] 5 = ([(demo_fp, vc)], [])"
    "vc_public_key vc = verifying_key demo_ext demo_key"
    by (rule demo_cert_map [OF X(2)]) (simp add: verifying_key_def demo_key_def)
  have ap: "append_all ?X (chain_genesis ?X 5) [demo_record None, demo_record None] = Inr (h, [a, b])"
    using out(1) by (simp only: demo_append_all [OF X(1)] demo_core [OF X(1)])
  have pb: "list_all (parses_back ?X) [a, b]" using l n ne by (auto simp: parses_back_def)
  have rec: "recorded ?X demo_options [(demo_fp, vc)] ?s"
    unfolding recorded_def
    by (rule exI [of _ 5], rule exI [of _ "[demo_record None, demo_record None]"], rule exI [of _ h], rule exI [of _ "[[a], [b]]"],
        intro conjI)
      (use ap wf demo_clocks_two [OF X(1)] out(3-5) nd pb cp [rule_format, OF X(1) vc(2)] in \<open>simp_all add: demo_texts demo_options_def\<close>)
  have u: "is_ustr (map unat demo_der)" by (simp add: demo_der_def is_char_def)
  have now: "now_of ?X demo_options = 5" by (simp add: now_of_def demo_options_def)
  from exported_bundle_passes [OF demo_crypto_laws [OF X(1)] X(4) [OF ne] X(3) _ _ u _ _ _ vc(1) [folded now] run] rec
  obtain r where "reader_open ?X ot = Inr r" "rp_result (verify_bundle ?X r demo_options) = Pass" by auto
  with run show ?thesis by (intro exI [of _ ?X] exI [of _ ?s] exI) auto
qed

end
