(* ===== verification/Projection.thy ===== *)
theory Projection
  imports Records
begin

text \<open>
  The projection of a record that may leave the customer's side (\<open>evidence/src/projection.rs\<close>):
  string sanitizing and the allowlisted record. The theorems show that the projection is the record without
  its literal-bearing members and with redacted free text, and what sanitizing guarantees about a string.
\<close>

section \<open>Sanitizing\<close>

definition MAX_PROJECTED_STRING :: nat where
  "MAX_PROJECTED_STRING = 512"

definition MAX_PROJECTED_LABELS :: nat where
  "MAX_PROJECTED_LABELS = 32"

text \<open>\<open>char::is_control\<close>: the general category Cc.\<close>

definition is_control :: "uchar \<Rightarrow> bool" where
  "is_control c \<longleftrightarrow> c < 0x20 \<or> 0x7F \<le> c \<and> c \<le> 0x9F"

abbreviation ellipsis :: uchar where
  "ellipsis \<equiv> 0x2026"

fun sanitize_from :: "nat \<Rightarrow> ustr \<Rightarrow> ustr \<Rightarrow> ustr" where
  "sanitize_from max_len out [] = out"
| "sanitize_from max_len out (c # cs) =
     (if max_len \<le> str_len out then out @ [ellipsis]
      else if is_control c then sanitize_from max_len out cs
      else sanitize_from max_len (out @ [c]) cs)"

definition sanitize :: "ustr \<Rightarrow> nat \<Rightarrow> ustr" where
  "sanitize s max_len = sanitize_from max_len [] s"

section \<open>The projected record\<close>

record ConsoleSafeRecord =
  p_schema_version :: ustr
  p_record_id :: ustr
  p_stream_id :: ustr
  p_segment_id :: ustr
  p_seq :: u64
  p_ts_wall :: ustr
  p_ts_mono_ns :: u64
  p_record_type :: RecordType
  p_recorder :: RecorderInfo
  p_subject :: Subject
  p_action :: Action
  p_payload_commitment :: "PayloadCommitment option"
  p_verdict :: "Verdict option"
  p_approval_ref :: "ApprovalRef option"
  p_links :: "Links option"
  p_prev_hash :: ustr
  p_record_hash :: ustr

definition console_safe :: "Record \<Rightarrow> ConsoleSafeRecord" where
  "console_safe r =
     (let s = (\<lambda>v. sanitize v MAX_PROJECTED_STRING) in
      \<lparr>p_schema_version = r_schema_version r, p_record_id = r_record_id r,
       p_stream_id = r_stream_id r, p_segment_id = r_segment_id r, p_seq = r_seq r,
       p_ts_wall = r_ts_wall r, p_ts_mono_ns = r_ts_mono_ns r, p_record_type = r_record_type r,
       p_recorder = \<lparr>ri_recorder_id = s (ri_recorder_id (r_recorder r)),
         ri_version = s (ri_version (r_recorder r)),
         ri_host_fingerprint = s (ri_host_fingerprint (r_recorder r)),
         ri_platform = s (ri_platform (r_recorder r))\<rparr>,
       p_subject = \<lparr>su_agent_kind = s (su_agent_kind (r_subject r)),
         su_agent_session = s (su_agent_session (r_subject r)),
         su_human_principal = map_option s (su_human_principal (r_subject r)),
         su_attribution = su_attribution (r_subject r), su_source = s (su_source (r_subject r))\<rparr>,
       p_action = \<lparr>ac_integration = s (ac_integration (r_action r)),
         ac_operation = s (ac_operation (r_action r)),
         ac_verb_class = s (ac_verb_class (r_action r)),
         ac_target_resource = s (ac_target_resource (r_action r)),
         ac_resource_labels = map s (take MAX_PROJECTED_LABELS (ac_resource_labels (r_action r)))\<rparr>,
       p_payload_commitment = r_payload_commitment r, p_verdict = r_verdict r,
       p_approval_ref = r_approval_ref r, p_links = r_links r,
       p_prev_hash = r_prev_hash r, p_record_hash = r_record_hash r\<rparr>)"

definition console_safe_json :: "ConsoleSafeRecord \<Rightarrow> json" where
  "console_safe_json p = Object
     (fld ''schema_version'' (String (p_schema_version p)) @
      fld ''record_id'' (String (p_record_id p)) @
      fld ''stream_id'' (String (p_stream_id p)) @
      fld ''segment_id'' (String (p_segment_id p)) @
      fld ''seq'' (U64 (p_seq p)) @
      fld ''ts_wall'' (String (p_ts_wall p)) @
      fld ''ts_mono_ns'' (U64 (p_ts_mono_ns p)) @
      fld ''record_type'' (String (record_type_str (p_record_type p))) @
      fld ''recorder'' (recorder_info_json (p_recorder p)) @
      fld ''subject'' (subject_json (p_subject p)) @
      fld ''action'' (action_json (p_action p)) @
      opt_fld ''payload_commitment'' (map_option payload_commitment_json (p_payload_commitment p)) @
      opt_fld ''verdict'' (map_option verdict_json (p_verdict p)) @
      opt_fld ''approval_ref'' (map_option approval_ref_json (p_approval_ref p)) @
      opt_fld ''links'' (map_option links_json (p_links p)) @
      fld ''prev_hash'' (String (p_prev_hash p)) @
      fld ''record_hash'' (String (p_record_hash p)))"

section \<open>What sanitizing does\<close>

abbreviation clean :: "ustr \<Rightarrow> ustr" where
  "clean s \<equiv> filter (\<lambda>c. \<not> is_control c) s"

lemma utf8_char_length: "1 \<le> length (utf8_char c) \<and> length (utf8_char c) \<le> 4"
  by (simp add: utf8_char_def)

lemma str_len_snoc: "str_len (s @ [c]) = str_len s + length (utf8_char c)"
  by (simp add: str_len_def str_bytes_Cons) (simp add: str_bytes_def)

lemma sanitize_from_spec:
  assumes "str_len out \<le> max_len + 3"
  shows "(sanitize_from max_len out s = out @ clean s \<and> str_len (out @ clean s) \<le> max_len + 3) \<or>
    (\<exists>t u. clean s = t @ u \<and> sanitize_from max_len out s = out @ t @ [ellipsis] \<and>
       max_len \<le> str_len (out @ t) \<and> str_len (out @ t) \<le> max_len + 3)"
  using assms
proof (induction max_len out s rule: sanitize_from.induct)
  case (2 max_len out c cs)
  show ?case
  proof (cases "max_len \<le> str_len out")
    case True
    with "2.prems" show ?thesis
      by (intro disjI2 exI [of _ "[]"] exI [of _ "clean (c # cs)"]) simp
  next
    case False
    note small = this
    show ?thesis
    proof (cases "is_control c")
      case True
      with small "2.IH"(1) "2.prems" show ?thesis by simp
    next
      case ctl: False
      have "str_len (out @ [c]) \<le> max_len + 3"
        using small utf8_char_length [of c] by (simp add: str_len_snoc)
      from "2.IH"(2) [OF small ctl this] small ctl show ?thesis
        by (auto intro: exI [of _ "c # t" for t])
    qed
  qed
qed simp

lemma sanitize_spec:
  "(sanitize s n = clean s \<and> str_len (clean s) \<le> n + 3) \<or>
   (\<exists>t u. clean s = t @ u \<and> sanitize s n = t @ [ellipsis] \<and> n \<le> str_len t \<and> str_len t \<le> n + 3)"
  using sanitize_from_spec [of "[]" n s] by (simp add: sanitize_def str_len_def str_bytes_def)

lemma sanitize_no_control: "\<not> list_ex is_control (sanitize s n)"
proof -
  have c: "list_all (\<lambda>c. \<not> is_control c) (clean s)" by (simp add: list_all_iff)
  have "list_all (\<lambda>c. \<not> is_control c) (sanitize s n)"
    using sanitize_spec [of s n]
  proof (elim disjE exE conjE)
    fix t u assume "clean s = t @ u" "sanitize s n = t @ [ellipsis]"
    with c show ?thesis by (simp add: is_control_def)
  qed (use c in simp)
  then show ?thesis by (auto simp: list_all_iff list_ex_iff)
qed

lemma sanitize_len: "str_len (sanitize s n) \<le> n + 6"
proof -
  have "length (utf8_char ellipsis) = 3" by (simp add: utf8_char_def)
  then show ?thesis using sanitize_spec [of s n] by (auto simp: str_len_snoc)
qed

lemma sanitize_from_keep:
  "\<not> list_ex is_control s \<Longrightarrow> str_len (out @ butlast s) < n \<Longrightarrow>
   sanitize_from n out (s @ rest) = sanitize_from n (out @ s) rest"
proof (induction s arbitrary: out)
  case (Cons c s)
  have "str_len out \<le> str_len (out @ butlast (c # s))" by (simp add: str_len_def)
  with Cons.prems have "str_len out < n" by linarith
  moreover have "str_len ((out @ [c]) @ butlast s) < n \<or> s = []"
    using Cons.prems(2) by (cases s) simp_all
  ultimately show ?case using Cons by (cases s) simp_all
qed simp

section \<open>What may leave\<close>

text \<open>
  A value is redacted if every text in it lost its control characters and, when more than 512 bytes remain, all but a
  prefix of between 512 and 515 bytes, marked with an ellipsis; of a list the first 32 elements are kept; the names and the order of
  members stay.
\<close>

inductive redacted :: "json \<Rightarrow> json \<Rightarrow> bool" where
  whole: "str_len (clean s) \<le> 515 \<Longrightarrow> redacted (String s) (String (clean s))"
| cut: "clean s = t @ u \<Longrightarrow> 512 \<le> str_len t \<Longrightarrow> str_len t \<le> 515 \<Longrightarrow> redacted (String s) (String (t @ [ellipsis]))"
| labels: "list_all2 redacted (take 32 vs) ws \<Longrightarrow> redacted (Array vs) (Array ws)"
| members: "map fst kvs = map fst kws \<Longrightarrow> list_all2 redacted (map snd kvs) (map snd kws) \<Longrightarrow> redacted (Object kvs) (Object kws)"

definition sensitive :: "ustr set" where
  "sensitive = lit ` {''action_detail'', ''payload_ref''}"

definition free_text :: "ustr set" where
  "free_text = lit ` {''recorder'', ''subject'', ''action''}"

definition may_leave :: "ustr \<times> json \<Rightarrow> ustr \<times> json \<Rightarrow> bool" where
  "may_leave m p \<longleftrightarrow> fst p = fst m \<and> (if fst m \<in> free_text then redacted (snd m) (snd p) else snd p = snd m)"

lemma redacted_sanitize: "redacted (String s) (String (sanitize s MAX_PROJECTED_STRING))"
  using sanitize_spec [of s MAX_PROJECTED_STRING] by (auto simp: MAX_PROJECTED_STRING_def intro: redacted.intros)

lemma redacted_attribution: "redacted (String (attribution_str a)) (String (attribution_str a))"
proof -
  have "clean (attribution_str a) = attribution_str a" "str_len (attribution_str a) \<le> 515"
    by (cases a; simp add: is_control_def lit_def str_len_def enc_simps)+
  then show ?thesis using redacted.whole [of "attribution_str a"] by simp
qed

lemma redacted_recorder: "redacted (recorder_info_json (r_recorder r)) (recorder_info_json (p_recorder (console_safe r)))"
  by (auto simp: recorder_info_json_def console_safe_def Let_def fld_def intro!: redacted.members redacted_sanitize)

lemma redacted_subject: "redacted (subject_json (r_subject r)) (subject_json (p_subject (console_safe r)))"
  by (auto simp: subject_json_def console_safe_def Let_def fld_def opt_fld_def split: option.split
    intro!: redacted.members redacted_sanitize redacted_attribution)

lemma redacted_labels: "redacted (str_list ls) (str_list (map (\<lambda>l. sanitize l MAX_PROJECTED_STRING) (take MAX_PROJECTED_LABELS ls)))"
  unfolding str_list_def
  by (rule redacted.labels) (auto simp: MAX_PROJECTED_LABELS_def take_map list.rel_map intro!: list.rel_refl redacted_sanitize)

lemma redacted_action: "redacted (action_json (r_action r)) (action_json (p_action (console_safe r)))"
  by (auto simp: action_json_def console_safe_def Let_def fld_def list_fld_def MAX_PROJECTED_LABELS_def
    intro!: redacted.members redacted_sanitize redacted_labels [unfolded MAX_PROJECTED_LABELS_def])

lemma console_safe_copies:
  "p_schema_version (console_safe r) = r_schema_version r" "p_record_id (console_safe r) = r_record_id r"
  "p_stream_id (console_safe r) = r_stream_id r" "p_segment_id (console_safe r) = r_segment_id r"
  "p_seq (console_safe r) = r_seq r" "p_ts_wall (console_safe r) = r_ts_wall r"
  "p_ts_mono_ns (console_safe r) = r_ts_mono_ns r" "p_record_type (console_safe r) = r_record_type r"
  "p_payload_commitment (console_safe r) = r_payload_commitment r" "p_verdict (console_safe r) = r_verdict r"
  "p_approval_ref (console_safe r) = r_approval_ref r" "p_links (console_safe r) = r_links r"
  "p_prev_hash (console_safe r) = r_prev_hash r" "p_record_hash (console_safe r) = r_record_hash r"
  by (simp_all add: console_safe_def Let_def)

lemma filter_sensitive:
  "filter (\<lambda>m. fst m \<notin> sensitive) (fld k v) = (if lit k \<in> sensitive then [] else fld k v)"
  "filter (\<lambda>m. fst m \<notin> sensitive) (opt_fld k x) = (if lit k \<in> sensitive then [] else opt_fld k x)"
  by (simp_all add: fld_def opt_fld_def split: option.split)

lemma leave_flds:
  "may_leave (lit k, v) (lit k, w) \<Longrightarrow> list_all2 may_leave (fld k v) (fld k w)"
  "lit k \<notin> free_text \<Longrightarrow> list_all2 may_leave (opt_fld k x) (opt_fld k x)"
  by (auto simp: fld_def opt_fld_def may_leave_def split: option.split)

section \<open>Properties\<close>

text \<open>
  C36: The projection is the record without its literal-bearing members and with its free text redacted. Compared with the
  record's own JSON, the members \<open>action_detail\<close> and \<open>payload_ref\<close> are gone and nothing is added; in
  \<open>recorder\<close>, \<open>subject\<close> and \<open>action\<close> no text has a control character or more than 515 bytes
  before its ellipsis, and at most 32 labels remain; every other member is the recorded one. The recorded hash stays in it, so the
  console holds a hash over what was left out; whatever those two members and the hash are, nothing else of the projection changes with
  them.
\<close>

theorem projection_is_redacted_record:
  "\<exists>kept. console_safe_json (console_safe r) = Object kept \<and>
     list_all2 may_leave (filter (\<lambda>m. fst m \<notin> sensitive) (record_members r)) kept \<and>
     console_safe (r\<lparr>r_action_detail := d, r_payload_ref := p, r_record_hash := h\<rparr>) = (console_safe r)\<lparr>p_record_hash := h\<rparr>"
proof -
  have "list_all2 may_leave (filter (\<lambda>m. fst m \<notin> sensitive) (record_members r))
      (the (as_object (console_safe_json (console_safe r))))"
    unfolding record_members_def console_safe_json_def filter_append filter_sensitive as_object.simps option.sel
      console_safe_copies
    unfolding sensitive_def
    by (simp, intro list_all2_appendI leave_flds)
      (simp_all add: may_leave_def free_text_def redacted_recorder redacted_subject redacted_action)
  moreover have "console_safe (r\<lparr>r_action_detail := d, r_payload_ref := p, r_record_hash := h\<rparr>) = (console_safe r)\<lparr>p_record_hash := h\<rparr>"
    by (simp add: console_safe_def Let_def)
  ultimately show ?thesis by (simp add: console_safe_json_def)
qed

text \<open>
  A sanitized string holds no control character. It is either all other characters of the
  original, in order, or a prefix of them followed by an ellipsis; its UTF-8 text never exceeds
  the limit by more than six bytes.
\<close>

theorem sanitize_correct:
  "\<not> list_ex is_control (sanitize s n) \<and> str_len (sanitize s n) \<le> n + 6 \<and>
   (sanitize s n = clean s \<or>
    (\<exists>t u. clean s = t @ u \<and> sanitize s n = t @ [ellipsis] \<and> n \<le> str_len t))"
  using sanitize_no_control sanitize_len sanitize_spec [of s n] by blast

text \<open>
  The limit is not a limit on the result. There is a recorded string whose projection is six
  bytes longer than the maximum length of a projected string.
\<close>

theorem projected_string_exceeds_limit:
  "str_len (sanitize (replicate 511 97 @ [0x1F600, 97]) MAX_PROJECTED_STRING) = 518"
proof -
  have len: "str_len (replicate k 97) = k" for k
    by (induction k) (simp_all add: str_len_def str_bytes_Cons, simp_all add: str_bytes_def utf8_char_def)
  have "sanitize_from 512 [] ((replicate 511 97 @ [0x1F600]) @ [97]) =
      sanitize_from 512 ([] @ replicate 511 97 @ [0x1F600]) [97]"
    by (rule sanitize_from_keep) (simp_all add: list_ex_iff is_control_def butlast_append len)
  also have "\<dots> = replicate 511 97 @ [0x1F600, ellipsis]"
    using str_len_snoc [of "replicate 511 97" "0x1F600"] len [of 511] by (simp add: utf8_char_def)
  finally show ?thesis
    using str_len_snoc [of "replicate 511 97 @ [0x1F600]" ellipsis]
      str_len_snoc [of "replicate 511 97" "0x1F600"] len [of 511]
    by (simp add: sanitize_def MAX_PROJECTED_STRING_def utf8_char_def)
qed

text \<open>
  A string that was not shortened can still get an ellipsis: if its characters fill the
  limit exactly and only a control character follows, nothing but the control character is
  dropped and the ellipsis is appended all the same.
\<close>

theorem sanitize_spurious_ellipsis:
  assumes "\<not> list_ex is_control s" and "str_len (butlast s) < n" and "n \<le> str_len s"
    and "is_control c"
  shows "sanitize (s @ [c]) n = clean (s @ [c]) @ [ellipsis]"
proof -
  have "sanitize (s @ [c]) n = s @ [ellipsis]"
    using sanitize_from_keep [of s "[]" n "[c]"] assms(1-3) by (simp add: sanitize_def)
  moreover have "clean (s @ [c]) = s" using assms(1,4) by (induction s) simp_all
  ultimately show ?thesis by simp
qed

theorem sanitize_spurious_ellipsis_witness:
  "sanitize (lit ''ab'' @ [10]) 2 = lit ''ab'' @ [ellipsis]"
proof -
  have "sanitize (lit ''ab'' @ [10]) 2 = clean (lit ''ab'' @ [10]) @ [ellipsis]"
    by (rule sanitize_spurious_ellipsis) (simp_all add: is_control_def enc_simps str_len_def)
  then show ?thesis by (simp add: is_control_def lit_def)
qed

text \<open>
  Not every projected string is sanitized: the identifiers, the wall-clock text, the verdict
  with its rule and reason texts, the approval reference, the links and the hashes are copied as
  they were recorded, control characters included.
\<close>

theorem projection_copies_unsanitized:
  "p_record_id (console_safe r) = r_record_id r \<and> p_ts_wall (console_safe r) = r_ts_wall r \<and>
   p_verdict (console_safe r) = r_verdict r \<and> p_approval_ref (console_safe r) = r_approval_ref r \<and>
   p_links (console_safe r) = r_links r \<and>
   p_payload_commitment (console_safe r) = r_payload_commitment r"
  by (simp add: console_safe_def Let_def)

text \<open>
  The recorder, subject and action of a projection hold sanitized text only, and at most 32
  resource labels are projected.
\<close>

theorem projection_sanitizes:
  assumes "s \<in> set ([ri_recorder_id (p_recorder p), ri_version (p_recorder p),
      ri_host_fingerprint (p_recorder p), ri_platform (p_recorder p),
      su_agent_kind (p_subject p), su_agent_session (p_subject p), su_source (p_subject p),
      ac_integration (p_action p), ac_operation (p_action p), ac_verb_class (p_action p),
      ac_target_resource (p_action p)] @ ac_resource_labels (p_action p) @
      (case su_human_principal (p_subject p) of None \<Rightarrow> [] | Some h \<Rightarrow> [h]))"
    and "p = console_safe r"
  shows "\<not> list_ex is_control s \<and> str_len s \<le> MAX_PROJECTED_STRING + 6 \<and>
    length (ac_resource_labels (p_action p)) \<le> MAX_PROJECTED_LABELS"
proof -
  from assms have "\<exists>t. s = sanitize t MAX_PROJECTED_STRING"
    by (auto simp: console_safe_def Let_def split: option.splits)
  with assms(2) sanitize_no_control sanitize_len show ?thesis
    by (auto simp: console_safe_def Let_def)
qed

theorem projection_sanitizes_witness:
  "\<not> list_ex is_control (ri_version (p_recorder (console_safe (demo_record None))))"
  using projection_sanitizes [of "ri_version (p_recorder (console_safe (demo_record None)))"
    "console_safe (demo_record None)"] by simp

end
