(* ===== verification/Issuing.thy ===== *)
theory Issuing
  imports Certs
begin

text \<open>
  Issuing identity certificates (\<open>evidence/src/certs.rs\<close>): self-signed and intermediate CAs,
  signing requests, and recorder certificates. Encoding and signing are done by the \<open>rcgen\<close> crate,
  dates by the \<open>time\<close> crate: \<open>iext\<close> has what is called of them. The clock is read once per call and is
  an argument here. The arithmetic on dates panics when it leaves the range of the \<open>time\<close> crate; a
  function that may do so returns \<open>None\<close> in that case.
\<close>

section \<open>Data\<close>

datatype DnType = CommonName | OrganizationName

datatype ca_constraint = Unconstrained | Constrained byte

datatype IsCa = NoCa | ExplicitNoCa | Ca ca_constraint

datatype KeyUsagePurpose = DigitalSignature | KeyCertSign | CrlSign

text \<open>The parameters the program sets; \<open>pa_other\<close> stands for those it leaves as they are.\<close>

record CertificateParams =
  pa_distinguished_name :: "(DnType \<times> ustr) list"
  pa_is_ca :: IsCa
  pa_key_usages :: "KeyUsagePurpose list"
  pa_not_before :: int
  pa_not_after :: int
  pa_other :: bytes

record KeyPair =
  kp_secret :: bytes

record IssuedCert =
  ic_params :: CertificateParams
  ic_der :: bytes

record CsrParams =
  cs_params :: CertificateParams
  cs_public_key :: bytes

record iext = cext +
  x_default_params :: CertificateParams
  x_dn_push :: "(DnType \<times> ustr) list \<Rightarrow> DnType \<Rightarrow> ustr \<Rightarrow> (DnType \<times> ustr) list"
  x_keypair :: "ustr \<Rightarrow> ustr + KeyPair"
  x_self_signed :: "CertificateParams \<Rightarrow> KeyPair \<Rightarrow> ustr + IssuedCert"
  x_signed_by :: "CertificateParams \<Rightarrow> KeyPair \<Rightarrow> IssuedCert \<Rightarrow> KeyPair \<Rightarrow> ustr + IssuedCert"
  x_cert_pem :: "bytes \<Rightarrow> ustr"
  x_from_ca_cert_pem :: "ustr \<Rightarrow> ustr + CertificateParams"
  x_serialize_request :: "CertificateParams \<Rightarrow> KeyPair \<Rightarrow> ustr + bytes"
  x_csr_pem :: "bytes \<Rightarrow> ustr + ustr"
  x_csr_from_pem :: "ustr \<Rightarrow> ustr + CsrParams"
  x_csr_signed_by :: "CsrParams \<Rightarrow> IssuedCert \<Rightarrow> KeyPair \<Rightarrow> ustr + IssuedCert"
  x_days :: "int \<Rightarrow> int option"
  x_date_add :: "int \<Rightarrow> int \<Rightarrow> int option"

section \<open>Operations\<close>

definition ROOT_VALIDITY_DAYS :: int where
  "ROOT_VALIDITY_DAYS = 3650"

definition TENANT_CA_VALIDITY_DAYS :: int where
  "TENANT_CA_VALIDITY_DAYS = 730"

definition RECORDER_CERT_VALIDITY_DAYS :: int where
  "RECORDER_CERT_VALIDITY_DAYS = 90"

text \<open>\<open>map_err\<close> with a prefix, and \<open>?\<close> in a function that may panic.\<close>

definition cert_err :: "string \<Rightarrow> ustr + 'a \<Rightarrow> 'a result" where
  "cert_err what r = (case r of Inl e \<Rightarrow> Inl (Certificate [T what, T '': '', S e]) | Inr v \<Rightarrow> Inr v)"

definition rthen :: "'a result \<Rightarrow> ('a \<Rightarrow> 'b result option) \<Rightarrow> 'b result option" where
  "rthen r f = (case r of Inl e \<Rightarrow> Some (Inl e) | Inr v \<Rightarrow> f v)"

definition rcgen_keypair :: "'x iext_scheme \<Rightarrow> SigningKey \<Rightarrow> KeyPair result" where
  "rcgen_keypair X key =
     rbind (to_pkcs8_pem X key) (\<lambda>pem. cert_err ''rcgen keypair'' (x_keypair X pem))"

text \<open>Instants and durations are in nanoseconds.\<close>

definition second :: int where
  "second = 1000000000"

definition validity :: "'x iext_scheme \<Rightarrow> int \<Rightarrow> int \<Rightarrow> (int \<times> int) option" where
  "validity X now days =
     Option.bind (x_date_add X now (- (5 * 60 * second))) (\<lambda>nb.
     Option.bind (x_days X days) (\<lambda>d.
     Option.bind (x_date_add X now d) (\<lambda>na. Some (nb, na))))"

definition set_validity :: "int \<times> int \<Rightarrow> CertificateParams \<Rightarrow> CertificateParams" where
  "set_validity v p = p\<lparr>pa_not_before := fst v, pa_not_after := snd v\<rparr>"

definition ca_params :: "'x iext_scheme \<Rightarrow> ustr \<Rightarrow> ca_constraint \<Rightarrow> CertificateParams" where
  "ca_params X cn constraint =
     (let p = x_default_params X;
          dn = x_dn_push X (pa_distinguished_name p) CommonName cn;
          dn = x_dn_push X dn OrganizationName (lit ''Sealr'')
      in p\<lparr>pa_distinguished_name := dn, pa_is_ca := Ca constraint, pa_key_usages := [KeyCertSign, CrlSign]\<rparr>)"

definition generate_self_signed_ca ::
  "'x iext_scheme \<Rightarrow> int \<Rightarrow> SigningKey \<Rightarrow> ustr \<Rightarrow> int \<Rightarrow> ustr result option" where
  "generate_self_signed_ca X now key cn days =
     rthen (rcgen_keypair X key) (\<lambda>kp.
     Option.bind (validity X now days) (\<lambda>v.
     Some (rbind (cert_err ''self-sign'' (x_self_signed X (set_validity v (ca_params X cn Unconstrained)) kp)) (\<lambda>cert.
       Inr (x_cert_pem X (ic_der cert))))))"

definition issue_intermediate_ca ::
  "'x iext_scheme \<Rightarrow> int \<Rightarrow> SigningKey \<Rightarrow> ustr \<Rightarrow> int \<Rightarrow> SigningKey \<Rightarrow> ustr \<Rightarrow> ustr result option" where
  "issue_intermediate_ca X now subject_key cn days parent_key parent_cert_pem =
     rthen (rcgen_keypair X subject_key) (\<lambda>subject_kp.
     rthen (rcgen_keypair X parent_key) (\<lambda>parent_kp.
     rthen (cert_err ''parse parent CA'' (x_from_ca_cert_pem X parent_cert_pem)) (\<lambda>parent_params.
     rthen (cert_err ''rebuild parent CA'' (x_self_signed X parent_params parent_kp)) (\<lambda>parent_cert.
     Option.bind (validity X now days) (\<lambda>v.
     Some (rbind (cert_err ''issue intermediate''
         (x_signed_by X (set_validity v (ca_params X cn (Constrained 0))) subject_kp parent_cert parent_kp)) (\<lambda>cert.
       Inr (x_cert_pem X (ic_der cert)))))))))"

definition generate_csr :: "'x iext_scheme \<Rightarrow> SigningKey \<Rightarrow> ustr \<Rightarrow> ustr result" where
  "generate_csr X key cn =
     rbind (rcgen_keypair X key) (\<lambda>kp.
     let p = x_default_params X;
         p = p\<lparr>pa_distinguished_name := x_dn_push X (pa_distinguished_name p) CommonName cn\<rparr>
     in rbind (cert_err ''serialize CSR'' (x_serialize_request X p kp)) (\<lambda>csr.
        cert_err ''CSR pem'' (x_csr_pem X csr)))"

definition recorder_params :: "int \<times> int \<Rightarrow> CertificateParams \<Rightarrow> CertificateParams" where
  "recorder_params v p = (set_validity v p)\<lparr>pa_is_ca := ExplicitNoCa, pa_key_usages := [DigitalSignature]\<rparr>"

definition sign_csr ::
  "'x iext_scheme \<Rightarrow> int \<Rightarrow> ustr \<Rightarrow> SigningKey \<Rightarrow> ustr \<Rightarrow> int \<Rightarrow> ustr result option" where
  "sign_csr X now csr_pem ca_key ca_cert_pem days =
     rthen (rcgen_keypair X ca_key) (\<lambda>ca_kp.
     rthen (cert_err ''parse CA cert'' (x_from_ca_cert_pem X ca_cert_pem)) (\<lambda>params.
     rthen (cert_err ''rebuild CA cert'' (x_self_signed X params ca_kp)) (\<lambda>ca_cert.
     rthen (cert_err ''parse CSR'' (x_csr_from_pem X csr_pem)) (\<lambda>csr.
     Option.bind (validity X now days) (\<lambda>v.
     Some (rbind (cert_err ''sign CSR''
         (x_csr_signed_by X (csr\<lparr>cs_params := recorder_params v (cs_params csr)\<rparr>) ca_cert ca_kp)) (\<lambda>cert.
       Inr (x_cert_pem X (ic_der cert)))))))))"

section \<open>What the libraries promise\<close>

text \<open>
  A certificate made from parameters, the subject's public key, an issuer name and a signing key:
  read back, it has these parts, to the second; its signature verifies under any certificate for
  the public key of the signer.
\<close>

definition encodes ::
  "'x iext_scheme \<Rightarrow> ((DnType \<times> ustr) list \<Rightarrow> bytes) \<Rightarrow> CertificateParams \<Rightarrow> bytes \<Rightarrow> bytes \<Rightarrow> KeyPair \<Rightarrow> bytes \<Rightarrow> bool" where
  "encodes X name p public issuer signer der \<longleftrightarrow> (\<exists>c. x_x509_parse X der = Inr c \<and>
     c_subject c = name (pa_distinguished_name p) \<and> c_issuer c = issuer \<and>
     (\<forall>cn. map_of (pa_distinguished_name p) CommonName = Some cn \<longrightarrow> c_common_names c = [Some cn]) \<and>
     (is_ca c \<longleftrightarrow> (\<exists>k. pa_is_ca p = Ca k)) \<and> c_subject_public_key c = public \<and>
     c_not_before c = pa_not_before p div second \<and> c_not_after c = pa_not_after p div second \<and>
     (\<forall>c'. c_subject_public_key c' = x_ed_public X (kp_secret signer) \<longrightarrow> x_verify_cert X c c' = Inr ()))"

definition rcgen_law :: "'x iext_scheme \<Rightarrow> ((DnType \<times> ustr) list \<Rightarrow> bytes) \<Rightarrow> bool" where
  "rcgen_law X name \<longleftrightarrow>
     (\<forall>p kp cert. x_self_signed X p kp = Inr cert \<longrightarrow> ic_params cert = p \<and>
        encodes X name p (x_ed_public X (kp_secret kp)) (name (pa_distinguished_name p)) kp (ic_der cert)) \<and>
     (\<forall>p kp issuer ikp cert. x_signed_by X p kp issuer ikp = Inr cert \<longrightarrow>
        encodes X name p (x_ed_public X (kp_secret kp)) (name (pa_distinguished_name (ic_params issuer))) ikp (ic_der cert)) \<and>
     (\<forall>csr issuer ikp cert. x_csr_signed_by X csr issuer ikp = Inr cert \<longrightarrow>
        encodes X name (cs_params csr) (cs_public_key csr) (name (pa_distinguished_name (ic_params issuer))) ikp (ic_der cert))"

text \<open>A name is encoded with its common name; \<open>push\<close> sets an attribute and leaves the others.\<close>

definition name_law :: "'x iext_scheme \<Rightarrow> ((DnType \<times> ustr) list \<Rightarrow> bytes) \<Rightarrow> bool" where
  "name_law X name \<longleftrightarrow> (\<forall>dn ty s. map_of (x_dn_push X dn ty s) = (map_of dn)(ty \<mapsto> s)) \<and>
     (\<forall>d e. name d = name e \<longrightarrow> map_of d CommonName = map_of e CommonName)"

text \<open>What is exported is imported: keys, certificates as PEM, CA certificates as parameters, requests.\<close>

definition pem_law :: "'x iext_scheme \<Rightarrow> ((DnType \<times> ustr) list \<Rightarrow> bytes) \<Rightarrow> bool" where
  "pem_law X name \<longleftrightarrow>
     (\<forall>sk pem kp. x_pkcs8_encode X sk = Inr pem \<longrightarrow> x_keypair X pem = Inr kp \<longrightarrow> kp_secret kp = sk) \<and>
     (\<forall>der. x_pem_items X (str_bytes (x_cert_pem X der)) = [Inr (lit ''CERTIFICATE'', der)]) \<and>
     (\<forall>der c p. x_x509_parse X der = Inr c \<longrightarrow> x_from_ca_cert_pem X (x_cert_pem X der) = Inr p \<longrightarrow>
        name (pa_distinguished_name p) = c_subject c) \<and>
     (\<forall>p kp csr pem q. x_serialize_request X p kp = Inr csr \<longrightarrow> x_csr_pem X csr = Inr pem \<longrightarrow> x_csr_from_pem X pem = Inr q \<longrightarrow>
        pa_distinguished_name (cs_params q) = pa_distinguished_name p \<and> cs_public_key q = x_ed_public X (kp_secret kp))"

text \<open>A validity period includes its ends; the dates of the \<open>time\<close> crate add up, unless they overflow.\<close>

definition date_law :: "'x iext_scheme \<Rightarrow> bool" where
  "date_law X \<longleftrightarrow> (\<forall>c t. x_valid_at X c t \<longleftrightarrow> c_not_before c \<le> t \<and> t \<le> c_not_after c) \<and> (\<forall>t u. x_asn1_time X t = Inr u \<longrightarrow> u = t) \<and>
     (\<forall>d n. x_days X d = Some n \<longrightarrow> n = d * 86400 * second) \<and> (\<forall>t d u. x_date_add X t d = Some u \<longrightarrow> u = t + d)"

abbreviation issuing_laws :: "'x iext_scheme \<Rightarrow> ((DnType \<times> ustr) list \<Rightarrow> bytes) \<Rightarrow> bool" where
  "issuing_laws X name \<equiv> rcgen_law X name \<and> name_law X name \<and> pem_law X name \<and> date_law X"

section \<open>What is issued\<close>

lemma rthen_Inr: "rthen r f = Some (Inr y) \<longleftrightarrow> (\<exists>x. r = Inr x \<and> f x = Some (Inr y))"
  by (cases r) (simp_all add: rthen_def)

lemma cert_err_Inr: "cert_err what r = Inr v \<longleftrightarrow> r = Inr v"
  by (cases r) (simp_all add: cert_err_def)

lemmas issue_Inr = rthen_Inr cert_err_Inr rbind_eq_Inr Option.bind_eq_Some_conv

lemma rcgen_keypair_Inr: "pem_law X name \<Longrightarrow> rcgen_keypair X key = Inr kp \<Longrightarrow> kp_secret kp = sk_inner key"
  by (auto simp: rcgen_keypair_def issue_Inr to_pkcs8_pem_def pem_law_def split: sum.splits)

definition in_window :: "int \<Rightarrow> int \<Rightarrow> int \<Rightarrow> bool" where
  "in_window now days t \<longleftrightarrow> (now - 5 * 60 * second) div second \<le> t \<and> t \<le> (now + days * 86400 * second) div second"

lemma validity_Some:
  "date_law X \<Longrightarrow> validity X now days = Some v \<Longrightarrow> v = (now - 5 * 60 * second, now + days * 86400 * second)"
proof -
  assume "date_law X"
  then have d: "x_days X d = Some n \<Longrightarrow> n = d * 86400 * second" "x_date_add X t k = Some u \<Longrightarrow> u = t + k" for d n t k u
    by (auto simp: date_law_def)
  assume "validity X now days = Some v"
  then show ?thesis by (auto simp: validity_def Option.bind_eq_Some_conv dest!: d)
qed

text \<open>
  \<open>issued X now days cn key ca c\<close>: the certificate \<open>c\<close> was issued at \<open>now\<close> for \<open>days\<close> to the holder of \<open>key\<close>
  under the common name \<open>cn\<close>, as a CA or not.
\<close>

definition issued :: "'x iext_scheme \<Rightarrow> int \<Rightarrow> int \<Rightarrow> ustr \<Rightarrow> SigningKey \<Rightarrow> bool \<Rightarrow> x509 \<Rightarrow> bool" where
  "issued X now days cn key ca c \<longleftrightarrow> (\<forall>t. x_valid_at X c t \<longleftrightarrow> in_window now days t) \<and> c_common_names c = [Some cn] \<and>
     c_subject_public_key c = x_ed_public X (sk_inner key) \<and> (is_ca c \<longleftrightarrow> ca)"

lemma encodes_issued:
  assumes laws: "issuing_laws X name" and v: "validity X now days = Some v"
    and e: "encodes X name p (x_ed_public X (sk_inner key)) issuer signer der"
    and p: "pa_not_before p = fst v" "pa_not_after p = snd v" "map_of (pa_distinguished_name p) CommonName = Some cn"
  obtains c where "x_x509_parse X der = Inr c" "issued X now days cn key (\<exists>k. pa_is_ca p = Ca k) c"
    "c_subject c = name (pa_distinguished_name p)" "c_issuer c = issuer"
    "\<forall>c'. c_subject_public_key c' = x_ed_public X (kp_secret signer) \<longrightarrow> x_verify_cert X c c' = Inr ()"
proof -
  from e obtain c where c: "x_x509_parse X der = Inr c" "c_subject c = name (pa_distinguished_name p)" "c_issuer c = issuer"
    "c_common_names c = [Some cn]" "is_ca c \<longleftrightarrow> (\<exists>k. pa_is_ca p = Ca k)" "c_subject_public_key c = x_ed_public X (sk_inner key)"
    "c_not_before c = pa_not_before p div second" "c_not_after c = pa_not_after p div second"
    "\<forall>c'. c_subject_public_key c' = x_ed_public X (kp_secret signer) \<longrightarrow> x_verify_cert X c c' = Inr ()"
    using p(3) unfolding encodes_def by blast
  have "issued X now days cn key (\<exists>k. pa_is_ca p = Ca k) c"
    unfolding issued_def in_window_def using laws c(4-8) p(1,2) validity_Some [OF _ v] by (simp add: date_law_def)
  with c(1-3,9) show ?thesis by (intro that) simp_all
qed

lemma ca_params_name:
  "name_law X name \<Longrightarrow> map_of (pa_distinguished_name (ca_params X cn k)) CommonName = Some cn"
  by (simp add: ca_params_def name_law_def Let_def)

lemma self_signed_ca:
  assumes laws: "issuing_laws X name" and g: "generate_self_signed_ca X now key cn days = Some (Inr pem)"
  obtains der c dn where "pem = x_cert_pem X der" "x_x509_parse X der = Inr c" "issued X now days cn key True c"
    "c_subject c = name dn" "map_of dn CommonName = Some cn"
proof -
  from g obtain kp v cert where k: "rcgen_keypair X key = Inr kp" and v: "validity X now days = Some v"
    and s: "x_self_signed X (set_validity v (ca_params X cn Unconstrained)) kp = Inr cert" and pem: "pem = x_cert_pem X (ic_der cert)"
    by (auto simp: generate_self_signed_ca_def issue_Inr)
  let ?p = "set_validity v (ca_params X cn Unconstrained)"
  have e: "encodes X name ?p (x_ed_public X (sk_inner key)) (name (pa_distinguished_name ?p)) kp (ic_der cert)"
    using laws s rcgen_keypair_Inr [OF _ k] unfolding rcgen_law_def by metis
  have m: "map_of (pa_distinguished_name ?p) CommonName = Some cn" using laws ca_params_name [of X name cn] by (simp add: set_validity_def)
  have a: "(\<exists>k. pa_is_ca ?p = Ca k) = True" by (simp add: set_validity_def ca_params_def Let_def)
  obtain c where "x_x509_parse X (ic_der cert) = Inr c" "issued X now days cn key (\<exists>k. pa_is_ca ?p = Ca k) c"
    "c_subject c = name (pa_distinguished_name ?p)" "c_issuer c = name (pa_distinguished_name ?p)"
    "\<forall>c'. c_subject_public_key c' = x_ed_public X (kp_secret kp) \<longrightarrow> x_verify_cert X c c' = Inr ()"
    by (rule encodes_issued [OF laws v e _ _ m]) (simp_all add: set_validity_def)
  with m show ?thesis unfolding a by (intro that [OF pem]) (simp_all add: set_validity_def)
qed

lemma rebuilt_ca:
  assumes laws: "issuing_laws X name" and c: "x_x509_parse X der = Inr c"
    and r: "x_from_ca_cert_pem X (x_cert_pem X der) = Inr p" "x_self_signed X p kp = Inr cert"
  shows "name (pa_distinguished_name (ic_params cert)) = c_subject c"
  using laws c r unfolding rcgen_law_def pem_law_def by metis

lemma intermediate_ca:
  assumes laws: "issuing_laws X name" and parent: "x_x509_parse X pder = Inr pc"
    and g: "issue_intermediate_ca X now key cn days parent_key (x_cert_pem X pder) = Some (Inr pem)"
  obtains der c dn where "pem = x_cert_pem X der" "x_x509_parse X der = Inr c" "issued X now days cn key True c"
    "c_subject c = name dn" "map_of dn CommonName = Some cn" "c_issuer c = c_subject pc"
    "\<forall>c'. c_subject_public_key c' = x_ed_public X (sk_inner parent_key) \<longrightarrow> x_verify_cert X c c' = Inr ()"
proof -
  from g obtain kp pkp pp pcert v cert where k: "rcgen_keypair X key = Inr kp" "rcgen_keypair X parent_key = Inr pkp"
    and r: "x_from_ca_cert_pem X (x_cert_pem X pder) = Inr pp" "x_self_signed X pp pkp = Inr pcert"
    and v: "validity X now days = Some v"
    and s: "x_signed_by X (set_validity v (ca_params X cn (Constrained 0))) kp pcert pkp = Inr cert"
    and pem: "pem = x_cert_pem X (ic_der cert)"
    by (auto simp: issue_intermediate_ca_def issue_Inr)
  let ?p = "set_validity v (ca_params X cn (Constrained 0))"
  have keys: "kp_secret kp = sk_inner key" "kp_secret pkp = sk_inner parent_key"
    using laws k by (auto intro: rcgen_keypair_Inr)
  have e: "encodes X name ?p (x_ed_public X (sk_inner key)) (c_subject pc) pkp (ic_der cert)"
    using laws s unfolding rcgen_law_def keys(1) [symmetric] rebuilt_ca [OF laws parent r, symmetric] by blast
  have m: "map_of (pa_distinguished_name ?p) CommonName = Some cn" using laws ca_params_name [of X name cn] by (simp add: set_validity_def)
  have a: "(\<exists>k. pa_is_ca ?p = Ca k) = True" by (simp add: set_validity_def ca_params_def Let_def)
  obtain c where "x_x509_parse X (ic_der cert) = Inr c" "issued X now days cn key (\<exists>k. pa_is_ca ?p = Ca k) c"
    "c_subject c = name (pa_distinguished_name ?p)" "c_issuer c = c_subject pc"
    "\<forall>c'. c_subject_public_key c' = x_ed_public X (kp_secret pkp) \<longrightarrow> x_verify_cert X c c' = Inr ()"
    by (rule encodes_issued [OF laws v e _ _ m]) (simp_all add: set_validity_def)
  with m show ?thesis unfolding a by (intro that [OF pem]) (simp_all add: keys)
qed

lemma recorder_cert:
  assumes laws: "issuing_laws X name" and ca: "x_x509_parse X cder = Inr cc"
    and q: "generate_csr X key cn = Inr csr_pem"
    and g: "sign_csr X now csr_pem ca_key (x_cert_pem X cder) days = Some (Inr pem)"
  obtains der c where "pem = x_cert_pem X der" "x_x509_parse X der = Inr c" "issued X now days cn key False c"
    "c_issuer c = c_subject cc"
    "\<forall>c'. c_subject_public_key c' = x_ed_public X (sk_inner ca_key) \<longrightarrow> x_verify_cert X c c' = Inr ()"
proof -
  let ?d = "x_default_params X"
  let ?q = "?d\<lparr>pa_distinguished_name := x_dn_push X (pa_distinguished_name ?d) CommonName cn\<rparr>"
  from q obtain kp csr where k: "rcgen_keypair X key = Inr kp" and r: "x_serialize_request X ?q kp = Inr csr" "x_csr_pem X csr = Inr csr_pem"
    by (auto simp: generate_csr_def issue_Inr Let_def)
  from g obtain ckp pp ccert rq v cert where ck: "rcgen_keypair X ca_key = Inr ckp"
    and rb: "x_from_ca_cert_pem X (x_cert_pem X cder) = Inr pp" "x_self_signed X pp ckp = Inr ccert"
    and rq: "x_csr_from_pem X csr_pem = Inr rq" and v: "validity X now days = Some v"
    and s: "x_csr_signed_by X (rq\<lparr>cs_params := recorder_params v (cs_params rq)\<rparr>) ccert ckp = Inr cert"
    and pem: "pem = x_cert_pem X (ic_der cert)"
    by (auto simp: sign_csr_def issue_Inr)
  let ?p = "recorder_params v (cs_params rq)"
  have keys: "kp_secret kp = sk_inner key" "kp_secret ckp = sk_inner ca_key"
    using laws k ck by (auto intro: rcgen_keypair_Inr)
  have rqs: "pa_distinguished_name (cs_params rq) = pa_distinguished_name ?q" "cs_public_key rq = x_ed_public X (sk_inner key)"
    using laws r rq keys(1) unfolding pem_law_def by metis+
  have e: "encodes X name ?p (x_ed_public X (sk_inner key)) (c_subject cc) ckp (ic_der cert)"
    using laws s rqs(2) unfolding rcgen_law_def rebuilt_ca [OF laws ca rb, symmetric] by fastforce
  have m: "map_of (pa_distinguished_name ?p) CommonName = Some cn"
    using laws rqs(1) by (simp add: recorder_params_def set_validity_def name_law_def)
  have a: "(\<exists>k. pa_is_ca ?p = Ca k) = False" by (simp add: recorder_params_def)
  obtain c where "x_x509_parse X (ic_der cert) = Inr c" "issued X now days cn key (\<exists>k. pa_is_ca ?p = Ca k) c"
    "c_subject c = name (pa_distinguished_name ?p)" "c_issuer c = c_subject cc"
    "\<forall>c'. c_subject_public_key c' = x_ed_public X (kp_secret ckp) \<longrightarrow> x_verify_cert X c c' = Inr ()"
    by (rule encodes_issued [OF laws v e _ _ m]) (simp_all add: recorder_params_def set_validity_def)
  with m show ?thesis unfolding a by (intro that [OF pem]) (simp_all add: keys)
qed

lemma parse_cert_pem: "pem_law X name \<Longrightarrow> parse_pem_chain X (x_cert_pem X der) = Inr [der]"
  by (simp add: parse_pem_chain_def pem_law_def)

section \<open>A concrete issuer\<close>

text \<open>
  A certificate is the list of its parts, each a list of numbers: numbers in unary, parts ended by
  zero. The signature is the public key of the signer.
\<close>

definition unary :: "nat list \<Rightarrow> bytes" where
  "unary ns = concat (map (\<lambda>n. replicate n 1 @ [0]) ns)"

fun read_unary :: "nat \<Rightarrow> bytes \<Rightarrow> nat list" where
  "read_unary k [] = []"
| "read_unary k (b # bs) = (if b = 0 then k # read_unary 0 bs else read_unary (Suc k) bs)"

definition pack :: "nat list list \<Rightarrow> bytes" where
  "pack parts = unary (concat (map (\<lambda>ns. map Suc ns @ [0]) parts))"

fun read_parts :: "nat list \<Rightarrow> nat list \<Rightarrow> nat list list" where
  "read_parts acc [] = []"
| "read_parts acc (0 # ns) = acc # read_parts [] ns"
| "read_parts acc (Suc n # ns) = read_parts (acc @ [n]) ns"

definition unpack :: "bytes \<Rightarrow> nat list list" where
  "unpack der = read_parts [] (read_unary 0 der)"

lemma read_unary_unary: "read_unary 0 (unary ns) = ns"
proof -
  have 1: "read_unary k (replicate n 1 @ 0 # bs) = (k + n) # read_unary 0 bs" for k n bs
    by (induction n arbitrary: k) auto
  show ?thesis by (induction ns) (simp_all add: unary_def 1)
qed

lemma unpack_pack [simp]: "unpack (pack parts) = parts"
proof -
  have 1: "read_parts acc (map Suc ns @ 0 # r) = (acc @ ns) # read_parts [] r" for acc ns r
    by (induction ns arbitrary: acc) auto
  have "read_parts [] (concat (map (\<lambda>ns. map Suc ns @ [0]) parts)) = parts"
    by (induction parts) (simp_all add: 1)
  then show ?thesis by (simp add: unpack_def pack_def read_unary_unary)
qed

definition cn_part :: "(DnType \<times> ustr) list \<Rightarrow> nat list" where
  "cn_part dn = (case map_of dn CommonName of None \<Rightarrow> [] | Some s \<Rightarrow> 1 # s)"

definition demo_name :: "(DnType \<times> ustr) list \<Rightarrow> bytes" where
  "demo_name dn = pack [cn_part dn]"

definition int_part :: "int \<Rightarrow> nat list" where
  "int_part i = [nat i, nat (- i)]"

definition part_int :: "nat list \<Rightarrow> int" where
  "part_int ns = int (hd ns) - int (last ns)"

lemma part_int_part [simp]: "part_int (int_part i) = i"
  by (simp add: part_int_def int_part_def)

definition issue_der :: "CertificateParams \<Rightarrow> bytes \<Rightarrow> bytes \<Rightarrow> KeyPair \<Rightarrow> bytes" where
  "issue_der p public issuer signer = pack [map unat (demo_name (pa_distinguished_name p)), map unat issuer,
     cn_part (pa_distinguished_name p), map unat public, [case pa_is_ca p of Ca k \<Rightarrow> 1 | _ \<Rightarrow> 0],
     int_part (pa_not_before p div second), int_part (pa_not_after p div second), map unat (kp_secret signer)]"

definition read_cert :: "bytes \<Rightarrow> x509" where
  "read_cert der = (let ps = unpack der in
     \<lparr>c_der = der, c_subject = map of_nat (ps ! 0), c_issuer = map of_nat (ps ! 1),
      c_common_names = (case ps ! 2 of [] \<Rightarrow> [] | _ # s \<Rightarrow> [Some s]), c_extensions = [BasicConstraints (ps ! 4 = [1])],
      c_subject_public_key = map of_nat (ps ! 3), c_not_before = part_int (ps ! 5), c_not_after = part_int (ps ! 6)\<rparr>)"

lemma bytes_back [simp]: "map (of_nat \<circ> unat) (bs :: bytes) = bs"
  by (induction bs) simp_all

lemma read_issued:
  "read_cert (issue_der p public issuer signer) = \<lparr>c_der = issue_der p public issuer signer,
     c_subject = demo_name (pa_distinguished_name p), c_issuer = issuer,
     c_common_names = (case map_of (pa_distinguished_name p) CommonName of None \<Rightarrow> [] | Some s \<Rightarrow> [Some s]),
     c_extensions = [BasicConstraints (\<exists>k. pa_is_ca p = Ca k)], c_subject_public_key = public,
     c_not_before = pa_not_before p div second, c_not_after = pa_not_after p div second\<rparr>"
  by (simp add: read_cert_def issue_der_def cn_part_def split: option.splits IsCa.splits)

definition demo_default :: CertificateParams where
  "demo_default = \<lparr>pa_distinguished_name = [], pa_is_ca = NoCa, pa_key_usages = [], pa_not_before = 0, pa_not_after = 0, pa_other = []\<rparr>"

definition demo_ca_params :: "ustr \<Rightarrow> ustr + CertificateParams" where
  "demo_ca_params pem = (case demo_hex pem of Inl e \<Rightarrow> Inl e | Inr der \<Rightarrow>
     let c = read_cert der; p = demo_default\<lparr>pa_distinguished_name := [(CommonName, common_name c)]\<rparr>
     in if demo_name (pa_distinguished_name p) = c_subject c then Inr p else Inl [])"

definition demo_request :: "CertificateParams \<Rightarrow> KeyPair \<Rightarrow> ustr + bytes" where
  "demo_request p kp = (case pa_distinguished_name p of
     [(CommonName, s)] \<Rightarrow> Inr (pack [s, map unat (kp_secret kp)]) | _ \<Rightarrow> Inl [])"

definition demo_read_request :: "ustr \<Rightarrow> ustr + CsrParams" where
  "demo_read_request pem = (case demo_hex pem of Inl e \<Rightarrow> Inl e | Inr csr \<Rightarrow>
     Inr \<lparr>cs_params = demo_default\<lparr>pa_distinguished_name := [(CommonName, unpack csr ! 0)]\<rparr>, cs_public_key = map of_nat (unpack csr ! 1)\<rparr>)"

definition demo_issuer :: iext where
  "demo_issuer = cext.extend ((with_certs demo_ext)
       \<lparr>x_pem_items := (\<lambda>b. case demo_hex (map unat b) of Inl e \<Rightarrow> [] | Inr der \<Rightarrow> [Inr (lit ''CERTIFICATE'', der)]),
        x_x509_parse := Inr \<circ> read_cert,
        x_verify_cert := (\<lambda>c c'. if map unat (c_subject_public_key c') = unpack (c_der c) ! 7 then Inr () else Inl [])\<rparr>)
     (iext.fields demo_default (\<lambda>dn ty s. (ty, s) # filter (\<lambda>q. fst q \<noteq> ty) dn)
        (\<lambda>pem. map_sum id (\<lambda>b. \<lparr>kp_secret = b\<rparr>) (demo_hex pem))
        (\<lambda>p kp. Inr \<lparr>ic_params = p, ic_der = issue_der p (kp_secret kp) (demo_name (pa_distinguished_name p)) kp\<rparr>)
        (\<lambda>p kp issuer ikp. Inr \<lparr>ic_params = p,
           ic_der = issue_der p (kp_secret kp) (demo_name (pa_distinguished_name (ic_params issuer))) ikp\<rparr>)
        hex_encode demo_ca_params demo_request (\<lambda>csr. Inr (hex_encode csr)) demo_read_request
        (\<lambda>csr issuer ikp. Inr \<lparr>ic_params = cs_params csr,
           ic_der = issue_der (cs_params csr) (cs_public_key csr) (demo_name (pa_distinguished_name (ic_params issuer))) ikp\<rparr>)
        (\<lambda>d. Some (d * 86400 * second)) (\<lambda>t d. Some (t + d)))"

lemma demo_issuer_simps [simp]:
  "x_pkcs8_encode demo_issuer b = Inr (hex_encode b)" "x_ed_public demo_issuer k = k" "x_ed_key demo_issuer k = Inr k"
  "x_pem_items demo_issuer = (\<lambda>b. case demo_hex (map unat b) of Inl e \<Rightarrow> [] | Inr der \<Rightarrow> [Inr (lit ''CERTIFICATE'', der)])"
  "x_x509_parse demo_issuer = Inr \<circ> read_cert" "x_asn1_time demo_issuer = Inr"
  "x_valid_at demo_issuer = (\<lambda>c t. c_not_before c \<le> t \<and> t \<le> c_not_after c)"
  "x_verify_cert demo_issuer = (\<lambda>c c'. if map unat (c_subject_public_key c') = unpack (c_der c) ! 7 then Inr () else Inl [])"
  "x_default_params demo_issuer = demo_default"
  "x_dn_push demo_issuer = (\<lambda>dn ty s. (ty, s) # filter (\<lambda>q. fst q \<noteq> ty) dn)"
  "x_keypair demo_issuer = (\<lambda>pem. map_sum id (\<lambda>b. \<lparr>kp_secret = b\<rparr>) (demo_hex pem))"
  "x_self_signed demo_issuer = (\<lambda>p kp. Inr \<lparr>ic_params = p, ic_der = issue_der p (kp_secret kp) (demo_name (pa_distinguished_name p)) kp\<rparr>)"
  "x_signed_by demo_issuer = (\<lambda>p kp issuer ikp. Inr \<lparr>ic_params = p,
     ic_der = issue_der p (kp_secret kp) (demo_name (pa_distinguished_name (ic_params issuer))) ikp\<rparr>)"
  "x_cert_pem demo_issuer = hex_encode" "x_from_ca_cert_pem demo_issuer = demo_ca_params"
  "x_serialize_request demo_issuer = demo_request" "x_csr_pem demo_issuer = (\<lambda>csr. Inr (hex_encode csr))"
  "x_csr_from_pem demo_issuer = demo_read_request"
  "x_csr_signed_by demo_issuer = (\<lambda>csr issuer ikp. Inr \<lparr>ic_params = cs_params csr,
     ic_der = issue_der (cs_params csr) (cs_public_key csr) (demo_name (pa_distinguished_name (ic_params issuer))) ikp\<rparr>)"
  "x_days demo_issuer = (\<lambda>d. Some (d * 86400 * second))" "x_date_add demo_issuer = (\<lambda>t d. Some (t + d))"
  by (simp_all add: demo_issuer_def with_certs_def ext.defs cext.defs iext.defs demo_ext_def)

lemma demo_hex_encode [simp]: "demo_hex (hex_encode b) = Inr b"
  by (simp add: demo_hex_def)

lemma issue_encodes:
  "encodes demo_issuer demo_name p public issuer signer (issue_der p public issuer signer)"
  unfolding encodes_def
proof (intro exI conjI)
  let ?c = "read_cert (issue_der p public issuer signer)"
  show "x_x509_parse demo_issuer (issue_der p public issuer signer) = Inr ?c" by simp
  show "\<forall>c'. c_subject_public_key c' = x_ed_public demo_issuer (kp_secret signer) \<longrightarrow> x_verify_cert demo_issuer ?c c' = Inr ()"
    by (simp add: read_issued) (simp add: issue_der_def)
qed (simp_all add: read_issued is_ca_def)

lemma demo_name_inj: "demo_name d = demo_name e \<Longrightarrow> map_of d CommonName = map_of e CommonName"
  by (drule arg_cong [of _ _ unpack]) (auto simp: demo_name_def cn_part_def split: option.splits)

lemma demo_issuer_laws: "issuing_laws demo_issuer demo_name"
proof (intro conjI)
  show "rcgen_law demo_issuer demo_name" by (auto simp: rcgen_law_def issue_encodes)
  have "map_of (filter (\<lambda>q. fst q \<noteq> ty) dn) k = (if k = ty then None else map_of dn k)" for ty k and dn :: "(DnType \<times> ustr) list"
    by (induction dn) auto
  then show "name_law demo_issuer demo_name" by (auto simp: name_law_def fun_eq_iff dest: demo_name_inj)
  have h: "map unat (str_bytes (hex_encode der)) = hex_encode der" for der
  proof -
    have "list_all (\<lambda>c. c < 128) s \<Longrightarrow> map (unat \<circ> (of_nat :: nat \<Rightarrow> byte)) s = s" for s
      by (induction s) (simp_all add: unat_of_nat)
    from this [OF hex_encode_ascii] show ?thesis by (simp add: str_bytes_hex_encode)
  qed
  have ca: "demo_name (pa_distinguished_name p) = c_subject (read_cert der)" if "demo_ca_params (hex_encode der) = Inr p" for der p
    using that by (auto simp: demo_ca_params_def Let_def split: if_splits)
  have rq: "pa_distinguished_name (cs_params q) = pa_distinguished_name p \<and> cs_public_key q = kp_secret kp"
    if r: "demo_request p kp = Inr csr" and q: "demo_read_request (hex_encode csr) = Inr q" for p kp csr q
  proof -
    from r obtain s where "pa_distinguished_name p = [(CommonName, s)]" "csr = pack [s, map unat (kp_secret kp)]"
      by (auto simp: demo_request_def split: list.splits DnType.splits)
    with q show ?thesis by (auto simp: demo_read_request_def)
  qed
  show "pem_law demo_issuer demo_name" unfolding pem_law_def by (simp add: h ca rq)
  show "date_law demo_issuer" by (simp add: date_law_def)
qed


lemma demo_keypair: "rcgen_keypair demo_issuer key = Inr \<lparr>kp_secret = sk_inner key\<rparr>"
  by (simp add: rcgen_keypair_def to_pkcs8_pem_def cert_err_def)

lemma demo_ca_params_issued:
  "map_of (pa_distinguished_name p) CommonName = Some cn \<Longrightarrow>
   demo_ca_params (hex_encode (issue_der p public issuer signer)) = Inr (demo_default\<lparr>pa_distinguished_name := [(CommonName, cn)]\<rparr>)"
  by (simp add: demo_ca_params_def read_issued common_name_def Let_def) (simp add: demo_name_def cn_part_def)

lemma demo_issues:
  obtains root_pem ca_pem csr_pem leaf_pem where
    "generate_self_signed_ca demo_issuer t0 root_key root_cn d0 = Some (Inr root_pem)"
    "issue_intermediate_ca demo_issuer t1 ca_key ca_cn d1 root_key root_pem = Some (Inr ca_pem)"
    "generate_csr demo_issuer key cn = Inr csr_pem" "sign_csr demo_issuer t2 csr_pem ca_key ca_pem d2 = Some (Inr leaf_pem)"
proof -
  note ev = rthen_def demo_keypair validity_def cert_err_def
  have cn: "map_of (pa_distinguished_name (set_validity v (ca_params demo_issuer n k))) CommonName = Some n" for v n k
    by (simp add: set_validity_def ca_params_def Let_def)
  obtain p0 u0 i0 s0 where r: "generate_self_signed_ca demo_issuer t0 root_key root_cn d0 =
      Some (Inr (hex_encode (issue_der p0 u0 i0 s0)))" "map_of (pa_distinguished_name p0) CommonName = Some root_cn"
    using cn by (simp add: generate_self_signed_ca_def ev)
  obtain p1 u1 i1 s1 where c: "issue_intermediate_ca demo_issuer t1 ca_key ca_cn d1 root_key (hex_encode (issue_der p0 u0 i0 s0)) =
      Some (Inr (hex_encode (issue_der p1 u1 i1 s1)))" "map_of (pa_distinguished_name p1) CommonName = Some ca_cn"
    using cn by (simp add: issue_intermediate_ca_def ev demo_ca_params_issued [OF r(2)])
  obtain csr where q: "generate_csr demo_issuer key cn = Inr (hex_encode csr)"
    by (simp add: generate_csr_def ev demo_request_def demo_default_def)
  obtain leaf_pem where "sign_csr demo_issuer t2 (hex_encode csr) ca_key (hex_encode (issue_der p1 u1 i1 s1)) d2 = Some (Inr leaf_pem)"
    by (simp add: sign_csr_def ev demo_ca_params_issued [OF c(2)] demo_read_request_def)
  with r c q that show ?thesis by blast
qed

section \<open>Properties\<close>

text \<open>
  C22: The certificates that are issued are the certificates that validate. Let a root CA be generated, a tenant
  CA with another name be issued under it, and a recorder's signing request be signed with the tenant CA's key. Then at
  every time within the three validity periods the recorder's certificate validates against the
  root through the tenant CA, and the validated identity is the recorder's: the common name of
  the request, the public key of the recorder's own signing key, and the fingerprint of the certificate.
\<close>

theorem issued_recorder_validates:
  assumes "issuing_laws X name" and "ed25519_key_law X" and "length (sk_inner key) = 32"
    and "generate_self_signed_ca X t0 root_key root_cn d0 = Some (Inr root_pem)"
    and "issue_intermediate_ca X t1 ca_key ca_cn d1 root_key root_pem = Some (Inr ca_pem)"
    and "generate_csr X key cn = Inr csr_pem" and "sign_csr X t2 csr_pem ca_key ca_pem d2 = Some (Inr leaf_pem)"
    and "root_cn \<noteq> ca_cn" and "is_ok (x_asn1_time X at_unix)"
    and "in_window t0 d0 at_unix" and "in_window t1 d1 at_unix" and "in_window t2 d2 at_unix"
  shows "\<exists>vc. validate_chain X leaf_pem [ca_pem] root_pem at_unix = Inr vc \<and> vc_subject_common_name vc = cn \<and>
    vc_public_key vc = verifying_key X key \<and> cert_fingerprint X leaf_pem = Inr (vc_fingerprint vc)"
proof -
  obtain rd rc rdn where r: "root_pem = x_cert_pem X rd" "x_x509_parse X rd = Inr rc" "issued X t0 d0 root_cn root_key True rc"
    "c_subject rc = name rdn" "map_of rdn CommonName = Some root_cn" by (rule self_signed_ca [OF assms(1,4)])
  obtain cd cc cdn where c: "ca_pem = x_cert_pem X cd" "x_x509_parse X cd = Inr cc" "issued X t1 d1 ca_cn ca_key True cc"
    "c_subject cc = name cdn" "map_of cdn CommonName = Some ca_cn" "c_issuer cc = c_subject rc"
    "\<forall>c'. c_subject_public_key c' = x_ed_public X (sk_inner root_key) \<longrightarrow> x_verify_cert X cc c' = Inr ()"
    by (rule intermediate_ca [OF assms(1) r(2) assms(5) [unfolded r(1)]])
  obtain ld lc where l: "leaf_pem = x_cert_pem X ld" "x_x509_parse X ld = Inr lc" "issued X t2 d2 cn key False lc"
    "c_issuer lc = c_subject cc"
    "\<forall>c'. c_subject_public_key c' = x_ed_public X (sk_inner ca_key) \<longrightarrow> x_verify_cert X lc c' = Inr ()"
    by (rule recorder_cert [OF assms(1) c(2) assms(6) assms(7) [unfolded c(1)]])
  have pem: "parse_pem_chain X (x_cert_pem X der) = Inr [der]" for der using assms(1) by (auto intro: parse_cert_pem)
  have ne: "c_subject cc \<noteq> c_subject rc"
    using assms(1,8) r(4,5) c(4,5) unfolding name_law_def by (metis option.inject)
  have at: "x_asn1_time X at_unix = Inr at_unix" using assms(1,9) by (auto simp: date_law_def is_ok_iff)
  have sig: "x_verify_cert X lc cc = Inr ()" "x_verify_cert X cc rc = Inr ()"
    using l(5) c(3,7) r(3) by (simp_all add: issued_def)
  have w: "walk X at_unix [cd] rc 0 ld = Inr ()"
    using sig ne l(2,4) c(2,3,6) r(3) assms(11)
    by (simp add: walk.simps parse_der_def check_validity_def verify_signed_by_def issued_def)
  have key: "extract_ed25519_key X lc = Inr (verifying_key X key)"
    using l(3) assms(2,3) by (simp add: extract_ed25519_key_def key_from_bytes_def issued_def ed25519_key_law_def verifying_key_def)
  from w key at l(2,3) r(2,3) assms(10,12) show ?thesis
    by (simp add: validate_chain_def cert_fingerprint_def r(1) c(1) l(1) pem parse_der_def check_validity_def issued_def common_name_def)
qed

theorem issued_recorder_validates_witness:
  "\<exists>root_pem ca_pem csr_pem leaf_pem vc. let key = \<lparr>sk_inner = replicate 32 3\<rparr> in
     generate_csr demo_issuer key (lit ''recorder'') = Inr csr_pem \<and>
     sign_csr demo_issuer 0 csr_pem \<lparr>sk_inner = replicate 32 2\<rparr> ca_pem RECORDER_CERT_VALIDITY_DAYS = Some (Inr leaf_pem) \<and>
     validate_chain demo_issuer leaf_pem [ca_pem] root_pem 7 = Inr vc \<and> vc_subject_common_name vc = lit ''recorder'' \<and>
     vc_public_key vc = verifying_key demo_issuer key"
proof -
  let ?key = "\<lparr>sk_inner = replicate 32 3\<rparr>"
  obtain root_pem ca_pem csr_pem leaf_pem where i:
    "generate_self_signed_ca demo_issuer 0 \<lparr>sk_inner = replicate 32 1\<rparr> (lit ''root'') ROOT_VALIDITY_DAYS = Some (Inr root_pem)"
    "issue_intermediate_ca demo_issuer 0 \<lparr>sk_inner = replicate 32 2\<rparr> (lit ''tenant'') TENANT_CA_VALIDITY_DAYS
       \<lparr>sk_inner = replicate 32 1\<rparr> root_pem = Some (Inr ca_pem)"
    "generate_csr demo_issuer ?key (lit ''recorder'') = Inr csr_pem"
    "sign_csr demo_issuer 0 csr_pem \<lparr>sk_inner = replicate 32 2\<rparr> ca_pem RECORDER_CERT_VALIDITY_DAYS = Some (Inr leaf_pem)"
    by (rule demo_issues)
  have w: "in_window 0 ROOT_VALIDITY_DAYS 7" "in_window 0 TENANT_CA_VALIDITY_DAYS 7" "in_window 0 RECORDER_CERT_VALIDITY_DAYS 7"
    by (simp_all add: in_window_def second_def ROOT_VALIDITY_DAYS_def TENANT_CA_VALIDITY_DAYS_def RECORDER_CERT_VALIDITY_DAYS_def)
  have k: "ed25519_key_law demo_issuer" by (simp add: ed25519_key_law_def)
  from issued_recorder_validates [OF demo_issuer_laws k _ i _ _ w] i(3,4) show ?thesis
    by (auto simp: Let_def)
qed

end
