(* ===== verification/Secrets.thy ===== *)
theory Secrets
  imports Revocation
begin

text \<open>
  Secret values: drawing keys and salts from the operating system's random numbers
  (\<open>SigningKey::generate\<close> of \<open>evidence/src/keys.rs\<close>, \<open>Salt::random\<close> of \<open>evidence/src/commitment.rs\<close>), and
  their \<open>Debug\<close> forms. The generator is a state \<open>'g\<close>; \<open>fill\<close> is \<open>OsRng::fill_bytes\<close> on a buffer of the
  given length and \<open>gen\<close> is the key generation of the Ed25519 crate.
\<close>

section \<open>Drawing secrets\<close>

definition generate :: "('g \<Rightarrow> bytes \<times> 'g) \<Rightarrow> 'g \<Rightarrow> SigningKey \<times> 'g" where
  "generate gen g = (let (secret, g') = gen g in (\<lparr>sk_inner = secret\<rparr>, g'))"

definition salt_random :: "(nat \<Rightarrow> 'g \<Rightarrow> bytes \<times> 'g) \<Rightarrow> 'g \<Rightarrow> Salt \<times> 'g" where
  "salt_random fill g = (let (bytes, g') = fill 32 g in (\<lparr>salt_bytes = bytes\<rparr>, g'))"

text \<open>A buffer is filled, and a generated key has 32 bytes.\<close>

definition fill_law :: "(nat \<Rightarrow> 'g \<Rightarrow> bytes \<times> 'g) \<Rightarrow> bool" where
  "fill_law fill \<longleftrightarrow> (\<forall>n g. length (fst (fill n g)) = n)"

definition generate_law :: "('g \<Rightarrow> bytes \<times> 'g) \<Rightarrow> bool" where
  "generate_law gen \<longleftrightarrow> (\<forall>g. length (fst (gen g)) = 32)"

section \<open>Debug forms\<close>

definition signing_key_debug :: "'x ext_scheme \<Rightarrow> SigningKey \<Rightarrow> msg" where
  "signing_key_debug X key = [T ''SigningKey { public: '', D (verifying_key_hex X key), T '', .. }'']"

definition salt_debug :: "Salt \<Rightarrow> msg" where
  "salt_debug salt = [T ''Salt(..)'']"

section \<open>Facts\<close>

lemma length_generate: "generate_law gen \<Longrightarrow> generate gen g = (key, g') \<Longrightarrow> length (sk_inner key) = 32"
  by (auto simp: generate_def generate_law_def split: prod.splits) (metis fst_conv)

lemma length_salt: "fill_law fill \<Longrightarrow> salt_random fill g = (salt, g') \<Longrightarrow> length (salt_bytes salt) = 32"
  by (auto simp: salt_random_def fill_law_def split: prod.splits) (metis fst_conv)

section \<open>Properties\<close>

text \<open>
  A generated key is ready for use: its exported seed loads again to the same key, its
  published public key parses, and what it signs verifies under the parsed key.
\<close>

theorem generated_key_usable:
  assumes "generate_law gen" and "ed25519_law X" and "ed25519_key_law X" and "generate gen g = (key, g')"
  shows "from_seed (seed key) = Inr key \<and>
    (\<exists>pk. key_from_hex X (verifying_key_hex X key) = Inr pk \<and>
       (\<forall>digest c. verify_digest X pk digest (sign_digest X key digest) c = Inr ()))"
proof -
  note len = length_generate [OF assms(1,4)]
  then have "key_from_hex X (verifying_key_hex X key) = Inr (verifying_key X key)"
    using assms(3) by (simp add: key_from_hex_def verifying_key_hex_def key_from_bytes_def ed25519_key_law_def verifying_key_def)
  with len verify_sign_digest [OF assms(2)] show ?thesis by (auto simp: from_seed_def seed_def)
qed

theorem generated_key_usable_witness:
  "\<exists>pk. key_from_hex demo_ext (verifying_key_hex demo_ext \<lparr>sk_inner = replicate 32 7\<rparr>) = Inr pk \<and>
     from_seed (seed \<lparr>sk_inner = replicate 32 7\<rparr>) = Inr \<lparr>sk_inner = replicate 32 7\<rparr>"
proof -
  have "generate_law (\<lambda>g :: nat. (replicate 32 7, Suc g))" by (simp add: generate_law_def)
  from generated_key_usable [OF this demo_ed25519_law demo_ed25519_key_law, of 0] show ?thesis by (auto simp: generate_def)
qed

text \<open>
  A commitment made with a fresh salt can be disclosed from what the vault stores: the
  hexadecimal text of the salt reads back to the salt, and payload and salt match the commitment.
\<close>

theorem fresh_commitment_discloses:
  assumes "fill_law fill" and "salt_random fill g = (salt, g')"
  shows "\<exists>s. salt_from_hex (salt_to_hex salt) = Inr s \<and> verify_commitment X payload s (commit X payload salt)"
  using length_salt [OF assms] by (simp add: salt_roundtrip verify_commitment_def commit_def)

theorem fresh_commitment_discloses_witness:
  "\<exists>s. salt_from_hex (salt_to_hex \<lparr>salt_bytes = replicate 32 9\<rparr>) = Inr s \<and>
     verify_commitment demo_ext [1, 2] s (commit demo_ext [1, 2] \<lparr>salt_bytes = replicate 32 9\<rparr>)"
proof -
  have "fill_law (\<lambda>n g :: nat. (replicate n 9, Suc g))" by (simp add: fill_law_def)
  from fresh_commitment_discloses [OF this, of 0 "\<lparr>salt_bytes = replicate 32 9\<rparr>" 1 demo_ext] show ?thesis
    by (simp add: salt_random_def)
qed

text \<open>
  The Debug forms do not leak. Two keys with the same public key print alike, whatever the secret
  bytes, and all salts print alike.
\<close>

theorem debug_hides_secrets:
  "(verifying_key X a = verifying_key X b \<longleftrightarrow> signing_key_debug X a = signing_key_debug X b) \<and> salt_debug s = salt_debug t"
proof -
  have "hex_encode a = hex_encode b \<longleftrightarrow> a = b" for a b by (metis hex_decode_encode sum.inject(2))
  then show ?thesis by (simp add: signing_key_debug_def salt_debug_def verifying_key_hex_def verifying_key_def)
qed

end
