(* ===== verification/Sample.thy ===== *)
theory Sample
  imports Reread
begin

text \<open>
  The sample records of the workspace's test suites (\<open>tests_support\<close> of \<open>evidence/src/record.rs\<close>, built with
  the feature \<open>test-support\<close>) and the chain that \<open>evidence/src/lib.rs\<close> builds from them.
  \<open>Ulid::from_parts\<close> is an argument; the wall clock of the samples counts the seconds of one minute.
\<close>

section \<open>Sample records\<close>

definition pad2 :: "nat \<Rightarrow> ustr" where
  "pad2 n = replicate (2 - length (dec_digits n)) 48 @ dec_digits n"

definition sample_wall :: "nat \<Rightarrow> ustr" where
  "sample_wall k = lit ''2026-08-11T12:00:'' @ pad2 k @ lit ''.000Z''"

definition sample_unchained ::
  "'x ext_scheme \<Rightarrow> (u64 \<Rightarrow> u128 \<Rightarrow> u128) \<Rightarrow> u128 \<Rightarrow> u128 \<Rightarrow> u64 \<Rightarrow> Record" where
  "sample_unchained X from_parts stream segment i = \<lparr>
     r_schema_version = SCHEMA_VERSION,
     r_record_id = x_ulid_str X (from_parts (max (i * 1000) 1) (ucast i + 1)),
     r_stream_id = x_ulid_str X stream,
     r_segment_id = x_ulid_str X segment,
     r_seq = 0,
     r_ts_wall = sample_wall (unat (i mod 60)),
     r_ts_mono_ns = i * 1000000,
     r_record_type = Operation,
     r_recorder = \<lparr>ri_recorder_id = x_ulid_str X (from_parts 1 3), ri_version = lit ''0.1.0'',
       ri_host_fingerprint = lit ''abc'', ri_platform = lit ''linux-x86_64''\<rparr>,
     r_subject = \<lparr>su_agent_kind = lit ''claude-code'', su_agent_session = lit ''sess-1'',
       su_human_principal = Some (lit ''dev@example.com''), su_attribution = Attributed, su_source = lit ''oidc-hook''\<rparr>,
     r_action = \<lparr>ac_integration = lit ''sql'', ac_operation = lit ''query'', ac_verb_class = lit ''bounded_write'',
       ac_target_resource = lit ''db:prod-main'', ac_resource_labels = [lit ''env:prod'']\<rparr>,
     r_action_detail = None,
     r_payload_commitment = Some \<lparr>pc_alg = lit ''blake3-salted'', pc_commitment = concat (replicate 32 (lit ''00''))\<rparr>,
     r_payload_ref = None,
     r_verdict = Some \<lparr>ve_decision = Allow, ve_mode = Observe, ve_risk_class = Medium, ve_policy_version = 1,
       ve_rule_ids = [lit ''default''], ve_reason_codes = [], ve_guard = \<lparr>gr_name = lit ''sql'', gr_version = lit ''0.1.0''\<rparr>,
       ve_eval_ms = 2\<rparr>,
     r_approval_ref = None,
     r_links = None,
     r_prev_hash = [],
     r_record_hash = []\<rparr>"

definition sample_records :: "'x ext_scheme \<Rightarrow> (u64 \<Rightarrow> u128 \<Rightarrow> u128) \<Rightarrow> nat \<Rightarrow> Record list" where
  "sample_records X from_parts n =
     map (\<lambda>i. sample_unchained X from_parts (from_parts 42 42) (from_parts 42 43) (of_nat i)) [0..<n]"

definition build_chain ::
  "'x ext_scheme \<Rightarrow> (u64 \<Rightarrow> u128 \<Rightarrow> u128) \<Rightarrow> nat \<Rightarrow> (u128 \<times> Record list) result" where
  "build_chain X from_parts n =
     rbind (append_all X (chain_genesis X (from_parts 42 42)) (sample_records X from_parts n)) (\<lambda>(h, out).
       Inr (from_parts 42 42, out))"

section \<open>They can be appended\<close>

lemma append_all_ok:
  "list_all (\<lambda>r. r_stream_id r = x_ulid_str X (h_stream_id h) \<and>
     (\<forall>s p. uint s \<le> 2 ^ 53 - 1 \<longrightarrow> is_ok (to_jcs_bytes (Object (record_content (r\<lparr>r_seq := s, r_prev_hash := p\<rparr>)))))) rs \<Longrightarrow>
   uint (next_seq h) + int (length rs) \<le> 2 ^ 53 \<Longrightarrow> \<exists>h' out. append_all X h rs = Inr (h', out)"
proof (induction rs arbitrary: h)
  case (Cons r rs)
  let ?r = "r\<lparr>r_seq := next_seq h, r_prev_hash := h_head_hash h\<rparr>"
  from Cons.prems have "is_ok (to_jcs_bytes (Object (record_content ?r)))" by simp
  then obtain hash where hash: "compute_hash X ?r = Inr hash" by (auto simp: compute_hash_content is_ok_iff)
  let ?h = "h\<lparr>h_head_hash := hash, h_last_seq := Some (next_seq h)\<rparr>"
  have a: "chain_append X h r = ((?h, ?r\<lparr>r_record_hash := hash\<rparr>), Inr ())"
    using Cons.prems(1) hash by (simp add: chain_append_def finalize_def Let_def)
  have "uint (next_seq ?h) = uint (next_seq h) + 1" using Cons.prems(2) by (intro next_seq_succ) simp_all
  with Cons.IH [of ?h] Cons.prems a show ?case by (auto simp: list_all_iff)
qed simp

lemma unat_small: "n < 60 \<Longrightarrow> unat (of_nat n :: u64) = n"
  by (simp add: unat_of_nat)

lemma sample_encodes:
  assumes "i < 60" and "uint s \<le> 2 ^ 53 - 1"
  shows "is_ok (to_jcs_bytes (Object (record_content ((sample_unchained X f st sg (of_nat i))\<lparr>r_seq := s, r_prev_hash := p\<rparr>))))"
proof -
  have m: "(of_nat i * 1000000 :: u64) = of_nat (i * 1000000)" by simp
  have "uint (of_nat i * 1000000 :: u64) = int (i * 1000000)"
    unfolding m using assms(1) by (simp only: unsigned_of_nat) (simp add: take_bit_nat_eq_self)
  with assms show ?thesis by (simp add: to_jcs_bytes_ok record_content_def sample_unchained_def json_defs)
qed

lemma sample_wf:
  assumes "ulid_law X"
  shows "wf_record (sample_unchained X f st sg i)"
proof -
  have u: "is_ustr (x_ulid_str X u)" for u using assms by (simp add: ulid_law_def)
  have "is_ustr (replicate m 48)" for m by (induction m) (simp_all add: is_char_def)
  then have "is_ustr (sample_wall k)" for k
    using digits_valid [OF dec_digits_digits [of k]] by (simp add: sample_wall_def pad2_def)
  moreover have "is_ustr (concat (replicate m (lit ''00'')))" for m by (induction m) simp_all
  ultimately show ?thesis
    unfolding wf_record_def record_to_json_def wf_json.simps
    using distinct_record_members [of "sample_unchained X f st sg i"]
    by (auto simp: sample_unchained_def json_defs SCHEMA_VERSION_def u wf_number_def distinct_flds_append list_all_append
      simp del: map_append)
qed


section \<open>Their clocks\<close>

text \<open>The parser reads the sample times as consecutive seconds.\<close>

definition sample_times :: "'x ext_scheme \<Rightarrow> int \<Rightarrow> bool" where
  "sample_times X t \<longleftrightarrow> (\<forall>k < 60. x_rfc3339 X (sample_wall k) = Inr (t + int k * 1000000000))"

lemma sample_clocks:
  assumes "sample_times X t" and "n \<le> 60"
  shows "clocks_ok X (sample_records X f n)"
proof -
  have w: "r_ts_wall (sample_unchained X f st sg (of_nat i)) = sample_wall i"
    "r_ts_mono_ns (sample_unchained X f st sg (of_nat i)) = of_nat (i * 1000000)" if "i < 60" for i st sg
    using that by (simp_all add: sample_unchained_def unat_mod unat_small)
  have p: "parse_wall X (sample_wall i) = Inr (t + int i * 1000000000)" if "i < 60" for i
    using assms(1) that by (simp add: parse_wall_def sample_times_def)
  have m: "(of_nat (i * 1000000) :: u64) \<le> of_nat (Suc i * 1000000)" if "Suc i < 60" for i
    using that unfolding word_le_nat_alt by (simp only: unat_of_nat) simp
  have "clock_step X (sample_unchained X f st sg (of_nat i)) (sample_unchained X f st sg (of_nat (Suc i)))" if "Suc i < 60" for i st sg
    unfolding clock_step_def using that p m [OF that] w [of i] w [OF that]
      zdiv_mono1 [of "t + int i * 1000000000" "t + int (Suc i) * 1000000000" 1000000]
    by (simp add: timestamp_millis_def WALL_TOLERANCE_MS_def del: of_nat_Suc of_nat_mult)
  then have "successively (clock_step X) (sample_records X f n)"
    using assms(2) by (auto simp: sample_records_def successively_conv_nth)
  moreover have "list_all (\<lambda>r. is_ok (parse_wall X (r_ts_wall r))) (sample_records X f n)"
    using assms(2) p w(1) by (auto simp: sample_records_def list_all_iff)
  ultimately show ?thesis by (simp add: clocks_ok_def)
qed


section \<open>A concrete clock\<close>

definition sample_ext :: ext where
  "sample_ext = demo_ext\<lparr>x_rfc3339 := (\<lambda>s. map_sum id (\<lambda>k. int k * 1000000000) (demo_number (take 2 (drop 17 s))))\<rparr>"

lemma demo_number_pad2: "k < 60 \<Longrightarrow> length (pad2 k) = 2 \<and> demo_number (pad2 k) = Inr k"
proof -
  assume "k < 60"
  then have "length (dec_digits k) \<in> {1, 2}"
    by (cases "k < 10") (simp_all add: dec_digits.simps [of k] dec_digits.simps [of "k div 10"] div_less)
  moreover have "digits_val (48 # dec_digits k) = digits_val (dec_digits k)" by (simp add: digits_val_def)
  moreover have "demo_number (dec_digits k) = Inr k" by simp
  ultimately show ?thesis using dec_digits_digits [of k]
    by (auto simp: pad2_def demo_number_def split: if_splits)
qed

lemma sample_ext_times: "sample_times sample_ext 0"
proof -
  have "length (lit ''2026-08-11T12:00:'') = 17" by (simp add: lit_def)
  then show ?thesis using demo_number_pad2 by (simp add: sample_times_def sample_ext_def sample_wall_def)
qed

section \<open>Properties\<close>

text \<open>
  The sample chain verifies. For every length up to a minute's worth of records, building the chain succeeds, and the verifier of its stream
  accepts all of its records without a finding, as they are and as they are read back from their lines.
\<close>

theorem sample_chain_verifies:
  assumes "ulid_law X" and "sample_times X t" and "n \<le> 60"
  shows "\<exists>stream out sv sv' sv''. build_chain X from_parts n = Inr (stream, out) \<and> length out = n \<and>
    verifier_new X (x_ulid_str X stream) = Inr sv \<and> verify_records X sv (map record_to_json out) = Inr (sv', []) \<and>
    verify_records X sv (map read_back out) = Inr (sv'', [])"
proof -
  let ?s = "from_parts 42 42" and ?rs = "sample_records X from_parts n"
  have "\<exists>h out. append_all X (chain_genesis X ?s) ?rs = Inr (h, out)"
  proof (rule append_all_ok)
    show "uint (next_seq (chain_genesis X ?s)) + int (length ?rs) \<le> 2 ^ 53"
      using assms(3) by (simp add: next_seq_def chain_genesis_def sample_records_def)
    have "r_stream_id (sample_unchained X from_parts ?s sg i) = x_ulid_str X ?s" for sg i by (simp add: sample_unchained_def)
    then show "list_all (\<lambda>r. r_stream_id r = x_ulid_str X (h_stream_id (chain_genesis X ?s)) \<and>
      (\<forall>s p. uint s \<le> 2 ^ 53 - 1 \<longrightarrow> is_ok (to_jcs_bytes (Object (record_content (r\<lparr>r_seq := s, r_prev_hash := p\<rparr>)))))) ?rs"
      using assms(3) unfolding sample_records_def
      by (auto simp: list_all_iff chain_genesis_def intro!: sample_encodes)
  qed
  then obtain h out where a: "append_all X (chain_genesis X ?s) ?rs = Inr (h, out)" by blast
  have wf: "list_all wf_record ?rs" using sample_wf [OF assms(1)] by (simp add: sample_records_def list_all_iff)
  note c = sample_clocks [OF assms(2,3)]
  obtain sv sv'' where v: "verifier_new X (x_ulid_str X ?s) = Inr sv" "verify_records X sv (map read_back out) = Inr (sv'', [])"
    by (rule honest_lines_verify [OF assms(1) a c wf])
  from genesis_in_step [OF assms(1), of ?s] v(1) have "in_step X None (chain_genesis X ?s) sv" by auto
  from append_all_in_step [OF a this] c obtain sv'
    where "verify_records X sv (map record_to_json out) = Inr (sv', [])" "length out = length ?rs" by (auto simp: clocks_ok_def)
  with a v show ?thesis by (simp add: build_chain_def sample_records_def)
qed

theorem sample_chain_verifies_witness:
  "\<exists>stream out sv sv'. build_chain sample_ext (\<lambda>ms r. ucast ms + r) 40 = Inr (stream, out) \<and> length out = 40 \<and>
     verifier_new sample_ext (x_ulid_str sample_ext stream) = Inr sv \<and>
     verify_records sample_ext sv (map record_to_json out) = Inr (sv', [])"
proof -
  have u: "ulid_law sample_ext" using demo_ulid_law by (simp add: ulid_law_def sample_ext_def)
  have "\<exists>stream out sv sv' sv''. build_chain sample_ext (\<lambda>ms r. ucast ms + r) 40 = Inr (stream, out) \<and> length out = 40 \<and>
    verifier_new sample_ext (x_ulid_str sample_ext stream) = Inr sv \<and> verify_records sample_ext sv (map record_to_json out) = Inr (sv', []) \<and>
    verify_records sample_ext sv (map read_back out) = Inr (sv'', [])"
    by (rule sample_chain_verifies [OF u sample_ext_times]) simp
  then show ?thesis by blast
qed

end
