(* ===== verification/Spec2Isabelle.thy ===== *)
theory Spec2Isabelle
  imports Cli Agreement End_To_End Projection Issuing Secrets Sample
begin

text \<open>
  \<^bold>\<open>sealr-verify\<close>: a verification development for the Rust workspace under \<open>src/\<close>.

  \<^bold>\<open>The program.\<close> A recorder writes hash-chained evidence records and signs checkpoints over them; an
  exporter packs records, checkpoints, timestamp anchors and identities into a \<open>.seal\<close> bundle; an
  offline verifier reads a bundle and reports what it proves. Three crates:
  \<^item> \<open>evidence\<close>: canonical JSON, hashes, records, the chain, Merkle trees, keys, checkpoints,
    revocations, certificates, commitments and the console projection;
  \<^item> \<open>bundle\<close>: the documents of a bundle, anchor proofs, the reader and the writer;
  \<^item> \<open>verify\<close>: timestamp tokens, the engine with its seven stages, the report and the command line.

  \<^bold>\<open>The model.\<close> Records are HOL records with the source's fields, enums are datatypes, 64-bit numbers are
  words, text is a list of code points (\<open>ustr\<close>), bytes are 8-bit words, a message is a template
  (\<open>msg\<close>) whose pieces are literal and formatted parts. A fallible function returns a sum with the
  error on the left. Mutable state is passed and returned; the bundle writer is a state and error monad
  (\<open>wop\<close>). Every loop is a recursion that terminates; there is no fuel. Code outside
  the repository (BLAKE3, SHA-2, Ed25519, RSA, ULID and time parsing, PEM, X.509 and ASN.1, ZIP, zstd, serde,
  the clock, the file system) is a record of functions, the argument \<open>X\<close>: \<open>ext\<close> for the evidence crate,
  extended by \<open>cext\<close>, \<open>iext\<close>, \<open>vext\<close>, \<open>bext\<close>, \<open>tsext\<close> and \<open>eext\<close> as the components need it.
  Random numbers and \<open>Ulid::from_parts\<close> are arguments of the functions that use them. What the code relies
  on are named laws (\<open>digest32\<close>, \<open>ed25519_law\<close>, \<open>ulid_law\<close>, \<open>blake3_distinguishes\<close> for a given set of
  inputs, \<open>zip_writer_law\<close>, \<open>zstd_law\<close>, and so on), and \<open>demo_ext\<close> with its extensions is a concrete
  instance on which every law used as a hypothesis holds.

  \<^bold>\<open>Theories, in the order of the code.\<close>
  \<^item> \<open>Prelude\<close>, \<open>Externals\<close>, \<open>Errors\<close>: shared types and lemmas, external functions and their laws,
    error values and messages (\<open>evidence/src/error.rs\<close>). \<open>Demo\<close>: the concrete instance.
  \<^item> \<open>Hashing\<close> (\<open>hash.rs\<close>), \<open>Jcs\<close> (\<open>jcs.rs\<close>), \<open>Records\<close> (\<open>record.rs\<close>): digests and hexadecimal text,
    canonical JSON, the record schema and its hash. Canonical bytes determine the value; encoding fails
    exactly on numbers outside the safe range; equal record hashes mean equal contents.
  \<^item> \<open>Hash_Log\<close>: the locale \<open>hash_log\<close>, a chain of items by hash links, with the theorem that
    a head binds its history. It is interpreted for the record chain and the chain of checkpoint notes.
  \<^item> \<open>Chain\<close> (\<open>chain.rs\<close>): writer and streaming verifier; the verifier simulates the writer, and
    whatever verifies without findings is bound by its head hash; a run without findings is exactly a stream in order,
    stated over neighbouring records; heads and appended records stay well typed.
  \<^item> \<open>Reread\<close>: what the parser gives back for a canonical line. The members come in canonical order,
    and the verifier treats that value as it treats the record it was printed from.
    \<open>Sample\<close> (\<open>tests_support\<close> of \<open>record.rs\<close>, \<open>build_chain\<close> of \<open>lib.rs\<close>): the sample chain verifies.
  \<^item> \<open>Merkle\<close> (\<open>merkle.rs\<close>): roots and audit paths, complete and sound.
  \<^item> \<open>Keys\<close> (\<open>keys.rs\<close>, \<open>commitment.rs\<close>): signing and verifying; the locale \<open>signed_document\<close> states
    once what a signature over canonical JSON binds, and is interpreted for notes, countersignatures,
    revocation lists and manifests. \<open>Secrets\<close>: generated keys and salts are usable, and \<open>Debug\<close> forms hide them.
  \<^item> \<open>Checkpoints\<close> (\<open>checkpoint.rs\<close>), \<open>Revocation\<close> (\<open>revocation.rs\<close>), \<open>Certs\<close> (\<open>certs.rs\<close>, validation),
    \<open>Issuing\<close> (\<open>certs.rs\<close>, issuing; issued certificates validate),
    \<open>Projection\<close> (\<open>projection.rs\<close>; the projection is the record without its literal-bearing members and with redacted text).
  \<^item> \<open>Anchors\<close> (\<open>bundle/src/anchors.rs\<close>), \<open>Bundle\<close> (\<open>types.rs\<close>, \<open>manifest.rs\<close>, \<open>error.rs\<close>, \<open>read.rs\<close>),
    \<open>Writer\<close> (\<open>write.rs\<close>) and \<open>Export\<close>: every operation of the reader and the writer, the writer's
    steps as an inductive relation with its ordering invariant, and that what the writer finishes is
    what the reader opens, checks and reads.
  \<^item> \<open>Report\<close> (\<open>report.rs\<close>), \<open>Report_Json\<close> (its serde form, which loses nothing of the verdict, the counts and
    the findings), \<open>Tsa\<close> (\<open>tsa.rs\<close>).
  \<^item> The engine (\<open>engine.rs\<close>): \<open>Stream_Check\<close> (records), \<open>Checkpoint_Check\<close> (checkpoints), \<open>Identity_Check\<close>
    (roots, certificates, console keys), \<open>Anchor_Check\<close> (anchors), \<open>Engine\<close> (\<open>verify_bundle\<close>). \<open>Honest\<close>
    shows that an honest export passes, \<open>Demo_Run\<close> builds one, \<open>Verdict\<close> holds the properties of a whole run:
    what a verdict other than failure and what the verdict \<open>Pass\<close> establish. \<open>Agreement\<close> compares
    two runs: bundles that are not rejected and share a signed checkpoint hold the same records under it
    and under every checkpoint it reaches by its links. \<open>End_To_End\<close> composes chain,
    checkpoints, writer, reader and engine: what is recorded and exported honestly opens and passes.
  \<^item> \<open>Cli\<close> (\<open>main.rs\<close>): the program around the engine, its output and its exit codes. \<open>sealr_verify\<close> is the whole
    program over a \<open>host\<close>, the record of the functions of the environment that it calls; what the arguments ask for is
    defined apart from the program (\<open>asked\<close>, \<open>extent_of\<close>), and exit codes and output are related to it.

  \<^bold>\<open>Conventions.\<close> A \<open>HashMap\<close> is an association list without repeated keys whose order is never
  observed, a \<open>BTreeMap\<close> one in key order (locale \<open>lookup_table\<close>). Findings are returned by
  each stage and concatenated in the order in which the code pushes them. Arithmetic on \<open>u64\<close> wraps
  in the model; where a debug build would panic instead (\<open>seq_to - seq_from + 1\<close> of a malformed checkpoint)
  this is recorded as a finding. \<open>usize\<close> is taken as 64 bits.

  \<^bold>\<open>Not modelled.\<close> The zeroizing of dropped secrets, the constant entry options of the ZIP writer, \<open>format_wall\<close>
  (a call of chrono that nothing in the workspace makes), and the tests and test vectors. The argument parser of clap, the file
  system, the pretty printer of JSON and \<open>Debug\<close> formatting are functions of \<open>host\<close>; what is printed is the
  returned text. The verifier's trust in a timestamp
  authority is that of the code: the signer certificate inside the token is not validated further.
\<close>

end
